(* ===== verification/Prelude.thy ===== *)
theory Prelude
  imports Main "HOL-Library.Word" "HOL-Library.Monad_Syntax" "HOL-Library.Code_Target_Numeral"
begin

unbundle bit_operations_syntax

text \<open>
  What the components of the development share: the machine integer types of the
  sources, Rust's partial operations (bounds-checked indexing, checked subtraction),
  the slice searches \<open>position\<close> and \<open>find\<close>, bitmaps stored in 64-bit words, big-endian
  byte strings, and the reading of a circular buffer as a list.

  Conventions. A Rust \<open>Result<T, E>\<close> is \<open>'e + 't\<close> (\<open>Inl\<close> the error). A panic (an index
  out of bounds, a failed \<open>assert!\<close>, an \<open>unwrap\<close> of \<open>None\<close>, an underflowing subtraction) is
  the value \<^term>\<open>None\<close> of an option, so that a function that can panic returns an option and
  the absence of panics is a theorem. Counters that only ever index fixed arrays are \<open>nat\<close>;
  identifiers, addresses that are combined bitwise, timestamps and wire values are words.
\<close>

type_synonym u8 = "8 word"
type_synonym u16 = "16 word"
type_synonym u32 = "32 word"
type_synonym u64 = "64 word"

type_synonym ('e, 'a) result = "'e + 'a"

named_theorems rust_simps \<open>unfolding rules for the partial operations of the prelude\<close>
named_theorems inv_defs \<open>invariants of the components\<close>

section \<open>Partial operations\<close>

definition ensure :: "bool \<Rightarrow> unit option" where
  [rust_simps]: "ensure b = (if b then Some () else None)"

definition idx :: "'a list \<Rightarrow> nat \<Rightarrow> 'a option" where
  [rust_simps]: "idx xs i = (if i < length xs then Some (xs ! i) else None)"

definition idx_upd :: "'a list \<Rightarrow> nat \<Rightarrow> 'a \<Rightarrow> 'a list option" where
  [rust_simps]: "idx_upd xs i v = (if i < length xs then Some (xs[i := v]) else None)"

definition usub :: "nat \<Rightarrow> nat \<Rightarrow> nat option" where
  [rust_simps]: "usub a b = (if b \<le> a then Some (a - b) else None)"

text \<open>\<open>u64::saturating_sub\<close>.\<close>

definition saturating_sub :: "u64 \<Rightarrow> u64 \<Rightarrow> u64" where
  "saturating_sub a b = (if b \<le> a then a - b else 0)"

text \<open>\<open>Result::expect\<close> and \<open>Result::unwrap\<close>.\<close>

primrec expect :: "('e, 'a) result \<Rightarrow> 'a option" where
  "expect (Inl e) = None"
| "expect (Inr x) = Some x"

lemma ensure_simps [simp]: "ensure True = Some ()" "ensure False = None"
  by (simp_all add: ensure_def)

lemma idx_Some_iff: "idx xs i = Some v \<longleftrightarrow> i < length xs \<and> xs ! i = v"
  by (auto simp: idx_def)

lemma idx_upd_Some_iff: "idx_upd xs i v = Some ys \<longleftrightarrow> i < length xs \<and> ys = xs[i := v]"
  by (auto simp: idx_upd_def)

lemma usub_Some_iff: "usub a b = Some c \<longleftrightarrow> b \<le> a \<and> c = a - b"
  by (auto simp: usub_def)

lemma idx_in [simp]: "i < length xs \<Longrightarrow> idx xs i = Some (xs ! i)"
  by (simp add: idx_def)

lemma idx_upd_in [simp]: "i < length xs \<Longrightarrow> idx_upd xs i v = Some (xs[i := v])"
  by (simp add: idx_upd_def)

lemma usub_in [simp]: "b \<le> a \<Longrightarrow> usub a b = Some (a - b)"
  by (simp add: usub_def)

lemma option_eqI: "(\<And>x. a = Some x \<longleftrightarrow> b = Some x) \<Longrightarrow> a = b"
  by (cases a; cases b) auto

section \<open>Searching slices\<close>

text \<open>\<open>xs.iter().position(p)\<close>: the index of the first element with the property.\<close>

primrec position :: "('a \<Rightarrow> bool) \<Rightarrow> 'a list \<Rightarrow> nat option" where
  "position p [] = None"
| "position p (x # xs) = (if p x then Some 0 else map_option Suc (position p xs))"

lemma position_None_iff [simp]: "position p xs = None \<longleftrightarrow> (\<forall>x \<in> set xs. \<not> p x)"
  by (induction xs) auto

lemma position_SomeD:
  "position p xs = Some i \<Longrightarrow> i < length xs \<and> p (xs ! i) \<and> (\<forall>j < i. \<not> p (xs ! j))"
proof (induction xs arbitrary: i)
  case Nil
  then show ?case by simp
next
  case (Cons x xs)
  then show ?case by (auto split: if_splits simp: nth_Cons split: nat.splits)
qed

lemma position_exists: "x \<in> set xs \<Longrightarrow> p x \<Longrightarrow> \<exists>i. position p xs = Some i"
  by (cases "position p xs") auto

lemma find_Some_iff_position:
  "find p xs = map_option ((!) xs) (position p xs)"
  by (induction xs) (auto simp: option.map_comp comp_def)

lemma find_SomeD: "find p xs = Some x \<Longrightarrow> x \<in> set xs \<and> p x"
  by (induction xs) (auto split: if_splits)

lemma find_None_iff': "find p xs = None \<longleftrightarrow> (\<forall>x \<in> set xs. \<not> p x)"
  by (induction xs) auto

lemma find_unique:
  assumes "x \<in> set xs" "p x" "\<And>y. y \<in> set xs \<Longrightarrow> p y \<Longrightarrow> y = x"
  shows "find p xs = Some x"
proof (cases "find p xs")
  case None
  with assms(1,2) show ?thesis by (simp add: find_None_iff)
next
  case (Some y)
  then have "y \<in> set xs" "p y" by (auto dest: find_SomeD)
  with assms(3) Some show ?thesis by blast
qed

text \<open>\<open>slots.iter().flatten()\<close>: the occupied slots of an array of options, in order.\<close>

definition flatten_opt :: "'a option list \<Rightarrow> 'a list" where
  "flatten_opt xs = map the (filter (\<lambda>s. s \<noteq> None) xs)"

lemma flatten_opt_simps [simp]:
  "flatten_opt [] = []"
  "flatten_opt (None # xs) = flatten_opt xs"
  "flatten_opt (Some x # xs) = x # flatten_opt xs"
  by (simp_all add: flatten_opt_def)

lemma set_flatten_opt [simp]: "x \<in> set (flatten_opt xs) \<longleftrightarrow> Some x \<in> set xs"
  by (induction xs) (auto simp: flatten_opt_def)

lemma flatten_opt_append [simp]: "flatten_opt (xs @ ys) = flatten_opt xs @ flatten_opt ys"
  by (simp add: flatten_opt_def)

lemma flatten_opt_replicate_None [simp]: "flatten_opt (replicate n None) = []"
  by (simp add: flatten_opt_def)

lemma flatten_opt_update_None:
  "i < length xs \<Longrightarrow> xs ! i = None \<Longrightarrow>
     flatten_opt (xs[i := Some v]) = flatten_opt (take i xs) @ v # flatten_opt (drop (Suc i) xs)"
  by (simp add: upd_conv_take_nth_drop)

lemma length_flatten_opt_le: "length (flatten_opt xs) \<le> length xs"
  by (simp add: flatten_opt_def)

lemma flatten_full: "length (flatten_opt xs) = length xs \<longleftrightarrow> None \<notin> set xs"
proof (induction xs)
  case (Cons x xs)
  then show ?case using length_flatten_opt_le [of xs] by (cases x) auto
qed simp

lemma find_insert_key:
  "\<forall>e \<in> set (xs @ ys). k e \<noteq> k v \<Longrightarrow>
     find (\<lambda>e. k e = t) (xs @ v # ys) = (if t = k v then Some v else find (\<lambda>e. k e = t) (xs @ ys))"
  by (induction xs) auto

section \<open>Bitmaps in arrays of 64-bit words\<close>

text \<open>
  The sources keep several bitmaps as \<open>[u64; N]\<close> and address bit \<open>idx\<close> as bit \<open>idx % 64\<close> of
  word \<open>idx / 64\<close>, with masks \<open>1 << bit\<close>.
\<close>

definition bm_mask :: "nat \<Rightarrow> u64" where
  "bm_mask i = push_bit (i mod 64) 1"

definition bm_test :: "u64 list \<Rightarrow> nat \<Rightarrow> bool option" where
  "bm_test bs i = do { w \<leftarrow> idx bs (i div 64); Some (w AND bm_mask i \<noteq> 0) }"

definition bm_set :: "u64 list \<Rightarrow> nat \<Rightarrow> u64 list option" where
  "bm_set bs i = do { w \<leftarrow> idx bs (i div 64); idx_upd bs (i div 64) (w OR bm_mask i) }"

definition bm_clear :: "u64 list \<Rightarrow> nat \<Rightarrow> u64 list option" where
  "bm_clear bs i = do { w \<leftarrow> idx bs (i div 64); idx_upd bs (i div 64) (w AND NOT (bm_mask i)) }"

text \<open>The set of indices whose bit is 1.\<close>

definition bm_bits :: "u64 list \<Rightarrow> nat set" where
  "bm_bits bs = {i. i div 64 < length bs \<and> bit (bs ! (i div 64)) (i mod 64)}"

lemma word_eq_bits: "a = b \<longleftrightarrow> (\<forall>n < LENGTH('a). bit a n = bit b n)" for a b :: "'a::len word"
  by (auto intro: bit_word_eqI)

lemma bit_bm_mask: "bit (bm_mask i) n \<longleftrightarrow> n = i mod 64"
  by (auto simp: bm_mask_def bit_simps possible_bit_word)

lemma and_bm_mask_neq_0: "w AND bm_mask i \<noteq> 0 \<longleftrightarrow> bit w (i mod 64)"
  by (auto simp: word_eq_bits bit_and_iff bit_bm_mask)

lemma div64_less_iff: "i div 64 < n \<longleftrightarrow> i < 64 * (n::nat)"
  by (auto simp: less_mult_imp_div_less mult.commute)

lemma div_mod_64_eq: "i div 64 = j div 64 \<Longrightarrow> i mod 64 = j mod (64::nat) \<Longrightarrow> i = j"
  by (metis mult_div_mod_eq)

lemma bm_bits_bounded: "bm_bits bs \<subseteq> {..<64 * length bs}"
  by (auto simp: bm_bits_def div64_less_iff)

lemma finite_bm_bits [simp]: "finite (bm_bits bs)"
  by (rule finite_subset [OF bm_bits_bounded]) simp

lemma bm_bits_replicate_0 [simp]: "bm_bits (replicate n 0) = {}"
  by (auto simp: bm_bits_def)

lemma bm_bits_Nil [simp]: "bm_bits [] = {}"
  by (simp add: bm_bits_def)

lemma mem_bm_bits_Cons:
  "j \<in> bm_bits (w # ws) \<longleftrightarrow> (if j < 64 then bit w j else j - 64 \<in> bm_bits ws)"
proof (cases "j < 64")
  case True
  then show ?thesis by (simp add: bm_bits_def)
next
  case False
  then obtain k where j: "j = k + 64" by (metis add.commute le_iff_add not_less)
  have "(k + 64) div 64 = Suc (k div 64)" by simp
  then show ?thesis by (simp add: bm_bits_def j)
qed

lemma bm_test_eq: "i < 64 * length bs \<Longrightarrow> bm_test bs i = Some (i \<in> bm_bits bs)"
  by (simp add: bm_test_def bm_bits_def div64_less_iff and_bm_mask_neq_0)

lemma bm_test_None: "\<not> i < 64 * length bs \<Longrightarrow> bm_test bs i = None"
  by (simp add: bm_test_def idx_def div64_less_iff)

lemma bm_set_eq:
  "i < 64 * length bs \<Longrightarrow>
     \<exists>bs'. bm_set bs i = Some bs' \<and> length bs' = length bs \<and> bm_bits bs' = insert i (bm_bits bs)"
  by (auto simp: bm_set_def bm_bits_def div64_less_iff nth_list_update bit_or_iff bit_bm_mask
        dest: div_mod_64_eq split: if_splits)

lemma bm_clear_eq:
  "i < 64 * length bs \<Longrightarrow>
     \<exists>bs'. bm_clear bs i = Some bs' \<and> length bs' = length bs \<and> bm_bits bs' = bm_bits bs - {i}"
  by (auto simp: bm_clear_def bm_bits_def div64_less_iff nth_list_update bit_and_iff bit_not_iff
        bit_bm_mask possible_bit_word dest: div_mod_64_eq split: if_splits)

text \<open>\<open>u64::trailing_zeros\<close>.\<close>

definition trailing_zeros :: "u64 \<Rightarrow> nat" where
  "trailing_zeros w = (case position (bit w) [0..<64] of Some n \<Rightarrow> n | None \<Rightarrow> 64)"

lemma trailing_zeros_nonzero:
  assumes "w \<noteq> 0"
  shows "trailing_zeros w < 64 \<and> bit w (trailing_zeros w) \<and> (\<forall>j < trailing_zeros w. \<not> bit w j)"
proof -
  from assms obtain n where n: "bit w n" by (auto simp: word_eq_bits)
  then have "n < 64" using bit_imp_le_length [OF n] by simp
  with n obtain i where i: "position (bit w) [0..<64] = Some i"
    using position_exists [of n "[0..<64]" "bit w"] by auto
  from position_SomeD [OF i] show ?thesis by (auto simp: trailing_zeros_def i)
qed

section \<open>Sixty-four-bit arithmetic without overflow\<close>

lemma unat_mult_64: "unat a * unat b < 2 ^ 64 \<Longrightarrow> unat (a * b) = unat a * unat b" for a b :: u64
  by (simp add: unat_word_ariths)

lemma unat_add_64: "unat a + unat b < 2 ^ 64 \<Longrightarrow> unat (a + b) = unat a + unat b" for a b :: u64
  by (simp add: unat_word_ariths)

lemma unat_inc_64:
  assumes "x < (- 1 :: u64)"
  shows "unat (x + 1) = unat x + 1"
proof -
  have "unat x < 2 ^ 64 - 1"
    using assms by (simp add: word_less_nat_alt unsigned_minus_1_eq_mask mask_eq_exp_minus_1)
  then show ?thesis by (simp add: unat_word_ariths)
qed

lemma less_inc_64: "x < (- 1 :: u64) \<Longrightarrow> x < x + 1"
  by (simp add: word_less_nat_alt unat_inc_64)

section \<open>Loops over ranges\<close>

text \<open>A \<open>for\<close> loop whose body updates a state and may panic.\<close>

primrec mfold :: "('a \<Rightarrow> 's \<Rightarrow> 's option) \<Rightarrow> 'a list \<Rightarrow> 's \<Rightarrow> 's option" where
  "mfold f [] s = Some s"
| "mfold f (x # xs) s = do { s' \<leftarrow> f x s; mfold f xs s' }"

lemma mfold_append: "mfold f (xs @ ys) s = do { s' \<leftarrow> mfold f xs s; mfold f ys s' }"
  by (induction xs arbitrary: s) (auto simp: Option.bind_assoc)

lemma mfold_inv:
  assumes "P s" "\<And>x s. x \<in> set xs \<Longrightarrow> P s \<Longrightarrow> \<exists>s'. f x s = Some s' \<and> P s'"
  shows "\<exists>s'. mfold f xs s = Some s' \<and> P s'"
  using assms
proof (induction xs arbitrary: s)
  case Nil
  then show ?case by simp
next
  case (Cons x xs)
  from Cons.prems obtain s1 where "f x s = Some s1" "P s1"
    by (metis list.set_intros(1))
  moreover from this Cons have "\<exists>s'. mfold f xs s1 = Some s' \<and> P s'" by simp
  ultimately show ?case by simp
qed

text \<open>Sixty-four-bit addition and multiplication of sizes, which panic on overflow.\<close>

definition uadd :: "nat \<Rightarrow> nat \<Rightarrow> nat option" where
  [rust_simps]: "uadd a b = (if a + b < 2 ^ 64 then Some (a + b) else None)"

lemma uadd_in [simp]: "a + b < 2 ^ 64 \<Longrightarrow> uadd a b = Some (a + b)"
  by (simp add: uadd_def)

lemma uadd_Some_iff: "uadd a b = Some c \<longleftrightarrow> a + b < 2 ^ 64 \<and> c = a + b"
  by (auto simp: uadd_def)

end
