(* ===== verification/Mem_Types.thy ===== *)
theory Mem_Types
  imports Prelude
begin

text \<open>
  Addresses and errors of the memory subsystem (\<open>kernel/src/mem/mod.rs\<close>). An address is the
  \<open>usize\<close> inside \<open>PhysAddr\<close> or \<open>VirtAddr\<close>, a natural number below \<open>2 ^ 64\<close>; the rounding
  functions work bitwise on its 64-bit representation, as the source does, and the lemmas
  relate them to division.
\<close>

type_synonym phys_addr = nat

datatype mem_error = OutOfMemory | BadAlignment | InvalidAddress | DoubleFree | SizeTooLarge
  | OrderTooLarge | SlabExhausted | TensorPoolExhausted | MappingError | NotMapped | AlreadyMapped

definition align_down_usize :: "nat \<Rightarrow> nat \<Rightarrow> nat" where
  "align_down_usize addr align =
     unat ((word_of_nat addr :: u64) AND NOT (word_of_nat align - 1))"

definition align_up_usize :: "nat \<Rightarrow> nat \<Rightarrow> nat option" where
  "align_up_usize addr align = do {
     a \<leftarrow> uadd addr align;
     b \<leftarrow> usub a 1;
     Some (align_down_usize b align) }"

definition is_aligned_usize :: "nat \<Rightarrow> nat \<Rightarrow> bool" where
  "is_aligned_usize addr align \<longleftrightarrow> addr AND (align - 1) = 0"

definition PAGE_SIZE_4K :: nat where
  "PAGE_SIZE_4K = 4096"

lemma and_not_mask_word: "w AND NOT (mask k) = push_bit k (drop_bit k w)" for w :: "'a::len word"
  by (rule bit_word_eqI) (auto simp: bit_simps)

lemma align_down_usize_eq:
  assumes "a < 2 ^ 64" "k < 64"
  shows "align_down_usize a (2 ^ k) = a - a mod 2 ^ k"
proof -
  let ?w = "word_of_nat a :: u64"
  have w: "unat ?w = a" using assms(1) by (simp add: unat_of_nat)
  have "word_of_nat (2 ^ k) - 1 = (mask k :: u64)"
    by (simp add: mask_eq_exp_minus_1)
  then have "align_down_usize a (2 ^ k) = unat (push_bit k (drop_bit k ?w))"
    by (simp add: align_down_usize_def and_not_mask_word)
  also have "\<dots> = take_bit 64 (a div 2 ^ k * 2 ^ k)"
    by (simp only: unsigned_push_bit_eq unsigned_drop_bit_eq w)
      (use assms(1) in \<open>simp add: push_bit_eq_mult drop_bit_eq_div take_bit_eq_mod\<close>)
  also have "\<dots> = a div 2 ^ k * 2 ^ k"
    using assms(1) by (simp add: take_bit_eq_mod order.strict_trans1 [OF div_times_less_eq_dividend])
  finally show ?thesis by (simp add: minus_mod_eq_div_mult)
qed

lemma is_aligned_usize_eq: "is_aligned_usize a (2 ^ k) \<longleftrightarrow> 2 ^ k dvd a"
  by (metis dvd_eq_mod_eq_0 is_aligned_usize_def mask_eq_exp_minus_1 take_bit_eq_mask take_bit_eq_mod)

text \<open>
  Additions and subtractions of \<open>w\<close>-bit integers as the build profile compiles them: with overflow
  checks they panic outside the range, without them (the release profile of the workspace) they
  wrap. The theories where the difference matters take the profile as the argument \<open>checks\<close>.
\<close>

definition prof_add :: "nat \<Rightarrow> bool \<Rightarrow> nat \<Rightarrow> nat \<Rightarrow> nat option" where
  "prof_add w checks a b =
     (if a + b < 2 ^ w then Some (a + b) else if checks then None else Some ((a + b) mod 2 ^ w))"

definition prof_sub :: "nat \<Rightarrow> bool \<Rightarrow> nat \<Rightarrow> nat \<Rightarrow> nat option" where
  "prof_sub w checks a b =
     (if b \<le> a then Some (a - b) else if checks then None else Some (a + 2 ^ w - b))"

abbreviation usize_add :: "bool \<Rightarrow> nat \<Rightarrow> nat \<Rightarrow> nat option" where
  "usize_add \<equiv> prof_add 64"

abbreviation usize_sub :: "bool \<Rightarrow> nat \<Rightarrow> nat \<Rightarrow> nat option" where
  "usize_sub \<equiv> prof_sub 64"

lemma prof_add_in [simp]: "a + b < 2 ^ w \<Longrightarrow> prof_add w checks a b = Some (a + b)"
  by (simp add: prof_add_def)

lemma prof_sub_in [simp]: "b \<le> a \<Longrightarrow> prof_sub w checks a b = Some (a - b)"
  by (simp add: prof_sub_def)

text \<open>
  Powers of two: \<open>usize::leading_zeros\<close> through the number of significant bits,
  \<open>is_power_of_two\<close> and \<open>next_power_of_two\<close>.
\<close>

fun bit_length :: "nat \<Rightarrow> nat" where
  "bit_length n = (if n = 0 then 0 else Suc (bit_length (n div 2)))"

declare bit_length.simps [simp del]

definition leading_zeros :: "nat \<Rightarrow> nat" where
  "leading_zeros n = 64 - bit_length n"

definition is_power_of_two :: "nat \<Rightarrow> bool" where
  "is_power_of_two n \<longleftrightarrow> n \<noteq> 0 \<and> n = 2 ^ (bit_length n - 1)"

definition next_power_of_two :: "nat \<Rightarrow> nat" where
  "next_power_of_two n = (if n \<le> 1 then 1 else 2 ^ bit_length (n - 1))"

lemma bit_length_le_iff: "bit_length n \<le> k \<longleftrightarrow> n < 2 ^ k"
proof (induction n arbitrary: k rule: bit_length.induct)
  case (1 n)
  show ?case
  proof (cases "n = 0")
    case True
    then show ?thesis by (simp add: bit_length.simps)
  next
    case False
    with 1 [of "k - 1"] show ?thesis by (cases k) (auto simp: bit_length.simps [of n])
  qed
qed

lemma bit_length_bounds: "n < 2 ^ bit_length n" "0 < n \<Longrightarrow> 2 ^ (bit_length n - 1) \<le> n"
proof -
  show "n < 2 ^ bit_length n" using bit_length_le_iff by blast
  show "2 ^ (bit_length n - 1) \<le> n" if "0 < n"
  proof -
    have "0 < bit_length n" using that by (simp add: bit_length.simps [of n])
    then have "\<not> bit_length n \<le> bit_length n - 1" by linarith
    then show ?thesis unfolding bit_length_le_iff by (simp add: not_less)
  qed
qed

lemma bit_length_pow [simp]: "bit_length (2 ^ k) = Suc k"
  by (rule antisym) (simp add: bit_length_le_iff, simp add: not_less_eq_eq [symmetric] bit_length_le_iff)

lemma is_power_of_two_iff: "is_power_of_two n \<longleftrightarrow> (\<exists>k. n = 2 ^ k)"
  by (auto simp: is_power_of_two_def)

end
