(* ===== verification/Bytes.thy ===== *)
theory Bytes
  imports Prelude
begin

text \<open>
  Byte strings: slices and slice copies, the fixed-width little-endian and big-endian encodings of
  machine integers (\<open>to_le_bytes\<close>, \<open>from_be_bytes\<close> and their siblings of the Rust core library)
  with their two round trips, and the UTF-8 validation that \<open>core::str::from_utf8\<close> makes.
\<close>

section \<open>Slices\<close>

text \<open>\<open>xs[i..j]\<close>, which panics when the range is not inside the slice.\<close>

definition slice :: "'a list \<Rightarrow> nat \<Rightarrow> nat \<Rightarrow> 'a list option" where
  "slice xs i j = (if i \<le> j \<and> j \<le> length xs then Some (take (j - i) (drop i xs)) else None)"

text \<open>\<open>xs[i..i + ys.len()].copy_from_slice(ys)\<close>.\<close>

definition blit :: "'a list \<Rightarrow> nat \<Rightarrow> 'a list \<Rightarrow> 'a list option" where
  "blit xs i ys = (if i + length ys \<le> length xs then Some (take i xs @ ys @ drop (i + length ys) xs) else None)"

lemma blit_in: "i + length ys \<le> length xs \<Longrightarrow> blit xs i ys = Some (take i xs @ ys @ drop (i + length ys) xs)"
  by (simp add: blit_def)

lemma slice_in: "i \<le> j \<Longrightarrow> j \<le> length xs \<Longrightarrow> slice xs i j = Some (take (j - i) (drop i xs))"
  by (simp add: slice_def)

text \<open>Cutting a list of known length into fields.\<close>

lemma split_field:
  assumes "length xs = n + m"
  obtains ys zs where "xs = ys @ zs" "length ys = n" "length zs = m"
proof
  show "xs = take n xs @ drop n xs" by simp
qed (use assms in simp_all)

lemma split_byte:
  assumes "length xs = Suc m"
  obtains y zs where "xs = y # zs" "length zs = m"
  using assms by (cases xs) auto

section \<open>Integers as bytes\<close>

fun from_le_bytes :: "u8 list \<Rightarrow> 'a::len word" where
  "from_le_bytes [] = 0"
| "from_le_bytes (b # bs) = ucast b OR push_bit 8 (from_le_bytes bs)"

definition to_le_bytes :: "nat \<Rightarrow> 'a::len word \<Rightarrow> u8 list" where
  "to_le_bytes n w = map (\<lambda>i. ucast (drop_bit (8 * i) w)) [0..<n]"

definition from_be_bytes :: "u8 list \<Rightarrow> 'a::len word" where
  "from_be_bytes bs = from_le_bytes (rev bs)"

definition to_be_bytes :: "nat \<Rightarrow> 'a::len word \<Rightarrow> u8 list" where
  "to_be_bytes n w = rev (to_le_bytes n w)"

lemma length_to_le_bytes [simp]: "length (to_le_bytes n w) = n"
  by (simp add: to_le_bytes_def)

lemma length_to_be_bytes [simp]: "length (to_be_bytes n w) = n"
  by (simp add: to_be_bytes_def)

lemma nth_to_le_bytes: "i < n \<Longrightarrow> to_le_bytes n w ! i = ucast (drop_bit (8 * i) w)"
  by (simp add: to_le_bytes_def)

lemma bit_from_le_bytes:
  "8 * length bs \<le> LENGTH('a) \<Longrightarrow>
     bit (from_le_bytes bs :: 'a::len word) k \<longleftrightarrow> k < 8 * length bs \<and> bit (bs ! (k div 8)) (k mod 8)"
proof (induction bs arbitrary: k)
  case Nil
  then show ?case by simp
next
  case (Cons b bs)
  have b: "bit b j \<Longrightarrow> j < 8" for j using bit_imp_le_length [of b j] by simp
  show ?case
  proof (cases "k < 8")
    case True
    then show ?thesis using Cons.prems by (auto simp: bit_simps possible_bit_word)
  next
    case False
    then obtain j where k: "k = j + 8" by (metis add.commute le_iff_add not_less)
    have nb: "\<not> bit b (j + 8)" using b [of "j + 8"] by auto
    have "bit (from_le_bytes (b # bs) :: 'a word) k \<longleftrightarrow> k < LENGTH('a) \<and> bit (from_le_bytes bs :: 'a word) j"
      by (simp add: bit_or_iff bit_push_bit_iff bit_unsigned_iff possible_bit_word k nb)
    moreover have "(j + 8) div 8 = Suc (j div 8)" "(j + 8) mod 8 = j mod 8" by simp_all
    moreover have "8 * length bs \<le> LENGTH('a)" using Cons.prems by simp
    ultimately show ?thesis using Cons.IH [of j] Cons.prems k by auto
  qed
qed

lemma from_to_le_bytes [simp]:
  assumes "LENGTH('a) = 8 * n"
  shows "from_le_bytes (to_le_bytes n w) = (w :: 'a::len word)"
proof (rule bit_word_eqI)
  fix k assume k: "k < LENGTH('a)"
  then have "k div 8 < n" using assms by linarith
  then show "bit (from_le_bytes (to_le_bytes n w) :: 'a word) k = bit w k"
    using assms k by (simp add: bit_from_le_bytes nth_to_le_bytes bit_simps possible_bit_word)
qed

lemma to_from_le_bytes [simp]:
  assumes "LENGTH('a) = 8 * n" "length bs = n"
  shows "to_le_bytes n (from_le_bytes bs :: 'a::len word) = bs"
proof (rule nth_equalityI)
  show "length (to_le_bytes n (from_le_bytes bs :: 'a word)) = length bs" using assms by simp
  fix i assume i: "i < length (to_le_bytes n (from_le_bytes bs :: 'a word))"
  show "to_le_bytes n (from_le_bytes bs :: 'a word) ! i = bs ! i"
  proof (rule bit_word_eqI)
    fix k assume k: "k < LENGTH(8)"
    then have "(8 * i + k) div 8 = i" "(8 * i + k) mod 8 = k" by simp_all
    then show "bit (to_le_bytes n (from_le_bytes bs :: 'a word) ! i) k = bit (bs ! i) k"
      using i k assms by (auto simp: nth_to_le_bytes bit_simps bit_from_le_bytes possible_bit_word)
  qed
qed

lemma from_to_be_bytes [simp]:
  "LENGTH('a) = 8 * n \<Longrightarrow> from_be_bytes (to_be_bytes n w) = (w :: 'a::len word)"
  by (simp add: from_be_bytes_def to_be_bytes_def)

lemma to_from_be_bytes [simp]:
  "LENGTH('a) = 8 * n \<Longrightarrow> length bs = n \<Longrightarrow> to_be_bytes n (from_be_bytes bs :: 'a::len word) = bs"
  by (simp add: from_be_bytes_def to_be_bytes_def)

lemma to_be_bytes_inject [simp]:
  fixes v w :: "'a::len word"
  assumes "LENGTH('a) = 8 * n"
  shows "to_be_bytes n v = to_be_bytes n w \<longleftrightarrow> v = w"
  by (metis assms from_to_be_bytes)

section \<open>UTF-8\<close>

text \<open>
  The well-formed byte sequences that \<open>core::str::from_utf8\<close> accepts: no overlong forms, no
  surrogates, nothing above U+10FFFF.
\<close>

definition cont :: "u8 \<Rightarrow> bool" where
  "cont b \<longleftrightarrow> 0x80 \<le> b \<and> b \<le> 0xBF"

definition utf8_second3 :: "u8 \<Rightarrow> u8 \<Rightarrow> bool" where
  "utf8_second3 b c \<longleftrightarrow>
     (b = 0xE0 \<and> 0xA0 \<le> c \<and> c \<le> 0xBF) \<or> (0xE1 \<le> b \<and> b \<le> 0xEC \<and> cont c) \<or>
     (b = 0xED \<and> 0x80 \<le> c \<and> c \<le> 0x9F) \<or> (0xEE \<le> b \<and> b \<le> 0xEF \<and> cont c)"

definition utf8_second4 :: "u8 \<Rightarrow> u8 \<Rightarrow> bool" where
  "utf8_second4 b c \<longleftrightarrow>
     (b = 0xF0 \<and> 0x90 \<le> c \<and> c \<le> 0xBF) \<or> (0xF1 \<le> b \<and> b \<le> 0xF3 \<and> cont c) \<or>
     (b = 0xF4 \<and> 0x80 \<le> c \<and> c \<le> 0x8F)"

fun utf8_valid :: "u8 list \<Rightarrow> bool" where
  "utf8_valid [] = True"
| "utf8_valid (b # bs) =
     (if b < 0x80 then utf8_valid bs
      else if 0xC2 \<le> b \<and> b \<le> 0xDF then
        (case bs of c # cs \<Rightarrow> cont c \<and> utf8_valid cs | _ \<Rightarrow> False)
      else if 0xE0 \<le> b \<and> b \<le> 0xEF then
        (case bs of c # d # cs \<Rightarrow> utf8_second3 b c \<and> cont d \<and> utf8_valid cs | _ \<Rightarrow> False)
      else if 0xF0 \<le> b \<and> b \<le> 0xF4 then
        (case bs of c # d # e # cs \<Rightarrow> utf8_second4 b c \<and> cont d \<and> cont e \<and> utf8_valid cs | _ \<Rightarrow> False)
      else False)"

text \<open>String literals as bytes; the literals of the sources are ASCII.\<close>

definition ascii :: "string \<Rightarrow> u8 list" where
  "ascii s = map of_char s"

end
