(* ===== verification/Phys_Map.thy ===== *)
theory Phys_Map
  imports Mem_Types Bytes
begin

text \<open>
  The physical memory map (\<open>kernel/src/mem/phys.rs\<close>): the table of regions, the exclusion of a range
  from the usable ones, and the two boot-time parsers, for Multiboot2 information and for device
  trees. The parsers work on raw memory; here it is a byte list, a read outside it having no
  result (\<open>None\<close>), and offsets are relative to its start.
\<close>

section \<open>The map\<close>

definition MAX_REGIONS :: nat where
  "MAX_REGIONS = 64"

datatype region_kind = Usable | Reserved | AcpiReclaimable | Kernel

record mem_region =
  mr_base :: phys_addr
  mr_size :: nat
  mr_kind :: region_kind

record phys_memory_map =
  pm_regions :: "mem_region list"
  pm_count :: nat

definition phys_map_new :: phys_memory_map where
  "phys_map_new = \<lparr>pm_regions = replicate MAX_REGIONS \<lparr>mr_base = 0, mr_size = 0, mr_kind = Reserved\<rparr>, pm_count = 0\<rparr>"

definition add_region :: "phys_memory_map \<Rightarrow> phys_addr \<Rightarrow> nat \<Rightarrow> region_kind \<Rightarrow> bool \<times> phys_memory_map" where
  "add_region m base sz kind =
     (if pm_count m \<ge> MAX_REGIONS then (False, m)
      else (True, m\<lparr>pm_regions := (pm_regions m)[pm_count m := \<lparr>mr_base = base, mr_size = sz, mr_kind = kind\<rparr>],
        pm_count := pm_count m + 1\<rparr>))"

definition region_get :: "phys_memory_map \<Rightarrow> nat \<Rightarrow> mem_region option" where
  "region_get m i = (if i < pm_count m then Some (pm_regions m ! i) else None)"

definition region_iter :: "phys_memory_map \<Rightarrow> mem_region list" where
  "region_iter m = take (pm_count m) (pm_regions m)"

definition usable_regions :: "phys_memory_map \<Rightarrow> mem_region list" where
  "usable_regions m = filter (\<lambda>r. mr_kind r = Usable) (region_iter m)"

definition total_usable :: "phys_memory_map \<Rightarrow> nat option" where
  "total_usable m = mfold uadd (map mr_size (usable_regions m)) 0"

definition set_region :: "phys_memory_map \<Rightarrow> nat \<Rightarrow> mem_region \<Rightarrow> phys_memory_map" where
  "set_region m i r = m\<lparr>pm_regions := (pm_regions m)[i := r]\<rparr>"

text \<open>One turn of the loop of \<open>exclude_range\<close> for the range from \<open>eb\<close> to \<open>ee\<close>.\<close>

definition exclude_step :: "phys_memory_map \<Rightarrow> nat \<Rightarrow> nat \<Rightarrow> nat \<Rightarrow> phys_memory_map option" where
  "exclude_step m eb ee i = do {
     r \<leftarrow> idx (pm_regions m) i;
     if mr_kind r \<noteq> Usable then Some m
     else do {
       r_end \<leftarrow> uadd (mr_base r) (mr_size r);
       if ee \<le> mr_base r \<or> eb \<ge> r_end then Some m
       else if eb \<le> mr_base r \<and> ee \<ge> r_end then Some (set_region m i (r\<lparr>mr_kind := Kernel\<rparr>))
       else if eb > mr_base r \<and> ee < r_end then
         Some (snd (add_region (set_region m i (r\<lparr>mr_size := eb - mr_base r\<rparr>)) ee (r_end - ee) Usable))
       else if eb \<le> mr_base r then Some (set_region m i (r\<lparr>mr_base := ee, mr_size := r_end - ee\<rparr>))
       else Some (set_region m i (r\<lparr>mr_size := eb - mr_base r\<rparr>)) } }"

lemma exclude_step_count:
  "exclude_step m eb ee i = Some m' \<Longrightarrow> pm_count m \<le> pm_count m' \<and> max 64 (pm_count m') = max 64 (pm_count m)"
  by (auto simp: exclude_step_def add_region_def set_region_def MAX_REGIONS_def idx_def
      split: if_splits Option.bind_splits)

function exclude_loop :: "phys_memory_map \<Rightarrow> nat \<Rightarrow> nat \<Rightarrow> nat \<Rightarrow> phys_memory_map option" where
  "exclude_loop m eb ee i =
     (if i < pm_count m then do { m' \<leftarrow> exclude_step m eb ee i; exclude_loop m' eb ee (i + 1) } else Some m)"
  by pat_completeness auto
termination
proof (relation "measure (\<lambda>(m, eb, ee, i). max 64 (pm_count m) - i)")
  fix m eb ee i m'
  assume "i < pm_count m" "exclude_step m eb ee i = Some m'"
  then show "((m', eb, ee, i + 1), m, eb, ee, i) \<in> measure (\<lambda>(m, eb, ee, i). max 64 (pm_count m) - i)"
    using exclude_step_count [of m eb ee i m'] by auto
qed simp

declare exclude_loop.simps [simp del]

definition exclude_range :: "phys_memory_map \<Rightarrow> phys_addr \<Rightarrow> nat \<Rightarrow> phys_memory_map option" where
  "exclude_range m excl_base excl_size = do {
     excl_end \<leftarrow> uadd excl_base excl_size;
     exclude_loop m excl_base excl_end 0 }"

section \<open>Multiboot2\<close>

definition MB2_TAG_END :: u32 where
  "MB2_TAG_END = 0"

definition MB2_TAG_MEMORY_MAP :: u32 where
  "MB2_TAG_MEMORY_MAP = 6"

definition MB2_MEM_AVAILABLE :: u32 where
  "MB2_MEM_AVAILABLE = 1"

definition MB2_MEM_ACPI_RECLAIMABLE :: u32 where
  "MB2_MEM_ACPI_RECLAIMABLE = 3"

text \<open>\<open>read_unaligned\<close> on the little-endian target.\<close>

definition read_u32 :: "u8 list \<Rightarrow> nat \<Rightarrow> u32 option" where
  "read_u32 mem a = map_option from_le_bytes (slice mem a (a + 4))"

definition read_u64 :: "u8 list \<Rightarrow> nat \<Rightarrow> u64 option" where
  "read_u64 mem a = map_option from_le_bytes (slice mem a (a + 8))"

definition mb2_kind :: "u32 \<Rightarrow> region_kind" where
  "mb2_kind t = (if t = MB2_MEM_AVAILABLE then Usable
     else if t = MB2_MEM_ACPI_RECLAIMABLE then AcpiReclaimable else Reserved)"

function mb2_entries :: "u8 list \<Rightarrow> nat \<Rightarrow> nat \<Rightarrow> nat \<Rightarrow> phys_memory_map \<Rightarrow> phys_memory_map option" where
  "mb2_entries mem entry_addr entry_size entries_end m =
     (if entry_size > 0 \<and> entry_addr + entry_size \<le> entries_end then do {
        base \<leftarrow> read_u64 mem entry_addr;
        len \<leftarrow> read_u64 mem (entry_addr + 8);
        mem_type \<leftarrow> read_u32 mem (entry_addr + 16);
        mb2_entries mem (entry_addr + entry_size) entry_size entries_end
          (if unat len > 0 then snd (add_region m (unat base) (unat len) (mb2_kind mem_type)) else m) }
      else Some m)"
  by pat_completeness auto
termination by (relation "measure (\<lambda>(mem, a, s, e, m). e - a)") auto

declare mb2_entries.simps [simp del]

definition parse_mb2_mmap_tag :: "u8 list \<Rightarrow> nat \<Rightarrow> nat \<Rightarrow> phys_memory_map \<Rightarrow> phys_memory_map option" where
  "parse_mb2_mmap_tag mem tag_addr tag_size m = do {
     entry_size \<leftarrow> read_u32 mem (tag_addr + 8);
     if entry_size = 0 then Some m
     else mb2_entries mem (tag_addr + 16) (unat entry_size) (tag_addr + tag_size) m }"

definition align8 :: "nat \<Rightarrow> nat" where
  "align8 n = (n + 7) div 8 * 8"

text \<open>The loop over the tags ends only if the tag sizes let it: it runs on fuel.\<close>

fun mb2_loop :: "nat \<Rightarrow> u8 list \<Rightarrow> nat \<Rightarrow> nat \<Rightarrow> phys_memory_map \<Rightarrow> phys_memory_map option" where
  "mb2_loop 0 mem tot offset m = None"
| "mb2_loop (Suc fuel) mem tot offset m =
     (if offset < tot then do {
        tag_type \<leftarrow> read_u32 mem offset;
        tag_size \<leftarrow> read_u32 mem (offset + 4);
        if tag_type = MB2_TAG_END then Some m
        else do {
          m' \<leftarrow> (if tag_type = MB2_TAG_MEMORY_MAP then parse_mb2_mmap_tag mem offset (unat tag_size) m else Some m);
          mb2_loop fuel mem tot (offset + align8 (unat tag_size)) m' } }
      else Some m)"

definition parse_multiboot2 :: "u8 list \<Rightarrow> phys_memory_map \<Rightarrow> phys_memory_map option" where
  "parse_multiboot2 mem m = do {
     total_size \<leftarrow> read_u32 mem 0;
     mb2_loop (Suc (unat total_size)) mem (unat total_size) 8 m }"

section \<open>Device trees\<close>

definition FDT_MAGIC :: u32 where
  "FDT_MAGIC = 0xD00DFEED"

definition FDT_BEGIN_NODE :: u32 where
  "FDT_BEGIN_NODE = 1"

definition FDT_END_NODE :: u32 where
  "FDT_END_NODE = 2"

definition FDT_PROP :: u32 where
  "FDT_PROP = 3"

definition FDT_NOP :: u32 where
  "FDT_NOP = 4"

definition read_be32 :: "u8 list \<Rightarrow> nat \<Rightarrow> u32 option" where
  "read_be32 mem a = map_option from_be_bytes (slice mem a (a + 4))"

definition read_be64 :: "u8 list \<Rightarrow> nat \<Rightarrow> u64 option" where
  "read_be64 mem a = map_option from_be_bytes (slice mem a (a + 8))"

fun cstr_eq :: "u8 list \<Rightarrow> nat \<Rightarrow> u8 list \<Rightarrow> bool option" where
  "cstr_eq mem a [] = map_option (\<lambda>b. b = 0) (idx mem a)"
| "cstr_eq mem a (c # cs) = do { b \<leftarrow> idx mem a; if b \<noteq> c then Some False else cstr_eq mem (Suc a) cs }"

definition cstr_len :: "u8 list \<Rightarrow> nat \<Rightarrow> nat option" where
  "cstr_len mem a = position (\<lambda>b. b = 0) (drop a mem)"

record dtb_parse_state =
  ds_in_memory_node :: bool
  ds_depth :: nat
  ds_memory_depth :: nat
  ds_address_cells :: u32
  ds_size_cells :: u32

definition dtb_state_new :: dtb_parse_state where
  "dtb_state_new = \<lparr>ds_in_memory_node = False, ds_depth = 0, ds_memory_depth = 0, ds_address_cells = 2, ds_size_cells = 2\<rparr>"

definition is_memory_node :: "u8 list \<Rightarrow> nat \<Rightarrow> nat \<Rightarrow> bool option" where
  "is_memory_node mem name_ptr name_len =
     (if name_len = 6 then cstr_eq mem name_ptr (ascii ''memory'')
      else if name_len > 7 then do {
        prefix \<leftarrow> slice mem name_ptr (name_ptr + 6);
        c \<leftarrow> idx mem (name_ptr + 6);
        Some (prefix = ascii ''memory'' \<and> c = 0x40) }
      else Some False)"

definition align4 :: "nat \<Rightarrow> nat" where
  "align4 n = (n + 3) div 4 * 4"

definition handle_begin_node :: "u8 list \<Rightarrow> nat \<Rightarrow> nat \<Rightarrow> dtb_parse_state \<Rightarrow> (nat \<times> dtb_parse_state) option" where
  "handle_begin_node mem struct_base pos st = do {
     name_len \<leftarrow> cstr_len mem (struct_base + pos);
     is_mem \<leftarrow> (if ds_depth st = 1 \<and> name_len \<ge> 6 then is_memory_node mem (struct_base + pos) name_len else Some False);
     let st1 = (if is_mem then st\<lparr>ds_in_memory_node := True, ds_memory_depth := ds_depth st + 1\<rparr> else st);
     Some (pos + align4 (name_len + 1), st1\<lparr>ds_depth := ds_depth st1 + 1\<rparr>) }"

definition handle_end_node :: "dtb_parse_state \<Rightarrow> dtb_parse_state" where
  "handle_end_node st =
     (let st1 = (if ds_in_memory_node st \<and> ds_depth st = ds_memory_depth st then st\<lparr>ds_in_memory_node := False\<rparr> else st) in
      st1\<lparr>ds_depth := ds_depth st1 - 1\<rparr>)"

text \<open>The widths are 32-bit products; an entry takes its bytes from \<open>read\<close> of one or two cells.\<close>

definition read_cells :: "u32 \<Rightarrow> u8 list \<Rightarrow> nat \<Rightarrow> nat option" where
  "read_cells cells mem a = (if cells = 2 then map_option unat (read_be64 mem a) else map_option unat (read_be32 mem a))"

function reg_entries :: "u8 list \<Rightarrow> nat \<Rightarrow> nat \<Rightarrow> u32 \<Rightarrow> u32 \<Rightarrow> nat \<Rightarrow> phys_memory_map \<Rightarrow> phys_memory_map option" where
  "reg_entries mem data len ac sc off m =
     (let entry_size = unat ((ac + sc) * 4) in
      if entry_size > 0 \<and> off + entry_size \<le> len then do {
        base_addr \<leftarrow> read_cells ac mem (data + off);
        region_size \<leftarrow> read_cells sc mem (data + off + unat (ac * 4));
        reg_entries mem data len ac sc (off + entry_size)
          (if region_size > 0 then snd (add_region m base_addr region_size Usable) else m) }
      else Some m)"
  by pat_completeness auto
termination by (relation "measure (\<lambda>(mem, data, len, ac, sc, off, m). len - off)") auto

declare reg_entries.simps [simp del]

definition parse_reg_property :: "u8 list \<Rightarrow> nat \<Rightarrow> nat \<Rightarrow> u32 \<Rightarrow> u32 \<Rightarrow> phys_memory_map \<Rightarrow> phys_memory_map option" where
  "parse_reg_property mem data len ac sc m = reg_entries mem data len ac sc 0 m"

definition handle_prop ::
  "u8 list \<Rightarrow> nat \<Rightarrow> nat \<Rightarrow> nat \<Rightarrow> dtb_parse_state \<Rightarrow> phys_memory_map \<Rightarrow> (nat \<times> dtb_parse_state \<times> phys_memory_map) option" where
  "handle_prop mem struct_base strings_base pos st m = do {
     prop_len \<leftarrow> map_option unat (read_be32 mem (struct_base + pos));
     name_off \<leftarrow> map_option unat (read_be32 mem (struct_base + pos + 4));
     let pos1 = pos + 8;
     let prop_name = strings_base + name_off;
     let prop_data = struct_base + pos1;
     st1 \<leftarrow> (if ds_depth st = 1 \<and> prop_len = 4 then do {
         is_ac \<leftarrow> cstr_eq mem prop_name (ascii ''#address-cells'');
         if is_ac then do { v \<leftarrow> read_be32 mem prop_data; Some (st\<lparr>ds_address_cells := v\<rparr>) }
         else do {
           is_sc \<leftarrow> cstr_eq mem prop_name (ascii ''#size-cells'');
           if is_sc then do { v \<leftarrow> read_be32 mem prop_data; Some (st\<lparr>ds_size_cells := v\<rparr>) } else Some st } }
       else Some st);
     is_reg \<leftarrow> (if ds_in_memory_node st1 then cstr_eq mem prop_name (ascii ''reg'') else Some False);
     m1 \<leftarrow> (if is_reg then parse_reg_property mem prop_data prop_len (ds_address_cells st1) (ds_size_cells st1) m else Some m);
     Some (pos1 + align4 prop_len, st1, m1) }"

lemma handle_begin_node_pos: "handle_begin_node mem sb pos st = Some (pos', st') \<Longrightarrow> pos \<le> pos'"
  by (auto simp: handle_begin_node_def Let_def split: Option.bind_splits)

lemma handle_prop_pos: "handle_prop mem sb strb pos st m = Some (pos', st', m') \<Longrightarrow> pos \<le> pos'"
  by (auto simp: handle_prop_def Let_def split: Option.bind_splits)

function dtb_loop :: "u8 list \<Rightarrow> nat \<Rightarrow> nat \<Rightarrow> nat \<Rightarrow> nat \<Rightarrow> dtb_parse_state \<Rightarrow> phys_memory_map \<Rightarrow> phys_memory_map option" where
  "dtb_loop mem sb strb struct_end pos st m =
     (if pos < struct_end then do {
        token \<leftarrow> read_be32 mem (sb + pos);
        (if token = FDT_BEGIN_NODE then do {
           (pos', st') \<leftarrow> handle_begin_node mem sb (pos + 4) st;
           dtb_loop mem sb strb struct_end pos' st' m }
         else if token = FDT_END_NODE then dtb_loop mem sb strb struct_end (pos + 4) (handle_end_node st) m
         else if token = FDT_PROP then do {
           (pos', st', m') \<leftarrow> handle_prop mem sb strb (pos + 4) st m;
           dtb_loop mem sb strb struct_end pos' st' m' }
         else if token = FDT_NOP then dtb_loop mem sb strb struct_end (pos + 4) st m
         else Some m) }
      else Some m)"
  by pat_completeness auto
termination
  by (relation "measure (\<lambda>(mem, sb, strb, e, pos, st, m). e - pos)")
    (auto dest!: handle_begin_node_pos handle_prop_pos)

declare dtb_loop.simps [simp del]

definition parse_dtb :: "u8 list \<Rightarrow> phys_memory_map \<Rightarrow> phys_memory_map option" where
  "parse_dtb mem m = do {
     magic \<leftarrow> read_be32 mem 0;
     if magic \<noteq> FDT_MAGIC then Some m
     else do {
       total_size \<leftarrow> map_option unat (read_be32 mem 4);
       off_dt_struct \<leftarrow> map_option unat (read_be32 mem 8);
       off_dt_strings \<leftarrow> map_option unat (read_be32 mem 12);
       _ \<leftarrow> read_be32 mem 20;
       struct_end \<leftarrow> usub total_size off_dt_struct;
       dtb_loop mem off_dt_struct off_dt_strings struct_end 0 dtb_state_new m } }"

section \<open>Excluding a range\<close>

definition region_set :: "mem_region \<Rightarrow> nat set" where
  "region_set r = (if mr_kind r = Usable then {mr_base r..<mr_base r + mr_size r} else {})"

definition usable_between :: "phys_memory_map \<Rightarrow> nat \<Rightarrow> nat \<Rightarrow> nat set" where
  "usable_between m i j = (\<Union>k \<in> {i..<j}. region_set (pm_regions m ! k))"

definition usable :: "phys_memory_map \<Rightarrow> nat set" where
  "usable m = usable_between m 0 (pm_count m)"

definition map_wf :: "phys_memory_map \<Rightarrow> bool" where
  [inv_defs]: "map_wf m \<longleftrightarrow> length (pm_regions m) = MAX_REGIONS \<and> pm_count m \<le> MAX_REGIONS \<and>
     (\<forall>r \<in> set (region_iter m). mr_base r + mr_size r < 2 ^ 64)"

lemma map_wf_region:
  assumes "map_wf m" "i < pm_count m"
  shows "i < length (pm_regions m)" "mr_base (pm_regions m ! i) + mr_size (pm_regions m ! i) < 2 ^ 64"
proof -
  show l: "i < length (pm_regions m)" using assms by (simp add: map_wf_def)
  have "pm_regions m ! i \<in> set (region_iter m)"
    using assms l by (auto simp: region_iter_def in_set_conv_nth intro!: exI [of _ i])
  then show "mr_base (pm_regions m ! i) + mr_size (pm_regions m ! i) < 2 ^ 64" using assms by (simp add: map_wf_def)
qed

lemma map_wf_set:
  assumes "map_wf m" "mr_base r + mr_size r < 2 ^ 64"
  shows "map_wf (set_region m i r)"
  using assms set_update_subset_insert [of "take (pm_count m) (pm_regions m)" i r]
  by (auto simp: map_wf_def set_region_def region_iter_def take_update_swap)

lemma map_wf_add:
  assumes "map_wf m" "base + sz < 2 ^ 64"
  shows "map_wf (snd (add_region m base sz kind))"
  using assms by (auto simp: map_wf_def add_region_def region_iter_def take_Suc_conv_app_nth)

lemma exclude_step_spec:
  assumes wf: "map_wf m" and i: "i < pm_count m" and e: "eb \<le> ee" "ee < 2 ^ 64"
  shows "\<exists>m'. exclude_step m eb ee i = Some m' \<and> map_wf m' \<and>
    (\<forall>j < pm_count m. j \<noteq> i \<longrightarrow> pm_regions m' ! j = pm_regions m ! j) \<and>
    (pm_count m' = pm_count m \<and> region_set (pm_regions m' ! i) \<subseteq> region_set (pm_regions m ! i) - {eb..<ee} \<and>
       (pm_count m < MAX_REGIONS \<longrightarrow> region_set (pm_regions m' ! i) = region_set (pm_regions m ! i) - {eb..<ee}) \<or>
     pm_count m' = Suc (pm_count m) \<and>
       region_set (pm_regions m' ! i) \<union> region_set (pm_regions m' ! pm_count m) = region_set (pm_regions m ! i) - {eb..<ee})"
proof -
  let ?r = "pm_regions m ! i"
  note r = map_wf_region [OF wf i]
  have len: "length (pm_regions m) = MAX_REGIONS" "pm_count m \<le> MAX_REGIONS" using wf by (auto simp: map_wf_def)
  show ?thesis
  proof (cases "mr_kind ?r = Usable \<and> mr_base ?r < eb \<and> ee < mr_base ?r + mr_size ?r")
    case True
    let ?m1 = "set_region m i (?r\<lparr>mr_size := eb - mr_base ?r\<rparr>)"
    let ?m2 = "snd (add_region ?m1 ee (mr_base ?r + mr_size ?r - ee) Usable)"
    have step: "exclude_step m eb ee i = Some ?m2" using True r e by (auto simp: exclude_step_def)
    have wf2: "map_wf ?m2" using True r e wf by (intro map_wf_add map_wf_set) auto
    have sets: "{mr_base ?r..<eb} \<union> {ee..<mr_base ?r + mr_size ?r} = region_set ?r - {eb..<ee}"
      using True e by (auto simp: region_set_def)
    show ?thesis
    proof (cases "pm_count m < MAX_REGIONS")
      case True
      then show ?thesis using step wf2 sets i len \<open>mr_kind ?r = Usable \<and> _\<close> e
        by (auto simp: add_region_def set_region_def region_set_def)
    next
      case False
      then show ?thesis using step wf2 i len \<open>mr_kind ?r = Usable \<and> _\<close> e
        by (auto simp: add_region_def set_region_def region_set_def)
    qed
  next
    case False
    obtain r' where r': "exclude_step m eb ee i = Some (set_region m i r')" "mr_base r' + mr_size r' < 2 ^ 64"
      "region_set r' = region_set ?r - {eb..<ee}"
    proof -
      have same: "set_region m i ?r = m" using r(1) by (simp add: set_region_def)
      have ua: "uadd (mr_base ?r) (mr_size ?r) = Some (mr_base ?r + mr_size ?r)" using r(2) by (rule uadd_in)
      consider "mr_kind ?r \<noteq> Usable \<or> ee \<le> mr_base ?r \<or> eb \<ge> mr_base ?r + mr_size ?r"
        | "mr_kind ?r = Usable" "ee > mr_base ?r" "eb < mr_base ?r + mr_size ?r" "eb \<le> mr_base ?r" "ee \<ge> mr_base ?r + mr_size ?r"
        | "mr_kind ?r = Usable" "ee > mr_base ?r" "eb < mr_base ?r + mr_size ?r" "eb \<le> mr_base ?r" "ee < mr_base ?r + mr_size ?r"
        | "mr_kind ?r = Usable" "ee > mr_base ?r" "eb < mr_base ?r + mr_size ?r" "eb > mr_base ?r" "ee \<ge> mr_base ?r + mr_size ?r"
        using False by linarith
      then show thesis
      proof cases
        case 1
        then show thesis using r ua same by (intro that [of ?r]) (auto simp: exclude_step_def region_set_def)
      next
        case 2
        then show thesis using r ua by (intro that [of "?r\<lparr>mr_kind := Kernel\<rparr>"]) (auto simp: exclude_step_def region_set_def)
      next
        case 3
        then show thesis using r ua by (intro that [of "?r\<lparr>mr_base := ee, mr_size := mr_base ?r + mr_size ?r - ee\<rparr>"])
          (auto simp: exclude_step_def region_set_def)
      next
        case 4
        then show thesis using r ua by (intro that [of "?r\<lparr>mr_size := eb - mr_base ?r\<rparr>"]) (auto simp: exclude_step_def region_set_def)
      qed
    qed
    then show ?thesis using map_wf_set [OF wf r'(2)] r(1) by (auto simp: set_region_def)
  qed
qed

lemma usable_between_cong: "(\<And>k. i \<le> k \<Longrightarrow> k < j \<Longrightarrow> pm_regions m' ! k = pm_regions m ! k) \<Longrightarrow> usable_between m' i j = usable_between m i j"
  by (simp add: usable_between_def)

lemma usable_between_Suc: "i \<le> j \<Longrightarrow> usable_between m i (Suc j) = usable_between m i j \<union> region_set (pm_regions m ! j)"
  by (auto simp: usable_between_def less_Suc_eq)

lemma usable_between_first: "i < j \<Longrightarrow> usable_between m i j = region_set (pm_regions m ! i) \<union> usable_between m (Suc i) j"
proof -
  assume "i < j"
  then have "{i..<j} = insert i {Suc i..<j}" by auto
  then show ?thesis by (simp add: usable_between_def)
qed

lemma exclude_loop_spec:
  assumes "map_wf m" "i \<le> pm_count m" "eb \<le> ee" "ee < 2 ^ 64"
  shows "\<exists>m'. exclude_loop m eb ee i = Some m' \<and> map_wf m' \<and> pm_count m \<le> pm_count m' \<and>
    (let goal = usable_between m 0 i \<union> (usable_between m i (pm_count m) - {eb..<ee}) in
      usable m' \<subseteq> goal \<and> (pm_count m' < MAX_REGIONS \<longrightarrow> usable m' = goal))"
  using assms
proof (induction m eb ee i rule: exclude_loop.induct)
  case (1 m eb ee i)
  show ?case
  proof (cases "i < pm_count m")
    case False
    then have "exclude_loop m eb ee i = Some m" "i = pm_count m" using 1(3) by (simp_all add: exclude_loop.simps)
    then show ?thesis using 1(2) by (simp add: usable_def usable_between_def)
  next
    case True
    let ?X = "{eb..<ee}" and ?n = "pm_count m"
    from exclude_step_spec [OF 1(2) True 1(4,5)] obtain m1 where
      m1: "exclude_step m eb ee i = Some m1" "map_wf m1" "\<forall>j < ?n. j \<noteq> i \<longrightarrow> pm_regions m1 ! j = pm_regions m ! j"
        "pm_count m1 = ?n \<and> region_set (pm_regions m1 ! i) \<subseteq> region_set (pm_regions m ! i) - ?X \<and>
           (?n < MAX_REGIONS \<longrightarrow> region_set (pm_regions m1 ! i) = region_set (pm_regions m ! i) - ?X) \<or>
         pm_count m1 = Suc ?n \<and>
           region_set (pm_regions m1 ! i) \<union> region_set (pm_regions m1 ! ?n) = region_set (pm_regions m ! i) - ?X" by blast
    have le: "?n \<le> pm_count m1" using exclude_step_count [OF m1(1)] by simp
    with 1(1) [OF True m1(1,2) _ 1(4,5)] True obtain m' where
      m': "exclude_loop m1 eb ee (i + 1) = Some m'" "map_wf m'" "pm_count m1 \<le> pm_count m'"
        "usable m' \<subseteq> usable_between m1 0 (i + 1) \<union> (usable_between m1 (i + 1) (pm_count m1) - ?X)"
        "pm_count m' < MAX_REGIONS \<longrightarrow> usable m' = usable_between m1 0 (i + 1) \<union> (usable_between m1 (i + 1) (pm_count m1) - ?X)"
      by (auto simp: Let_def)
    have low: "usable_between m1 0 (i + 1) = usable_between m 0 i \<union> region_set (pm_regions m1 ! i)"
      using usable_between_cong [of 0 i m1 m] m1(3) True by (simp add: usable_between_Suc)
    have high: "usable_between m1 (i + 1) ?n = usable_between m (i + 1) ?n"
      using m1(3) by (intro usable_between_cong) auto
    have all: "usable_between m i ?n = region_set (pm_regions m ! i) \<union> usable_between m (i + 1) ?n"
      using usable_between_first [OF True] by simp
    let ?goal = "usable_between m 0 i \<union> (usable_between m i ?n - ?X)"
    let ?next = "usable_between m1 0 (i + 1) \<union> (usable_between m1 (i + 1) (pm_count m1) - ?X)"
    have "?next \<subseteq> ?goal \<and> (pm_count m1 < MAX_REGIONS \<longrightarrow> ?next = ?goal)"
      using m1(4)
    proof
      assume "pm_count m1 = ?n \<and> region_set (pm_regions m1 ! i) \<subseteq> region_set (pm_regions m ! i) - ?X \<and>
        (?n < MAX_REGIONS \<longrightarrow> region_set (pm_regions m1 ! i) = region_set (pm_regions m ! i) - ?X)"
      then show ?thesis unfolding low all using high by auto
    next
      assume a: "pm_count m1 = Suc ?n \<and>
        region_set (pm_regions m1 ! i) \<union> region_set (pm_regions m1 ! ?n) = region_set (pm_regions m ! i) - ?X"
      then have "usable_between m1 (i + 1) (pm_count m1) = usable_between m (i + 1) ?n \<union> region_set (pm_regions m1 ! ?n)"
        using high True by (simp add: usable_between_Suc)
      then show ?thesis unfolding low all using a by blast
    qed
    moreover have "exclude_loop m eb ee i = Some m'" using m1(1) m'(1) True by (simp add: exclude_loop.simps [of m])
    ultimately show ?thesis using m' le by (auto simp: Let_def)
  qed
qed

text \<open>
  Excluding a range takes exactly that range out of usable memory. For a map whose regions end
  below 2 to the 64, the loop ends without a panic, no byte of the excluded range stays usable and
  none outside becomes usable; and unless the table of 64 regions filled up, in which case a
  split may drop the upper part, every other usable byte stays usable.
\<close>

theorem exclude_range_exact:
  assumes "map_wf m" "base + sz < 2 ^ 64"
  shows "\<exists>m'. exclude_range m base sz = Some m' \<and> map_wf m' \<and> usable m' \<subseteq> usable m - {base..<base + sz} \<and>
    (pm_count m' < MAX_REGIONS \<longrightarrow> usable m' = usable m - {base..<base + sz})"
  using exclude_loop_spec [OF assms(1), of 0 base "base + sz"] assms(2)
  by (auto simp: exclude_range_def Let_def usable_def usable_between_def)

definition sample_map :: phys_memory_map where
  "sample_map = snd (add_region phys_map_new 4096 8192 Usable)"

lemma sample_map_wf: "map_wf sample_map"
  unfolding sample_map_def by (rule map_wf_add) (simp_all add: map_wf_def phys_map_new_def region_iter_def)

theorem exclude_range_exact_witness:
  "\<exists>m'. exclude_range sample_map 8192 1024 = Some m' \<and> usable m' \<subseteq> usable sample_map - {8192..<9216}"
  using exclude_range_exact [OF sample_map_wf, of 8192 1024] by auto

text \<open>
  A full table loses memory: with 64 regions in use, excluding one page from the middle of a region
  also removes the part of that region above the page.\<close>

lemma exclude_range_full_table_loses:
  assumes "pm_count m = MAX_REGIONS" "length (pm_regions m) = MAX_REGIONS" "i < MAX_REGIONS"
    "pm_regions m ! i = \<lparr>mr_base = b, mr_size = s, mr_kind = Usable\<rparr>" "b + s < 2 ^ 64" "b < eb" "eb \<le> ee" "ee < b + s"
  shows "\<exists>m'. exclude_step m eb ee i = Some m' \<and> pm_count m' = pm_count m \<and>
    region_set (pm_regions m' ! i) = {b..<eb}"
  using assms by (simp add: exclude_step_def add_region_def set_region_def region_set_def)

section \<open>The walk over the Multiboot2 tags\<close>

text \<open>The offsets that the walk visits.\<close>

inductive_set mb2_visits :: "u8 list \<Rightarrow> nat \<Rightarrow> nat set" for mem :: "u8 list" and tot :: nat where
  first_tag: "8 \<in> mb2_visits mem tot"
| next_tag: "offset \<in> mb2_visits mem tot \<Longrightarrow> offset < tot \<Longrightarrow> read_u32 mem offset = Some ty \<Longrightarrow> ty \<noteq> MB2_TAG_END \<Longrightarrow>
     read_u32 mem (offset + 4) = Some sz \<Longrightarrow> offset + align8 (unat sz) \<in> mb2_visits mem tot"

lemma slice_exists: "a + n \<le> length mem \<Longrightarrow> \<exists>bs. slice mem a (a + n) = Some bs"
  by (simp add: slice_def)

lemma read_exists:
  "a + 4 \<le> length mem \<Longrightarrow> \<exists>v. read_u32 mem a = Some v" "a + 8 \<le> length mem \<Longrightarrow> \<exists>v. read_u64 mem a = Some v"
  using slice_exists [of a 4 mem] slice_exists [of a 8 mem] by (auto simp: read_u32_def read_u64_def)

lemma mb2_entries_exists:
  "entries_end + 24 \<le> length mem \<Longrightarrow> \<exists>m'. mb2_entries mem a s entries_end m = Some m'"
proof (induction mem a s entries_end m rule: mb2_entries.induct)
  case (1 mem a s e m)
  show ?case
  proof (cases "s > 0 \<and> a + s \<le> e")
    case True
    then have "a + 24 \<le> length mem" using 1(2) by simp
    then obtain base len ty where r: "read_u64 mem a = Some base" "read_u64 mem (a + 8) = Some len" "read_u32 mem (a + 16) = Some ty"
      using read_exists(2) [of a mem] read_exists(2) [of "a + 8" mem] read_exists(1) [of "a + 16" mem] by auto
    from 1(1) [OF True r 1(2)] True r show ?thesis by (simp add: mb2_entries.simps [of mem a])
  qed (auto simp: mb2_entries.simps [of mem a])
qed

lemma parse_mb2_mmap_tag_exists:
  assumes "off + sz + 24 \<le> length mem"
  shows "\<exists>m'. parse_mb2_mmap_tag mem off sz m = Some m'"
proof -
  obtain es where "read_u32 mem (off + 8) = Some es" using read_exists(1) [of "off + 8" mem] assms by auto
  then show ?thesis using mb2_entries_exists [of "off + sz" mem] assms by (auto simp: parse_mb2_mmap_tag_def)
qed

lemma align8_pos: "n > 0 \<Longrightarrow> align8 n \<ge> 8"
  by (simp add: align8_def)

definition tag_ok :: "u8 list \<Rightarrow> nat \<Rightarrow> bool" where
  "tag_ok mem off = (case (read_u32 mem off, read_u32 mem (off + 4)) of
     (Some ty, Some sz) \<Rightarrow> ty = MB2_TAG_END \<or> sz \<noteq> 0 \<and> (ty = MB2_TAG_MEMORY_MAP \<longrightarrow> off + unat sz + 24 \<le> length mem)
   | _ \<Rightarrow> False)"

lemma mb2_loop_ends:
  assumes ok: "\<forall>off \<in> mb2_visits mem tot. off < tot \<longrightarrow> tag_ok mem off"
  shows "off \<in> mb2_visits mem tot \<Longrightarrow> tot \<le> off + fuel \<Longrightarrow> \<exists>m'. mb2_loop (Suc fuel) mem tot off m = Some m'"
proof (induction fuel arbitrary: off m)
  case 0
  then show ?case by simp
next
  case (Suc fuel)
  show ?case
  proof (cases "off < tot")
    case True
    with ok Suc.prems(1) have "tag_ok mem off" by blast
    then obtain ty sz where r: "read_u32 mem off = Some ty" "read_u32 mem (off + 4) = Some sz"
      and t: "ty = MB2_TAG_END \<or> sz \<noteq> 0 \<and> (ty = MB2_TAG_MEMORY_MAP \<longrightarrow> off + unat sz + 24 \<le> length mem)"
      by (auto simp: tag_ok_def split: option.splits)
    show ?thesis
    proof (cases "ty = MB2_TAG_END")
      case False
      let ?m1 = "if ty = MB2_TAG_MEMORY_MAP then parse_mb2_mmap_tag mem off (unat sz) m else Some m"
      have "\<exists>m1. ?m1 = Some m1" using t False parse_mb2_mmap_tag_exists [of off "unat sz" mem m] by auto
      then obtain m1 where m1: "?m1 = Some m1" by blast
      have "unat sz > 0" using t False by (simp add: unat_gt_0)
      then have "tot \<le> off + align8 (unat sz) + fuel" using Suc.prems(2) align8_pos [of "unat sz"] by simp
      from Suc.IH [OF next_tag [OF Suc.prems(1) True r(1) False r(2)] this, of m1]
      show ?thesis unfolding mb2_loop.simps(2) [of "Suc fuel"] using True r False m1 by (simp del: mb2_loop.simps)
    qed (use True r in simp)
  qed simp
qed

text \<open>A run that ends passes through every offset visited before.\<close>

lemma mb2_loop_passes:
  "off \<in> mb2_visits mem tot \<Longrightarrow> mb2_loop fuel mem tot 8 m = Some r \<Longrightarrow>
     (\<exists>fuel' m'. mb2_loop fuel' mem tot off m' = Some r)"
proof (induction rule: mb2_visits.induct)
  case first_tag
  then show ?case by blast
next
  case (next_tag off ty sz)
  then obtain fuel' m' where f: "mb2_loop fuel' mem tot off m' = Some r" by blast
  then show ?case using next_tag.hyps by (cases fuel') (auto simp: bind_eq_Some_conv)
qed

lemma mb2_zero_tag_loops:
  assumes "off < tot" "read_u32 mem off = Some ty" "ty \<noteq> MB2_TAG_END" "read_u32 mem (off + 4) = Some 0"
  shows "mb2_loop fuel mem tot off m = None"
  using assms by (induction fuel arbitrary: m) (auto simp: align8_def split: Option.bind_splits)


definition sample_boot_info :: "u8 list" where
  "sample_boot_info = [24, 0, 0, 0, 0, 0, 0, 0, 1, 0, 0, 0, 0, 0, 0, 0, 0, 0, 0, 0, 8, 0, 0, 0]"


section \<open>The parsers only append\<close>

definition extends :: "region_kind set \<Rightarrow> phys_memory_map \<Rightarrow> phys_memory_map \<Rightarrow> bool" where
  "extends K m m' \<longleftrightarrow> (length (pm_regions m) = MAX_REGIONS \<longrightarrow> pm_count m \<le> MAX_REGIONS \<longrightarrow>
     length (pm_regions m') = MAX_REGIONS \<and> pm_count m' \<le> MAX_REGIONS \<and>
     (\<exists>rs. region_iter m' = region_iter m @ rs \<and> (\<forall>r \<in> set rs. mr_size r > 0 \<and> mr_kind r \<in> K)))"

lemma extends_refl [simp]: "extends K m m"
  by (auto simp: extends_def)

lemma extends_trans: "extends K m m1 \<Longrightarrow> extends K m1 m2 \<Longrightarrow> extends K m m2"
  by (auto simp: extends_def)

lemma extends_add: "sz > 0 \<Longrightarrow> kind \<in> K \<Longrightarrow> extends K m (snd (add_region m base sz kind))"
  by (auto simp: extends_def add_region_def region_iter_def take_Suc_conv_app_nth)

lemma mb2_kind_in: "mb2_kind t \<in> {Usable, AcpiReclaimable, Reserved}"
  by (simp add: mb2_kind_def)

lemma mb2_entries_extends:
  "mb2_entries mem a s e m = Some m' \<Longrightarrow> extends {Usable, AcpiReclaimable, Reserved} m m'"
proof (induction mem a s e m arbitrary: m' rule: mb2_entries.induct)
  case (1 mem a s e m)
  show ?case
  proof (cases "s > 0 \<and> a + s \<le> e")
    case True
    with 1(2) obtain base len ty where r: "read_u64 mem a = Some base" "read_u64 mem (a + 8) = Some len" "read_u32 mem (a + 16) = Some ty"
      and n: "mb2_entries mem (a + s) s e (if unat len > 0 then snd (add_region m (unat base) (unat len) (mb2_kind ty)) else m) = Some m'"
      by (auto simp: mb2_entries.simps [of mem a] bind_eq_Some_conv)
    have "extends {Usable, AcpiReclaimable, Reserved} m
        (if unat len > 0 then snd (add_region m (unat base) (unat len) (mb2_kind ty)) else m)"
      using extends_add [OF _ mb2_kind_in] by simp
    then show ?thesis using 1(1) [OF True r n] extends_trans by blast
  qed (use 1(2) in \<open>auto simp: mb2_entries.simps [of mem a]\<close>)
qed

lemma mb2_loop_extends: "mb2_loop fuel mem tot off m = Some m' \<Longrightarrow> extends {Usable, AcpiReclaimable, Reserved} m m'"
proof (induction fuel arbitrary: off m)
  case (Suc fuel)
  show ?case
  proof (cases "off < tot")
    case True
    with Suc.prems obtain ty sz where r: "read_u32 mem off = Some ty" "read_u32 mem (off + 4) = Some sz"
      by (auto simp: bind_eq_Some_conv)
    show ?thesis
    proof (cases "ty = MB2_TAG_END")
      case False
      with Suc.prems True r obtain m1 where
        m1: "(if ty = MB2_TAG_MEMORY_MAP then parse_mb2_mmap_tag mem off (unat sz) m else Some m) = Some m1"
        and n: "mb2_loop fuel mem tot (off + align8 (unat sz)) m1 = Some m'" by (auto simp: bind_eq_Some_conv)
      have "extends {Usable, AcpiReclaimable, Reserved} m m1"
        using m1 by (auto simp: parse_mb2_mmap_tag_def bind_eq_Some_conv dest: mb2_entries_extends split: if_splits)
      then show ?thesis using Suc.IH [OF n] extends_trans by blast
    qed (use Suc.prems True r in simp)
  qed (use Suc.prems in simp)
qed simp

lemma reg_entries_extends: "reg_entries mem data len ac sc off m = Some m' \<Longrightarrow> extends {Usable} m m'"
proof (induction mem data len ac sc off m arbitrary: m' rule: reg_entries.induct)
  case (1 mem data len ac sc off m)
  let ?es = "unat ((ac + sc) * 4)"
  show ?case
  proof (cases "?es > 0 \<and> off + ?es \<le> len")
    case True
    with 1(2) obtain b s where r: "read_cells ac mem (data + off) = Some b" "read_cells sc mem (data + off + unat (ac * 4)) = Some s"
      and n: "reg_entries mem data len ac sc (off + ?es) (if s > 0 then snd (add_region m b s Usable) else m) = Some m'"
      by (auto simp: reg_entries.simps [of mem data] bind_eq_Some_conv Let_def)
    have "extends {Usable} m (if s > 0 then snd (add_region m b s Usable) else m)" using extends_add by simp
    then show ?thesis using 1(1) [OF refl True r n] extends_trans by blast
  next
    case False
    then have "m' = m" using 1(2) by (subst (asm) reg_entries.simps) (simp only: Let_def if_False option.inject)
    then show ?thesis by simp
  qed
qed

lemma handle_prop_extends:
  assumes "handle_prop mem sb strb pos st m = Some (pos', st', m')"
  shows "extends {Usable} m m'"
proof -
  from assms obtain data len ac sc is_reg where
    "(if is_reg then parse_reg_property mem data len ac sc m else Some m) = Some m'"
    unfolding handle_prop_def Let_def bind_eq_Some_conv option.inject prod.inject by blast
  then show ?thesis by (auto simp: parse_reg_property_def dest: reg_entries_extends split: if_splits)
qed

lemma dtb_loop_extends: "dtb_loop mem sb strb e pos st m = Some m' \<Longrightarrow> extends {Usable} m m'"
proof (induction "e - pos" arbitrary: pos st m rule: less_induct)
  case less
  note run = less.prems [unfolded dtb_loop.simps [of mem sb strb e pos st m]]
  show ?case
  proof (cases "pos < e")
    case True
    have ih: "dtb_loop mem sb strb e p st' m1 = Some m' \<Longrightarrow> pos + 4 \<le> p \<Longrightarrow> extends {Usable} m1 m'" for p st' m1
      using less.hyps [of p st' m1] True by simp
    from run True show ?thesis
      by (auto simp: bind_eq_Some_conv split: if_splits prod.splits
          dest: ih handle_begin_node_pos handle_prop_pos intro: extends_trans [OF handle_prop_extends ih])
  qed (use run in simp)
qed

text \<open>
  The boot parsers only append. A run of either parser that has a result leaves the regions
  already in the map as they were, in order, keeps the table within its 64 entries, and appends
  only regions of nonzero size: usable, reserved or reclaimable ones from Multiboot2, usable ones
  from a device tree, and nothing from a blob without the device tree magic number.
\<close>

theorem boot_parsers_append:
  "(parse_multiboot2 mem m = Some m' \<longrightarrow> extends {Usable, AcpiReclaimable, Reserved} m m') \<and>
   (parse_dtb mem m = Some m' \<longrightarrow> extends {Usable} m m' \<and> (read_be32 mem 0 \<noteq> Some FDT_MAGIC \<longrightarrow> m' = m))"
  by (auto simp: parse_multiboot2_def parse_dtb_def bind_eq_Some_conv split: if_splits
      dest: mb2_loop_extends dtb_loop_extends simp del: mb2_loop.simps)

theorem boot_parsers_append_witness: "extends {Usable} sample_map sample_map"
proof -
  have "read_be32 sample_boot_info 0 = Some 0x18000000" by (simp add: read_be32_def slice_def sample_boot_info_def from_be_bytes_def)
  then have "parse_dtb sample_boot_info sample_map = Some sample_map" by (simp add: parse_dtb_def FDT_MAGIC_def)
  then show ?thesis using boot_parsers_append by blast
qed

end
