(* ===== verification/Buddy_Bitmap.thy ===== *)
theory Buddy_Bitmap
  imports Mem_Types
begin

text \<open>
  The bitmaps of the buddy allocator (\<open>OrderBitmap\<close> and \<open>AllocBitmap\<close> of
  \<open>kernel/src/mem/buddy.rs\<close>), and the interface through which the allocator uses an order
  bitmap: a set of free block indices below a capacity, with its cardinality.
\<close>

section \<open>The model\<close>

record order_bitmap =
  ob_bits :: "u64 list"
  ob_num_blocks :: nat
  ob_free_count :: nat

definition bitmap_words :: "nat \<Rightarrow> nat" where
  "bitmap_words bits = (bits + 63) div 64"

definition ob_new :: "nat \<Rightarrow> order_bitmap" where
  "ob_new words = \<lparr>ob_bits = replicate words 0, ob_num_blocks = 0, ob_free_count = 0\<rparr>"

definition ob_set_free :: "order_bitmap \<Rightarrow> nat \<Rightarrow> order_bitmap option" where
  "ob_set_free ob i = do {
     t \<leftarrow> bm_test (ob_bits ob) i;
     if \<not> t then do {
       bs \<leftarrow> bm_set (ob_bits ob) i;
       Some (ob\<lparr>ob_bits := bs, ob_free_count := ob_free_count ob + 1\<rparr>) }
     else Some ob }"

definition ob_set_allocated :: "order_bitmap \<Rightarrow> nat \<Rightarrow> order_bitmap option" where
  "ob_set_allocated ob i = do {
     t \<leftarrow> bm_test (ob_bits ob) i;
     if t then do {
       bs \<leftarrow> bm_clear (ob_bits ob) i;
       c \<leftarrow> usub (ob_free_count ob) 1;
       Some (ob\<lparr>ob_bits := bs, ob_free_count := c\<rparr>) }
     else Some ob }"

definition ob_is_free :: "order_bitmap \<Rightarrow> nat \<Rightarrow> bool option" where
  "ob_is_free ob i = bm_test (ob_bits ob) i"

fun find_free_from :: "nat \<Rightarrow> nat \<Rightarrow> u64 list \<Rightarrow> nat option" where
  "find_free_from num wi [] = None"
| "find_free_from num wi (w # ws) =
     (if w \<noteq> 0 \<and> wi * 64 + trailing_zeros w < num then Some (wi * 64 + trailing_zeros w)
      else find_free_from num (Suc wi) ws)"

definition ob_find_free :: "order_bitmap \<Rightarrow> nat option" where
  "ob_find_free ob = find_free_from (ob_num_blocks ob) 0 (ob_bits ob)"

definition mark_allocated :: "u64 list \<Rightarrow> nat \<Rightarrow> nat \<Rightarrow> u64 list option" where
  "mark_allocated bs page_idx count = mfold (\<lambda>i b. bm_set b i) [page_idx..<page_idx + count] bs"

definition mark_free :: "u64 list \<Rightarrow> nat \<Rightarrow> nat \<Rightarrow> u64 list option" where
  "mark_free bs page_idx count = mfold (\<lambda>i b. bm_clear b i) [page_idx..<page_idx + count] bs"

definition is_allocated :: "u64 list \<Rightarrow> nat \<Rightarrow> bool option" where
  "is_allocated bs page_idx = bm_test bs page_idx"

section \<open>The interface of a block bitmap\<close>

locale block_bitmap =
  fixes inv :: "'b \<Rightarrow> bool"
    and frees :: "'b \<Rightarrow> nat set"
    and cap :: "'b \<Rightarrow> nat"
    and count :: "'b \<Rightarrow> nat"
    and set_free :: "'b \<Rightarrow> nat \<Rightarrow> 'b option"
    and set_allocated :: "'b \<Rightarrow> nat \<Rightarrow> 'b option"
    and is_free :: "'b \<Rightarrow> nat \<Rightarrow> bool option"
    and find_free :: "'b \<Rightarrow> nat option"
  assumes frees_bound: "inv b \<Longrightarrow> frees b \<subseteq> {..<cap b}"
    and count_card: "inv b \<Longrightarrow> count b = card (frees b)"
    and set_free_ex: "inv b \<Longrightarrow> i < cap b \<Longrightarrow>
      \<exists>b'. set_free b i = Some b' \<and> inv b' \<and> cap b' = cap b \<and> frees b' = insert i (frees b)"
    and set_allocated_ex: "inv b \<Longrightarrow> i < cap b \<Longrightarrow>
      \<exists>b'. set_allocated b i = Some b' \<and> inv b' \<and> cap b' = cap b \<and> frees b' = frees b - {i}"
    and is_free_eq: "inv b \<Longrightarrow> i < cap b \<Longrightarrow> is_free b i = Some (i \<in> frees b)"
    and find_free_least: "inv b \<Longrightarrow> find_free b = Some i \<Longrightarrow> i \<in> frees b \<and> (\<forall>j \<in> frees b. i \<le> j)"
    and find_free_empty: "inv b \<Longrightarrow> find_free b = None \<Longrightarrow> frees b = {}"
begin

lemma finite_frees: "inv b \<Longrightarrow> finite (frees b)"
  by (rule finite_subset [OF frees_bound]) simp_all

lemma find_free_None_iff: "inv b \<Longrightarrow> find_free b = None \<longleftrightarrow> frees b = {}"
  by (cases "find_free b") (use find_free_empty find_free_least in fastforce)+

lemma find_free_less_cap: "inv b \<Longrightarrow> find_free b = Some i \<Longrightarrow> i < cap b"
  using find_free_least frees_bound by blast

lemma set_free_then_allocated:
  assumes "inv b" "i < cap b" "i \<notin> frees b"
  shows "\<exists>b' b''. set_free b i = Some b' \<and> set_allocated b' i = Some b'' \<and> inv b'' \<and>
    cap b'' = cap b \<and> frees b'' = frees b \<and> count b'' = count b"
proof -
  from set_free_ex [OF assms(1,2)] obtain b' where b':
    "set_free b i = Some b'" "inv b'" "cap b' = cap b" "frees b' = insert i (frees b)" by blast
  with set_allocated_ex [of b' i] assms obtain b'' where
    "set_allocated b' i = Some b''" "inv b''" "cap b'' = cap b" "frees b'' = frees b" by auto
  with b' assms show ?thesis by (auto simp: count_card)
qed

lemma count_zero_iff: "inv b \<Longrightarrow> count b = 0 \<longleftrightarrow> find_free b = None"
  by (simp add: count_card find_free_None_iff finite_frees)

end

section \<open>Order bitmaps implement the interface\<close>

definition ob_frees :: "order_bitmap \<Rightarrow> nat set" where
  "ob_frees ob = bm_bits (ob_bits ob)"

definition ob_inv :: "order_bitmap \<Rightarrow> bool" where
  "ob_inv ob \<longleftrightarrow> ob_frees ob \<subseteq> {..<ob_num_blocks ob} \<and>
     ob_num_blocks ob \<le> 64 * length (ob_bits ob) \<and>
     ob_free_count ob = card (ob_frees ob)"

lemma find_free_from_Some:
  "find_free_from num wi ws = Some i \<Longrightarrow> bm_bits ws \<subseteq> {j. wi * 64 + j < num} \<Longrightarrow>
     wi * 64 \<le> i \<and> i - wi * 64 \<in> bm_bits ws \<and> (\<forall>j \<in> bm_bits ws. i \<le> wi * 64 + j)"
proof (induction num wi ws rule: find_free_from.induct)
  case (1 num wi)
  then show ?case by simp
next
  case (2 num wi w ws)
  show ?case
  proof (cases "w = 0")
    case True
    have "bm_bits ws \<subseteq> {j. Suc wi * 64 + j < num}"
    proof
      fix j assume "j \<in> bm_bits ws"
      then have "j + 64 \<in> bm_bits (w # ws)" by (simp add: mem_bm_bits_Cons)
      with 2(3) show "j \<in> {j. Suc wi * 64 + j < num}" by auto
    qed
    with True 2 have ih: "Suc wi * 64 \<le> i" "i - Suc wi * 64 \<in> bm_bits ws"
        "\<forall>j \<in> bm_bits ws. i \<le> Suc wi * 64 + j" by simp_all
    have "i - wi * 64 \<in> bm_bits (w # ws)"
      using ih(1,2) by (auto simp: mem_bm_bits_Cons diff_diff_left add.commute)
    moreover have "i \<le> wi * 64 + j" if "j \<in> bm_bits (w # ws)" for j
      using that ih(3) True by (fastforce simp: mem_bm_bits_Cons split: if_splits)
    ultimately show ?thesis using ih(1) by simp
  next
    case False
    note tz = trailing_zeros_nonzero [OF False]
    then have m: "trailing_zeros w \<in> bm_bits (w # ws)" by (simp add: mem_bm_bits_Cons)
    with 2(3) have "wi * 64 + trailing_zeros w < num" by blast
    with False 2(2) have i: "i = wi * 64 + trailing_zeros w" by simp
    have "trailing_zeros w \<le> j" if "j \<in> bm_bits (w # ws)" for j
      using that tz by (auto simp: mem_bm_bits_Cons not_less [symmetric] split: if_splits)
    with i m show ?thesis by auto
  qed
qed

lemma find_free_from_None:
  "find_free_from num wi ws = None \<Longrightarrow> bm_bits ws \<subseteq> {j. wi * 64 + j < num} \<Longrightarrow> bm_bits ws = {}"
proof (induction num wi ws rule: find_free_from.induct)
  case (1 num wi)
  then show ?case by simp
next
  case (2 num wi w ws)
  have w: "w = 0"
  proof (rule ccontr)
    assume w: "w \<noteq> 0"
    from trailing_zeros_nonzero [OF this] have "trailing_zeros w \<in> bm_bits (w # ws)"
      by (simp add: mem_bm_bits_Cons)
    with 2(3) have "wi * 64 + trailing_zeros w < num" by blast
    with w 2(2) show False by simp
  qed
  have "bm_bits ws \<subseteq> {j. Suc wi * 64 + j < num}"
  proof
    fix j assume "j \<in> bm_bits ws"
    then have "j + 64 \<in> bm_bits (w # ws)" by (simp add: mem_bm_bits_Cons)
    with 2(3) show "j \<in> {j. Suc wi * 64 + j < num}" by auto
  qed
  with 2(1,2) w have "bm_bits ws = {}" by simp
  with w show ?case by (auto simp: mem_bm_bits_Cons split: if_splits)
qed

lemma ob_set_free_ex:
  assumes "ob_inv ob" "i < ob_num_blocks ob"
  shows "\<exists>ob'. ob_set_free ob i = Some ob' \<and> ob_inv ob' \<and> ob_num_blocks ob' = ob_num_blocks ob \<and>
    ob_frees ob' = insert i (ob_frees ob)"
proof -
  from assms have i: "i < 64 * length (ob_bits ob)" by (simp add: ob_inv_def)
  from bm_set_eq [OF i] obtain bs where
    bs: "bm_set (ob_bits ob) i = Some bs" "length bs = length (ob_bits ob)"
      "bm_bits bs = insert i (bm_bits (ob_bits ob))" by blast
  show ?thesis
    using assms bs by (auto simp: ob_set_free_def bm_test_eq [OF i] ob_inv_def ob_frees_def insert_absorb)
qed

lemma ob_set_allocated_ex:
  assumes "ob_inv ob" "i < ob_num_blocks ob"
  shows "\<exists>ob'. ob_set_allocated ob i = Some ob' \<and> ob_inv ob' \<and> ob_num_blocks ob' = ob_num_blocks ob \<and>
    ob_frees ob' = ob_frees ob - {i}"
proof -
  from assms have i: "i < 64 * length (ob_bits ob)" by (simp add: ob_inv_def)
  from bm_clear_eq [OF i] obtain bs where
    bs: "bm_clear (ob_bits ob) i = Some bs" "length bs = length (ob_bits ob)"
      "bm_bits bs = bm_bits (ob_bits ob) - {i}" by blast
  have "1 \<le> ob_free_count ob" if "i \<in> bm_bits (ob_bits ob)"
    using that assms by (auto simp: ob_inv_def ob_frees_def Suc_le_eq card_gt_0_iff)
  with assms bs show ?thesis
    by (auto simp: ob_set_allocated_def bm_test_eq [OF i] ob_inv_def ob_frees_def)
qed

interpretation ob: block_bitmap ob_inv ob_frees ob_num_blocks ob_free_count
  ob_set_free ob_set_allocated ob_is_free ob_find_free
proof unfold_locales
  fix b i assume inv: "ob_inv b"
  show "ob_frees b \<subseteq> {..<ob_num_blocks b}" "ob_free_count b = card (ob_frees b)"
    using inv by (simp_all add: ob_inv_def)
  show "i < ob_num_blocks b \<Longrightarrow> ob_is_free b i = Some (i \<in> ob_frees b)"
    using inv by (simp add: ob_inv_def ob_is_free_def ob_frees_def bm_test_eq)
  have sub: "bm_bits (ob_bits b) \<subseteq> {j. 0 * 64 + j < ob_num_blocks b}"
    using inv by (auto simp: ob_inv_def ob_frees_def)
  show "ob_find_free b = Some i \<Longrightarrow> i \<in> ob_frees b \<and> (\<forall>j \<in> ob_frees b. i \<le> j)"
    using find_free_from_Some [OF _ sub] by (simp add: ob_find_free_def ob_frees_def)
  show "ob_find_free b = None \<Longrightarrow> ob_frees b = {}"
    using find_free_from_None [OF _ sub] by (simp add: ob_find_free_def ob_frees_def)
qed (blast intro: ob_set_free_ex ob_set_allocated_ex)+

section \<open>The allocation map\<close>

lemma mfold_bm_set:
  "\<forall>i \<in> set is. i < 64 * length bs \<Longrightarrow>
     \<exists>bs'. mfold (\<lambda>i b. bm_set b i) is bs = Some bs' \<and> length bs' = length bs \<and>
       bm_bits bs' = bm_bits bs \<union> set is"
proof (induction "is" arbitrary: bs)
  case Nil
  then show ?case by simp
next
  case (Cons i "is")
  then obtain b1 where "bm_set bs i = Some b1" "length b1 = length bs" "bm_bits b1 = insert i (bm_bits bs)"
    using bm_set_eq [of i bs] by auto
  with Cons.IH [of b1] Cons.prems show ?case by auto
qed

lemma mfold_bm_clear:
  "\<forall>i \<in> set is. i < 64 * length bs \<Longrightarrow>
     \<exists>bs'. mfold (\<lambda>i b. bm_clear b i) is bs = Some bs' \<and> length bs' = length bs \<and>
       bm_bits bs' = bm_bits bs - set is"
proof (induction "is" arbitrary: bs)
  case Nil
  then show ?case by simp
next
  case (Cons i "is")
  then obtain b1 where "bm_clear bs i = Some b1" "length b1 = length bs" "bm_bits b1 = bm_bits bs - {i}"
    using bm_clear_eq [of i bs] by auto
  with Cons.IH [of b1] Cons.prems show ?case by auto
qed

lemma mark_allocated_ex:
  "p + n \<le> 64 * length bs \<Longrightarrow>
     \<exists>bs'. mark_allocated bs p n = Some bs' \<and> length bs' = length bs \<and>
       bm_bits bs' = bm_bits bs \<union> {p..<p + n}"
  using mfold_bm_set [of "[p..<p + n]" bs] by (auto simp: mark_allocated_def)

lemma mark_free_ex:
  "p + n \<le> 64 * length bs \<Longrightarrow>
     \<exists>bs'. mark_free bs p n = Some bs' \<and> length bs' = length bs \<and>
       bm_bits bs' = bm_bits bs - {p..<p + n}"
  using mfold_bm_clear [of "[p..<p + n]" bs] by (auto simp: mark_free_def)

lemma is_allocated_eq: "p < 64 * length bs \<Longrightarrow> is_allocated bs p = Some (p \<in> bm_bits bs)"
  by (simp add: is_allocated_def bm_test_eq)

end
