(* ===== verification/Buddy.thy ===== *)
theory Buddy
  imports Buddy_Bitmap
begin

text \<open>
  The buddy allocator (\<open>kernel/src/mem/buddy.rs\<close>). Page \<open>p\<close> of the managed region is the
  address \<open>base + 4096 * p\<close>; block \<open>i\<close> of order \<open>o\<close> is the run of \<open>2 ^ o\<close> pages from
  \<open>i * 2 ^ o\<close>. The capacity of the bitmaps (\<open>MAX_BITMAP_WORDS\<close>) depends on the build
  configuration (1024, 262144 or 16777216 pages), so it is an argument of \<open>buddy_new\<close>.

  The abstract specification of the allocator is its set of free pages and its set of
  allocated pages. The theorems show that \<open>allocate\<close> moves a naturally aligned run of pages
  from the first to the second, that \<open>free\<close> moves it back, that neither panics, and that
  \<open>allocate\<close> fails only when no aligned run of that size is free.
\<close>

section \<open>The model\<close>

definition MAX_ORDER :: nat where
  "MAX_ORDER = 21"

definition NUM_ORDERS :: nat where
  "NUM_ORDERS = MAX_ORDER + 1"

record buddy =
  bd_base :: phys_addr
  bd_total_pages :: nat
  bd_orders :: "order_bitmap list"
  bd_alloc_map :: "u64 list"
  bd_free_pages :: nat

definition buddy_new :: "nat \<Rightarrow> buddy" where
  "buddy_new max_pages =
     (let words = bitmap_words max_pages in
      \<lparr>bd_base = 0, bd_total_pages = 0, bd_orders = replicate NUM_ORDERS (ob_new words),
       bd_alloc_map = replicate words 0, bd_free_pages = 0\<rparr>)"

definition buddy_init :: "buddy \<Rightarrow> phys_addr \<Rightarrow> nat \<Rightarrow> buddy option" where
  "buddy_init a base sz = do {
     ensure (is_aligned_usize base PAGE_SIZE_4K);
     (let total = sz div PAGE_SIZE_4K in
      Some (a\<lparr>bd_base := base, bd_total_pages := total,
              bd_orders := map (\<lambda>n. (bd_orders a ! n)\<lparr>ob_num_blocks := total div 2 ^ n\<rparr>) [0..<NUM_ORDERS]\<rparr>)) }"

text \<open>The inner loop of \<open>add_free_region\<close>: the largest order that is aligned and fits.\<close>

function largest_order :: "nat \<Rightarrow> nat \<Rightarrow> nat \<Rightarrow> nat" where
  "largest_order page_idx remaining order =
     (if order < MAX_ORDER then
        if page_idx mod 2 ^ (order + 1) \<noteq> 0 \<or> remaining < 2 ^ (order + 1) then order
        else largest_order page_idx remaining (order + 1)
      else order)"
  by pat_completeness auto
termination
  by (relation "measure (\<lambda>(p, r, n). MAX_ORDER - n)") auto

declare largest_order.simps [simp del]

function afr_loop :: "buddy \<Rightarrow> nat \<Rightarrow> nat \<Rightarrow> buddy option" where
  "afr_loop a addr e =
     (if addr < e then do {
        offset \<leftarrow> usub addr (bd_base a);
        (let page_idx = offset div PAGE_SIZE_4K;
             remaining = (e - addr) div PAGE_SIZE_4K;
             order = largest_order page_idx remaining 0;
             block_pages = 2 ^ order in do {
          ob \<leftarrow> idx (bd_orders a) order;
          ob' \<leftarrow> ob_set_free ob (page_idx div block_pages);
          afr_loop (a\<lparr>bd_orders := (bd_orders a)[order := ob'],
                      bd_free_pages := bd_free_pages a + block_pages\<rparr>)
            (addr + block_pages * PAGE_SIZE_4K) e }) }
      else Some a)"
  by pat_completeness auto
termination
  by (relation "measure (\<lambda>(a, addr, e). e - addr)") (auto simp: PAGE_SIZE_4K_def intro!: diff_less_mono2)

declare afr_loop.simps [simp del]

definition add_free_region :: "buddy \<Rightarrow> phys_addr \<Rightarrow> nat \<Rightarrow> buddy option" where
  "add_free_region a start sz =
     (if sz = 0 \<or> \<not> is_aligned_usize start PAGE_SIZE_4K then Some a
      else do {
        e \<leftarrow> uadd start (align_down_usize sz PAGE_SIZE_4K);
        afr_loop a start e })"

function find_order :: "order_bitmap list \<Rightarrow> nat \<Rightarrow> nat option" where
  "find_order obs n =
     (if n \<le> MAX_ORDER then do {
        ob \<leftarrow> idx obs n;
        if ob_find_free ob \<noteq> None then Some n else find_order obs (n + 1) }
      else Some n)"
  by pat_completeness auto
termination
  by (relation "measure (\<lambda>(obs, n). MAX_ORDER + 1 - n)") auto

declare find_order.simps [simp del]

function split_down :: "order_bitmap list \<Rightarrow> nat \<Rightarrow> nat \<Rightarrow> nat \<Rightarrow> (order_bitmap list \<times> nat) option" where
  "split_down obs cur order i =
     (if cur > order then do {
        ob \<leftarrow> idx obs (cur - 1);
        ob' \<leftarrow> ob_set_free ob (i * 2 + 1);
        split_down (obs[cur - 1 := ob']) (cur - 1) order (i * 2) }
      else Some (obs, i))"
  by pat_completeness auto
termination
  by (relation "measure (\<lambda>(obs, cur, order, i). cur)") auto

declare split_down.simps [simp del]

definition allocate :: "buddy \<Rightarrow> nat \<Rightarrow> (mem_error, phys_addr \<times> buddy) result option" where
  "allocate a order =
     (if order > MAX_ORDER then Some (Inl OrderTooLarge)
      else do {
        found \<leftarrow> find_order (bd_orders a) order;
        if found > MAX_ORDER then Some (Inl OutOfMemory)
        else do {
          ob \<leftarrow> idx (bd_orders a) found;
          block_idx \<leftarrow> ob_find_free ob;
          ob' \<leftarrow> ob_set_allocated ob block_idx;
          (obs, cur) \<leftarrow> split_down ((bd_orders a)[found := ob']) found order block_idx;
          (let page_idx = cur * 2 ^ order in do {
            addr \<leftarrow> uadd (bd_base a) (page_idx * PAGE_SIZE_4K);
            fp \<leftarrow> usub (bd_free_pages a) (2 ^ order);
            am \<leftarrow> mark_allocated (bd_alloc_map a) page_idx (2 ^ order);
            Some (Inr (addr, a\<lparr>bd_orders := obs, bd_free_pages := fp, bd_alloc_map := am\<rparr>)) }) } })"

definition allocate_page :: "buddy \<Rightarrow> (mem_error, phys_addr \<times> buddy) result option" where
  "allocate_page a = allocate a 0"

function merge_up :: "order_bitmap list \<Rightarrow> nat \<Rightarrow> nat \<Rightarrow> (order_bitmap list \<times> nat \<times> nat) option" where
  "merge_up obs cur i =
     (if cur < MAX_ORDER then do {
        ob \<leftarrow> idx obs cur;
        (let buddy_idx = i XOR 1 in
         if buddy_idx \<ge> ob_num_blocks ob then Some (obs, cur, i)
         else do {
           f \<leftarrow> ob_is_free ob buddy_idx;
           if \<not> f then Some (obs, cur, i)
           else do {
             ob' \<leftarrow> ob_set_allocated ob buddy_idx;
             merge_up (obs[cur := ob']) (cur + 1) (i div 2) } }) }
      else Some (obs, cur, i))"
  by pat_completeness auto
termination
  by (relation "measure (\<lambda>(obs, cur, i). MAX_ORDER - cur)") auto

declare merge_up.simps [simp del]

definition free :: "buddy \<Rightarrow> phys_addr \<Rightarrow> nat \<Rightarrow> (mem_error, buddy) result option" where
  "free a addr order =
     (if order > MAX_ORDER then Some (Inl OrderTooLarge)
      else if \<not> is_aligned_usize addr PAGE_SIZE_4K then Some (Inl BadAlignment)
      else if addr < bd_base a then Some (Inl InvalidAddress)
      else let page_idx = (addr - bd_base a) div PAGE_SIZE_4K; block_pages = 2 ^ order in
        if page_idx mod block_pages \<noteq> 0 then Some (Inl BadAlignment)
        else do {
          al \<leftarrow> is_allocated (bd_alloc_map a) page_idx;
          if \<not> al then Some (Inl DoubleFree)
          else do {
            am \<leftarrow> mark_free (bd_alloc_map a) page_idx block_pages;
            (obs, cur, i) \<leftarrow> merge_up (bd_orders a) order (page_idx div block_pages);
            ob \<leftarrow> idx obs cur;
            ob' \<leftarrow> ob_set_free ob i;
            Some (Inr (a\<lparr>bd_orders := obs[cur := ob'], bd_alloc_map := am,
                         bd_free_pages := bd_free_pages a + block_pages\<rparr>)) } })"

definition free_page :: "buddy \<Rightarrow> phys_addr \<Rightarrow> (mem_error, buddy) result option" where
  "free_page a addr = free a addr 0"

definition free_blocks_at_order :: "buddy \<Rightarrow> nat \<Rightarrow> nat option" where
  "free_blocks_at_order a order =
     (if order > MAX_ORDER then Some 0 else map_option ob_free_count (idx (bd_orders a) order))"

section \<open>Blocks\<close>

text \<open>The pages of block \<open>i\<close> of order \<open>n\<close>, and the pages of a set of blocks.\<close>

definition blk :: "nat \<Rightarrow> nat \<Rightarrow> nat set" where
  "blk n i = {p. p div 2 ^ n = i}"

definition pages :: "(nat \<times> nat) set \<Rightarrow> nat set" where
  "pages F = (\<Union>(n, i) \<in> F. blk n i)"

definition disjoint_blocks :: "(nat \<times> nat) set \<Rightarrow> bool" where
  "disjoint_blocks F \<longleftrightarrow>
     (\<forall>n i m j. (n, i) \<in> F \<longrightarrow> (m, j) \<in> F \<longrightarrow> (n, i) \<noteq> (m, j) \<longrightarrow> blk n i \<inter> blk m j = {})"

definition coalesced :: "(nat \<times> nat) set \<Rightarrow> bool" where
  "coalesced F \<longleftrightarrow> (\<forall>n i. n < MAX_ORDER \<longrightarrow> (n, i) \<in> F \<longrightarrow> (n, i XOR Suc 0) \<notin> F)"

lemma blk_interval: "blk n i = {i * 2 ^ n..<(i + 1) * 2 ^ n}"
proof (intro set_eqI iffI)
  fix p assume "p \<in> blk n i"
  then have p: "i = p div 2 ^ n" by (simp add: blk_def)
  then have "i * 2 ^ n \<le> p" by (simp add: div_times_less_eq_dividend)
  moreover have "p < (i + 1) * 2 ^ n"
    using dividend_less_div_times [of "2 ^ n" p] p by simp
  ultimately show "p \<in> {i * 2 ^ n..<(i + 1) * 2 ^ n}" by simp
next
  fix p assume "p \<in> {i * 2 ^ n..<(i + 1) * 2 ^ n}"
  then show "p \<in> blk n i"
    by (auto simp: blk_def intro!: div_nat_eqI simp: mult.commute)
qed

lemma finite_blk [simp]: "finite (blk n i)"
  by (simp add: blk_interval)

lemma card_blk [simp]: "card (blk n i) = 2 ^ n"
  by (simp add: blk_interval)

lemma blk_nonempty [simp]: "blk n i \<noteq> {}"
  by (simp add: blk_interval)

lemma blk_first: "i * 2 ^ n \<in> blk n i"
  by (simp add: blk_def)

lemma blk_inj: "p \<in> blk n i \<Longrightarrow> p \<in> blk n j \<Longrightarrow> i = j"
  by (simp add: blk_def)

lemma blk_nested: "n \<le> m \<Longrightarrow> p \<in> blk n i \<Longrightarrow> p \<in> blk m j \<Longrightarrow> blk n i \<subseteq> blk m j"
  by (auto simp: blk_def le_iff_add power_add div_mult2_eq)

lemma blk_0 [simp]: "blk 0 i = {i}"
  by (auto simp: blk_def)

lemma blk_Suc: "blk (Suc n) i = blk n (2 * i) \<union> blk n (2 * i + 1)"
proof -
  have "p div 2 ^ Suc n = p div 2 ^ n div 2" for p :: nat
    by (metis div_mult2_eq power_Suc2)
  moreover have "q div 2 = i \<longleftrightarrow> q = 2 * i \<or> q = 2 * i + 1" for q :: nat
    by presburger
  ultimately show ?thesis by (auto simp: blk_def)
qed

lemma xor_1_cases: "(i::nat) XOR Suc 0 = (if even i then i + 1 else i - 1)"
  by (simp add: xor_nat_unfold) presburger

lemma xor_1_neq [simp]: "(i::nat) XOR Suc 0 \<noteq> i"
  by (auto simp: xor_1_cases elim: oddE)

lemma xor_1_xor_1 [simp]: "((i::nat) XOR Suc 0) XOR Suc 0 = i"
  by (auto simp: xor_1_cases)

lemma xor_1_div_2 [simp]: "((i::nat) XOR Suc 0) div 2 = i div 2"
  by (auto simp: xor_1_cases elim: oddE)

lemma blk_Suc_buddies: "blk (Suc n) (i div 2) = blk n i \<union> blk n (i XOR Suc 0)"
  by (auto simp: blk_Suc xor_1_cases elim!: evenE oddE)

lemma pages_insert [simp]: "pages (insert (n, i) F) = blk n i \<union> pages F"
  by (simp add: pages_def)

lemma pages_empty [simp]: "pages {} = {}"
  by (simp add: pages_def)

lemma blk_subset_pages: "(n, i) \<in> F \<Longrightarrow> blk n i \<subseteq> pages F"
  by (auto simp: pages_def)

lemma disjoint_blocksD:
  "disjoint_blocks F \<Longrightarrow> (n, i) \<in> F \<Longrightarrow> (m, j) \<in> F \<Longrightarrow> p \<in> blk n i \<Longrightarrow> p \<in> blk m j \<Longrightarrow> (n, i) = (m, j)"
  unfolding disjoint_blocks_def by blast

lemma disjoint_blocks_subset: "disjoint_blocks F \<Longrightarrow> G \<subseteq> F \<Longrightarrow> disjoint_blocks G"
  unfolding disjoint_blocks_def by blast

lemma disjoint_blocks_insert:
  "(n, i) \<notin> F \<Longrightarrow>
     disjoint_blocks (insert (n, i) F) \<longleftrightarrow> disjoint_blocks F \<and> blk n i \<inter> pages F = {}"
  unfolding disjoint_blocks_def pages_def by fast

lemma disjoint_blocks_insertI:
  "disjoint_blocks F \<Longrightarrow> blk n i \<inter> pages F = {} \<Longrightarrow> disjoint_blocks (insert (n, i) F)"
  by (cases "(n, i) \<in> F") (auto simp: disjoint_blocks_insert insert_absorb)

lemma not_in_if_disjoint: "blk n i \<inter> pages F = {} \<Longrightarrow> (n, i) \<notin> F"
  using blk_subset_pages [of n i F] blk_first [of i n] by blast

lemma pages_remove:
  "disjoint_blocks F \<Longrightarrow> (n, i) \<in> F \<Longrightarrow> pages (F - {(n, i)}) = pages F - blk n i"
  unfolding disjoint_blocks_def pages_def by fast

lemma coalesced_remove: "coalesced F \<Longrightarrow> coalesced (F - X)"
  by (auto simp: coalesced_def)

text \<open>
  With no two free buddies left unmerged, a naturally aligned run of free pages lies inside one
  free block of at least its size.
\<close>

lemma aligned_run_in_block:
  assumes "disjoint_blocks F" "coalesced F" "blk n i \<subseteq> pages F" "n \<le> MAX_ORDER"
  shows "\<exists>m j. (m, j) \<in> F \<and> n \<le> m \<and> blk n i \<subseteq> blk m j"
  using assms(3,4)
proof (induction n arbitrary: i)
  case 0
  then show ?case by (fastforce simp: pages_def)
next
  case (Suc n)
  let ?l = "2 * i" and ?r = "2 * i + 1"
  from Suc.prems have "blk n ?l \<subseteq> pages F" "blk n ?r \<subseteq> pages F" by (auto simp: blk_Suc)
  with Suc.IH Suc.prems(2) obtain m j m' j' where
    l: "(m, j) \<in> F" "n \<le> m" "blk n ?l \<subseteq> blk m j" and
    r: "(m', j') \<in> F" "n \<le> m'" "blk n ?r \<subseteq> blk m' j'"
    by (meson Suc_leD)
  have big: "blk (Suc n) i \<subseteq> blk a b" if "Suc n \<le> a" "blk n c \<subseteq> blk a b" "blk n c \<subseteq> blk (Suc n) i"
    for a b c using blk_nested [OF that(1), of "c * 2 ^ n"] that blk_first by blast
  show ?case
  proof (cases "Suc n \<le> m \<or> Suc n \<le> m'")
    case True
    then show ?thesis using big l r by (metis blk_Suc sup_ge1 sup_ge2)
  next
    case False
    with l r have "m = n" "m' = n" by auto
    with l r have "j = ?l" "j' = ?r" using blk_first blk_inj by blast+
    moreover have "?l XOR Suc 0 = ?r" by (simp add: xor_1_cases)
    ultimately have False
      using l(1) r(1) \<open>m = n\<close> \<open>m' = n\<close> assms(2) Suc.prems(2)
      by (metis coalesced_def Suc_le_eq)
    then show ?thesis ..
  qed
qed

section \<open>The free lists as a set of blocks\<close>

definition fb :: "order_bitmap list \<Rightarrow> (nat \<times> nat) set" where
  "fb obs = {(n, i). n < length obs \<and> i \<in> ob_frees (obs ! n)}"

definition obs_inv :: "nat \<Rightarrow> order_bitmap list \<Rightarrow> bool" where
  "obs_inv t obs \<longleftrightarrow> length obs = NUM_ORDERS \<and>
     (\<forall>n < length obs. ob_inv (obs ! n) \<and> ob_num_blocks (obs ! n) = t div 2 ^ n)"

lemma obs_inv_lookup:
  assumes "obs_inv t obs" "n \<le> MAX_ORDER"
  shows "idx obs n = Some (obs ! n)" "n < length obs" "ob_inv (obs ! n)"
    "ob_num_blocks (obs ! n) = t div 2 ^ n" "i \<in> ob_frees (obs ! n) \<longleftrightarrow> (n, i) \<in> fb obs"
  using assms by (auto simp: obs_inv_def NUM_ORDERS_def fb_def)

lemma fb_bound: "obs_inv t obs \<Longrightarrow> (n, i) \<in> fb obs \<Longrightarrow> n \<le> MAX_ORDER \<and> i < t div 2 ^ n"
  using ob.frees_bound by (fastforce simp: obs_inv_def fb_def NUM_ORDERS_def)

lemma obs_inv_update:
  assumes "obs_inv t obs" "n \<le> MAX_ORDER" "ob_inv ob" "ob_num_blocks ob = t div 2 ^ n"
  shows "obs_inv t (obs[n := ob])"
  using assms by (simp add: obs_inv_def NUM_ORDERS_def nth_list_update)

lemma fb_update_iff:
  "n < length obs \<Longrightarrow>
     (m, i) \<in> fb (obs[n := ob]) \<longleftrightarrow> (if m = n then i \<in> ob_frees ob else (m, i) \<in> fb obs)"
  by (auto simp: fb_def nth_list_update)

lemma obs_set_free:
  assumes "obs_inv t obs" "n \<le> MAX_ORDER" "i < t div 2 ^ n"
  shows "\<exists>ob'. ob_set_free (obs ! n) i = Some ob' \<and> obs_inv t (obs[n := ob']) \<and>
    fb (obs[n := ob']) = insert (n, i) (fb obs)"
proof -
  note l = obs_inv_lookup [OF assms(1,2)]
  from ob.set_free_ex [of "obs ! n" i] l(3,4) assms(3) obtain ob' where
    ob': "ob_set_free (obs ! n) i = Some ob'" "ob_inv ob'" "ob_num_blocks ob' = t div 2 ^ n"
      "ob_frees ob' = insert i (ob_frees (obs ! n))" by metis
  have "x \<in> fb (obs[n := ob']) \<longleftrightarrow> x \<in> insert (n, i) (fb obs)" for x
    by (cases x) (simp add: fb_update_iff l(2,5) ob'(4))
  with ob'(1-3) assms(1,2) obs_inv_update show ?thesis by blast
qed

lemma obs_set_allocated:
  assumes "obs_inv t obs" "n \<le> MAX_ORDER" "i < t div 2 ^ n"
  shows "\<exists>ob'. ob_set_allocated (obs ! n) i = Some ob' \<and> obs_inv t (obs[n := ob']) \<and>
    fb (obs[n := ob']) = fb obs - {(n, i)}"
proof -
  note l = obs_inv_lookup [OF assms(1,2)]
  from ob.set_allocated_ex [of "obs ! n" i] l(3,4) assms(3) obtain ob' where
    ob': "ob_set_allocated (obs ! n) i = Some ob'" "ob_inv ob'" "ob_num_blocks ob' = t div 2 ^ n"
      "ob_frees ob' = ob_frees (obs ! n) - {i}" by metis
  have "x \<in> fb (obs[n := ob']) \<longleftrightarrow> x \<in> fb obs - {(n, i)}" for x
    by (cases x) (simp add: fb_update_iff l(2,5) ob'(4))
  with ob'(1-3) assms(1,2) obs_inv_update show ?thesis by blast
qed

lemma blk_subset_mult: "blk n i \<subseteq> {..<t} \<longleftrightarrow> i * 2 ^ n + 2 ^ n \<le> t"
proof -
  have "(0::nat) < 2 ^ n" by simp
  then have "i * 2 ^ n < (i + 1) * 2 ^ n" by simp
  then show ?thesis
    unfolding blk_interval lessThan_atLeast0 by (subst ivl_subset) (simp_all add: add.commute)
qed

lemma blk_subset_iff: "blk n i \<subseteq> {..<t} \<longleftrightarrow> i < t div 2 ^ n"
proof -
  have "blk n i \<subseteq> {..<t} \<longleftrightarrow> (i + 1) * 2 ^ n \<le> t" by (simp add: blk_subset_mult add.commute)
  also have "\<dots> \<longleftrightarrow> i + 1 \<le> t div 2 ^ n"
    by (simp add: less_eq_div_iff_mult_less_eq)
  finally show ?thesis by (simp add: Suc_le_eq)
qed

lemma fb_pages_bound: "obs_inv t obs \<Longrightarrow> pages (fb obs) \<subseteq> {..<t}"
  unfolding pages_def by (intro UN_least) (auto dest!: fb_bound simp flip: blk_subset_iff)

lemma half_block_bound: "i < t div 2 ^ Suc n \<longleftrightarrow> 2 * i + 1 < t div (2::nat) ^ n"
proof -
  have "t div 2 ^ Suc n = t div 2 ^ n div 2" by (metis div_mult2_eq power_Suc2)
  moreover have "i < q div 2 \<longleftrightarrow> 2 * i + 1 < q" for q :: nat by presburger
  ultimately show ?thesis by simp
qed

lemma buddies_bound:
  assumes "i < t div 2 ^ n" "i XOR Suc 0 < t div 2 ^ n"
  shows "i div 2 < t div 2 ^ Suc n"
  unfolding half_block_bound using assms by (auto simp: xor_1_cases split: if_splits elim!: evenE oddE)

section \<open>Searching, splitting and merging\<close>

lemma find_order_spec:
  assumes "obs_inv t obs" "n \<le> MAX_ORDER + 1"
  shows "\<exists>m. find_order obs n = Some m \<and> n \<le> m \<and>
    (\<forall>k i. n \<le> k \<longrightarrow> k < m \<longrightarrow> (k, i) \<notin> fb obs) \<and>
    (m \<le> MAX_ORDER \<longrightarrow> (\<exists>i. ob_find_free (obs ! m) = Some i \<and> (m, i) \<in> fb obs))"
  using assms
proof (induction obs n rule: find_order.induct)
  case (1 obs n)
  show ?case
  proof (cases "n \<le> MAX_ORDER")
    case False
    then show ?thesis by (simp add: find_order.simps [of obs n])
  next
    case True
    note l = obs_inv_lookup [OF 1(2) True]
    show ?thesis
    proof (cases "ob_find_free (obs ! n)")
      case None
      with l have n: "(n, i) \<notin> fb obs" for i using ob.find_free_empty by auto
      from 1(1) [OF True l(1)] None 1(2) True obtain m where
        "find_order obs (n + 1) = Some m" "n + 1 \<le> m"
        "\<forall>k i. n + 1 \<le> k \<longrightarrow> k < m \<longrightarrow> (k, i) \<notin> fb obs"
        "m \<le> MAX_ORDER \<longrightarrow> (\<exists>i. ob_find_free (obs ! m) = Some i \<and> (m, i) \<in> fb obs)" by auto
      moreover from this(3) n have "(k, i) \<notin> fb obs" if "n \<le> k" "k < m" for k i
        using that by (cases "k = n") auto
      ultimately show ?thesis
        using True None l(1) by (simp add: find_order.simps [of obs n])
    next
      case (Some i)
      with ob.find_free_least [OF l(3) Some] l True show ?thesis
        by (auto simp: find_order.simps [of obs n])
    qed
  qed
qed

lemma coalesced_insert:
  "coalesced F \<Longrightarrow> (n < MAX_ORDER \<Longrightarrow> (n, i XOR Suc 0) \<notin> F) \<Longrightarrow> coalesced (insert (n, i) F)"
  by (auto simp: coalesced_def)

text \<open>
  Splitting: block \<open>i\<close> of order \<open>cur\<close> is no longer free; the right halves are put back until a
  block of the requested order is left, the leftmost one.
\<close>

lemma split_down_spec:
  assumes "obs_inv t obs" "order \<le> cur" "cur \<le> MAX_ORDER" "i < t div 2 ^ cur"
    "disjoint_blocks (fb obs)" "coalesced (fb obs)" "blk cur i \<inter> pages (fb obs) = {}"
  shows "\<exists>obs' j. split_down obs cur order i = Some (obs', j) \<and> obs_inv t obs' \<and>
    disjoint_blocks (fb obs') \<and> coalesced (fb obs') \<and> blk order j \<subseteq> blk cur i \<and>
    pages (fb obs') = pages (fb obs) \<union> (blk cur i - blk order j)"
  using assms
proof (induction obs cur order i rule: split_down.induct)
  case (1 obs cur order i)
  show ?case
  proof (cases "order < cur")
    case False
    then have "split_down obs cur order i = Some (obs, i)"
      by (simp add: split_down.simps [of obs cur order i])
    moreover from False 1(3) have "order = cur" by simp
    ultimately show ?thesis using 1 by simp
  next
    case True
    then obtain c where c: "cur = Suc c" by (cases cur) auto
    with 1 have cm: "c \<le> MAX_ORDER" "2 * i + 1 < t div 2 ^ c" "order \<le> c"
      using half_block_bound True by auto
    from obs_set_free [OF 1(2) cm(1,2)] obtain ob' where
      ob': "ob_set_free (obs ! c) (2 * i + 1) = Some ob'" "obs_inv t (obs[c := ob'])"
        "fb (obs[c := ob']) = insert (c, 2 * i + 1) (fb obs)" by blast
    have dis: "blk c (2 * i) \<inter> pages (fb obs) = {}" "blk c (2 * i + 1) \<inter> pages (fb obs) = {}"
        "blk c (2 * i) \<inter> blk c (2 * i + 1) = {}"
      using 1(8) by (auto simp: c blk_Suc) (auto simp: blk_def)
    have xor: "(2 * i + 1) XOR Suc 0 = 2 * i" by (simp add: xor_1_cases)
    have "coalesced (fb (obs[c := ob']))"
      unfolding ob'(3) by (rule coalesced_insert [OF 1(7)]) (use not_in_if_disjoint [OF dis(1)] xor in simp)
    moreover have "disjoint_blocks (fb (obs[c := ob']))"
      unfolding ob'(3) by (rule disjoint_blocks_insertI [OF 1(6) dis(2)])
    moreover have "blk c (2 * i) \<inter> pages (fb (obs[c := ob'])) = {}"
      using dis by (auto simp: ob'(3))
    ultimately obtain obs' j where s:
      "split_down (obs[c := ob']) c order (2 * i) = Some (obs', j)" "obs_inv t obs'"
      "disjoint_blocks (fb obs')" "coalesced (fb obs')" "blk order j \<subseteq> blk c (2 * i)"
      "pages (fb obs') = pages (fb (obs[c := ob'])) \<union> (blk c (2 * i) - blk order j)"
      using 1(1) [of "obs ! c" ob'] ob'(1,2) obs_inv_lookup(1) [OF 1(2) cm(1)] True cm
      by (auto simp: c mult.commute)
    have "split_down obs cur order i = Some (obs', j)"
      using s(1) ob'(1) obs_inv_lookup(1) [OF 1(2) cm(1)] True
      by (simp add: split_down.simps [of obs "Suc c" order i] c mult.commute)
    moreover have "pages (fb obs') = pages (fb obs) \<union> (blk cur i - blk order j)"
      using s(5,6) dis(3) by (auto simp: ob'(3) c blk_Suc)
    ultimately show ?thesis using s by (auto simp: c blk_Suc)
  qed
qed

text \<open>
  Merging: while the buddy of the block being freed is free, it is taken off its list and the
  two become one block of the next order.
\<close>

lemma merge_up_spec:
  assumes "obs_inv t obs" "cur \<le> MAX_ORDER" "i < t div 2 ^ cur" "disjoint_blocks (fb obs)"
    "coalesced (fb obs)" "blk cur i \<inter> pages (fb obs) = {}"
  shows "\<exists>obs' c j. merge_up obs cur i = Some (obs', c, j) \<and> obs_inv t obs' \<and> c \<le> MAX_ORDER \<and>
    j < t div 2 ^ c \<and> disjoint_blocks (fb obs') \<and> coalesced (insert (c, j) (fb obs')) \<and>
    blk c j \<inter> pages (fb obs') = {} \<and> pages (fb obs') \<union> blk c j = pages (fb obs) \<union> blk cur i"
  using assms
proof (induction obs cur i rule: merge_up.induct)
  case (1 obs cur i)
  let ?b = "i XOR Suc 0"
  note l = obs_inv_lookup [OF 1(2,3)]
  show ?case
  proof (cases "cur < MAX_ORDER \<and> (cur, ?b) \<in> fb obs")
    case False
    then have "coalesced (insert (cur, i) (fb obs))" by (intro coalesced_insert 1(6)) auto
    moreover have "merge_up obs cur i = Some (obs, cur, i)"
      using False l ob.is_free_eq [OF l(3), of ?b] by (auto simp: merge_up.simps [of obs cur i] Let_def)
    ultimately show ?thesis using 1 by auto
  next
    case True
    then have b: "?b < t div 2 ^ cur" using fb_bound [OF 1(2)] by blast
    from obs_set_allocated [OF 1(2,3) b] obtain ob' where
      ob': "ob_set_allocated (obs ! cur) ?b = Some ob'" "obs_inv t (obs[cur := ob'])"
        "fb (obs[cur := ob']) = fb obs - {(cur, ?b)}" by blast
    have pg: "pages (fb (obs[cur := ob'])) = pages (fb obs) - blk cur ?b"
      unfolding ob'(3) using pages_remove [OF 1(5)] True by blast
    have sub: "blk cur ?b \<subseteq> pages (fb obs)" using True blk_subset_pages by blast
    have dis: "blk (Suc cur) (i div 2) \<inter> pages (fb (obs[cur := ob'])) = {}"
      using 1(7) by (auto simp: blk_Suc_buddies pg)
    have fr: "ob_is_free (obs ! cur) ?b = Some True" using ob.is_free_eq [OF l(3), of ?b] l b True by simp
    have "disjoint_blocks (fb (obs[cur := ob']))" "coalesced (fb (obs[cur := ob']))"
      unfolding ob'(3) using 1(5,6) by (auto intro: disjoint_blocks_subset coalesced_remove)
    with 1(1) [of "obs ! cur" ?b True ob'] True l b ob' fr dis buddies_bound [OF 1(4) b]
    obtain obs' c j where m: "merge_up (obs[cur := ob']) (cur + 1) (i div 2) = Some (obs', c, j)"
      "obs_inv t obs'" "c \<le> MAX_ORDER" "j < t div 2 ^ c" "disjoint_blocks (fb obs')"
      "coalesced (insert (c, j) (fb obs'))" "blk c j \<inter> pages (fb obs') = {}"
      "pages (fb obs') \<union> blk c j = pages (fb (obs[cur := ob'])) \<union> blk (Suc cur) (i div 2)" by auto
    have "merge_up obs cur i = Some (obs', c, j)"
      using m(1) True l(1,4) b fr ob'(1) by (simp add: merge_up.simps [of obs cur i])
    moreover have "pages (fb obs') \<union> blk c j = pages (fb obs) \<union> blk cur i"
      using m(8) sub by (auto simp: pg blk_Suc_buddies)
    ultimately show ?thesis using m by blast
  qed
qed

section \<open>The invariant\<close>

definition free_set :: "buddy \<Rightarrow> nat set" where
  "free_set a = pages (fb (bd_orders a))"

definition alloc_set :: "buddy \<Rightarrow> nat set" where
  "alloc_set a = bm_bits (bd_alloc_map a)"

definition buddy_inv :: "buddy \<Rightarrow> bool" where
  [inv_defs]: "buddy_inv a \<longleftrightarrow>
     obs_inv (bd_total_pages a) (bd_orders a) \<and>
     bd_total_pages a \<le> 64 * length (bd_alloc_map a) \<and>
     disjoint_blocks (fb (bd_orders a)) \<and> coalesced (fb (bd_orders a)) \<and>
     alloc_set a \<subseteq> {..<bd_total_pages a} \<and> free_set a \<inter> alloc_set a = {} \<and>
     bd_free_pages a = card (free_set a) \<and>
     PAGE_SIZE_4K dvd bd_base a \<and> bd_base a + bd_total_pages a * PAGE_SIZE_4K \<le> 2 ^ 64"

lemma free_set_bound: "buddy_inv a \<Longrightarrow> free_set a \<subseteq> {..<bd_total_pages a}"
  unfolding buddy_inv_def free_set_def by (blast dest: fb_pages_bound)

lemma finite_free_set: "buddy_inv a \<Longrightarrow> finite (free_set a)"
  by (rule finite_subset [OF free_set_bound]) simp_all

text \<open>The block that an address and an order name.\<close>

definition page_of :: "buddy \<Rightarrow> phys_addr \<Rightarrow> nat" where
  "page_of a addr = (addr - bd_base a) div PAGE_SIZE_4K"

definition block_addr :: "buddy \<Rightarrow> nat \<Rightarrow> nat \<Rightarrow> phys_addr" where
  "block_addr a n i = bd_base a + i * 2 ^ n * PAGE_SIZE_4K"

lemma page_of_block_addr [simp]: "page_of a (block_addr a n i) = i * 2 ^ n"
  by (simp add: page_of_def block_addr_def PAGE_SIZE_4K_def)

lemma PAGE_SIZE_4K_pow: "PAGE_SIZE_4K = 2 ^ 12"
  by (simp add: PAGE_SIZE_4K_def)

lemma block_addr_uadd:
  assumes "buddy_inv a" "i * 2 ^ n < bd_total_pages a"
  shows "uadd (bd_base a) (i * 2 ^ n * PAGE_SIZE_4K) = Some (block_addr a n i)"
proof -
  from assms(2) have "i * 2 ^ n * PAGE_SIZE_4K < bd_total_pages a * PAGE_SIZE_4K"
    by (simp add: PAGE_SIZE_4K_def)
  moreover from assms(1) have "bd_base a + bd_total_pages a * PAGE_SIZE_4K \<le> 2 ^ 64"
    by (simp add: buddy_inv_def)
  ultimately have "bd_base a + i * 2 ^ n * PAGE_SIZE_4K < 2 ^ 64" by linarith
  then show ?thesis unfolding block_addr_def by (rule uadd_in)
qed

lemma allocate_None_order: "order > MAX_ORDER \<Longrightarrow> allocate a order = Some (Inl OrderTooLarge)"
  by (simp add: allocate_def)

lemma allocate_fails:
  assumes inv: "buddy_inv a" and n: "order \<le> MAX_ORDER"
    and none: "\<forall>k i. order \<le> k \<longrightarrow> (k, i) \<notin> fb (bd_orders a)"
  shows "allocate a order = Some (Inl OutOfMemory)"
proof -
  from inv n find_order_spec [of "bd_total_pages a" "bd_orders a" order] none
  obtain m where "find_order (bd_orders a) order = Some m" "\<not> m \<le> MAX_ORDER"
    by (auto simp: buddy_inv_def)
  with n show ?thesis by (simp add: allocate_def)
qed

lemma allocate_succeeds:
  assumes inv: "buddy_inv a" and n: "order \<le> MAX_ORDER" and ex: "(k, i) \<in> fb (bd_orders a)" "order \<le> k"
  shows "\<exists>j a'. allocate a order = Some (Inr (block_addr a order j, a')) \<and> buddy_inv a' \<and>
    blk order j \<subseteq> free_set a \<and> free_set a' = free_set a - blk order j \<and>
    alloc_set a' = alloc_set a \<union> blk order j \<and> bd_base a' = bd_base a \<and>
    bd_total_pages a' = bd_total_pages a"
proof -
  let ?t = "bd_total_pages a" and ?obs = "bd_orders a"
  from inv have I: "obs_inv ?t ?obs" "disjoint_blocks (fb ?obs)" "coalesced (fb ?obs)"
    by (auto simp: buddy_inv_def)
  have "k \<le> MAX_ORDER" using fb_bound [OF I(1) ex(1)] by simp
  with find_order_spec [OF I(1), of order] n ex obtain m b where
    m: "find_order ?obs order = Some m" "order \<le> m" "m \<le> MAX_ORDER"
    and b: "ob_find_free (?obs ! m) = Some b" "(m, b) \<in> fb ?obs"
    by (metis (full_types) add.commute le_add2 le_trans not_le_imp_less)
  from b fb_bound [OF I(1)] have bt: "b < ?t div 2 ^ m" by blast
  from obs_set_allocated [OF I(1) m(3) bt] obtain ob' where
    ob': "ob_set_allocated (?obs ! m) b = Some ob'" "obs_inv ?t (?obs[m := ob'])"
      "fb (?obs[m := ob']) = fb ?obs - {(m, b)}" by blast
  have pg: "pages (fb (?obs[m := ob'])) = pages (fb ?obs) - blk m b"
    unfolding ob'(3) by (rule pages_remove [OF I(2) b(2)])
  have sub: "blk m b \<subseteq> free_set a" unfolding free_set_def by (rule blk_subset_pages [OF b(2)])
  have "disjoint_blocks (fb (?obs[m := ob']))" "coalesced (fb (?obs[m := ob']))"
    unfolding ob'(3) using I by (auto intro: disjoint_blocks_subset coalesced_remove)
  with split_down_spec [OF ob'(2) m(2,3) bt] pg obtain obs' j where s:
    "split_down (?obs[m := ob']) m order b = Some (obs', j)" "obs_inv ?t obs'"
    "disjoint_blocks (fb obs')" "coalesced (fb obs')" "blk order j \<subseteq> blk m b"
    "pages (fb obs') = pages (fb (?obs[m := ob'])) \<union> (blk m b - blk order j)" by auto
  have j: "blk order j \<subseteq> free_set a" using s(5) sub by blast
  have fs: "pages (fb obs') = free_set a - blk order j"
    using s(5,6) sub unfolding pg free_set_def by blast
  have "blk order j \<subseteq> {..<?t}" using j free_set_bound [OF inv] by blast
  then have jt: "j * 2 ^ order + 2 ^ order \<le> ?t" by (simp only: blk_subset_mult)
  with inv have "j * 2 ^ order + 2 ^ order \<le> 64 * length (bd_alloc_map a)" by (simp add: buddy_inv_def)
  from mark_allocated_ex [OF this] obtain am where am:
    "mark_allocated (bd_alloc_map a) (j * 2 ^ order) (2 ^ order) = Some am"
    "length am = length (bd_alloc_map a)" "bm_bits am = alloc_set a \<union> blk order j"
    by (auto simp: alloc_set_def blk_interval add.commute)
  have "j * 2 ^ order < ?t" using jt zero_less_power [of "2::nat" order] by linarith
  then have ad: "uadd (bd_base a) (j * 2 ^ order * PAGE_SIZE_4K) = Some (block_addr a order j)"
    by (rule block_addr_uadd [OF inv])
  have cnt: "2 ^ order \<le> bd_free_pages a" "card (free_set a - blk order j) = bd_free_pages a - 2 ^ order"
    using inv card_mono [OF finite_free_set [OF inv] j] j by (simp_all add: buddy_inv_def card_Diff_subset)
  let ?a' = "a\<lparr>bd_orders := obs', bd_free_pages := bd_free_pages a - 2 ^ order, bd_alloc_map := am\<rparr>"
  have "allocate a order = Some (Inr (block_addr a order j, ?a'))"
    using n m b ob' s am ad cnt obs_inv_lookup(1) [OF I(1) m(3)] by (simp add: allocate_def)
  moreover have S: "free_set ?a' = free_set a - blk order j" "alloc_set ?a' = alloc_set a \<union> blk order j"
    using fs am by (simp_all add: free_set_def alloc_set_def)
  moreover have "buddy_inv ?a'"
    using inv s am cnt S free_set_bound [OF inv] j unfolding buddy_inv_def by auto
  ultimately show ?thesis using j by auto
qed

section \<open>Freeing\<close>

lemma free_block_eq:
  assumes "buddy_inv a" "n \<le> MAX_ORDER"
  shows "free a (block_addr a n i) n = do {
     al \<leftarrow> is_allocated (bd_alloc_map a) (i * 2 ^ n);
     if \<not> al then Some (Inl DoubleFree)
     else do {
       am \<leftarrow> mark_free (bd_alloc_map a) (i * 2 ^ n) (2 ^ n);
       (obs, cur, j) \<leftarrow> merge_up (bd_orders a) n i;
       ob \<leftarrow> idx obs cur;
       ob' \<leftarrow> ob_set_free ob j;
       Some (Inr (a\<lparr>bd_orders := obs[cur := ob'], bd_alloc_map := am,
                    bd_free_pages := bd_free_pages a + 2 ^ n\<rparr>)) } }"
proof -
  have "is_aligned_usize (block_addr a n i) PAGE_SIZE_4K"
    unfolding PAGE_SIZE_4K_pow is_aligned_usize_eq
    using assms(1) by (simp add: buddy_inv_def block_addr_def PAGE_SIZE_4K_def)
  moreover have "\<not> block_addr a n i < bd_base a" by (simp add: block_addr_def)
  moreover have "(block_addr a n i - bd_base a) div PAGE_SIZE_4K = i * 2 ^ n"
    using page_of_block_addr [of a n i] by (simp only: page_of_def)
  ultimately show ?thesis using assms(2) by (simp add: free_def Let_def cong: if_cong)
qed

lemma free_succeeds:
  assumes inv: "buddy_inv a" and n: "n \<le> MAX_ORDER" and al: "blk n i \<subseteq> alloc_set a"
  shows "\<exists>a'. free a (block_addr a n i) n = Some (Inr a') \<and> buddy_inv a' \<and>
    free_set a' = free_set a \<union> blk n i \<and> alloc_set a' = alloc_set a - blk n i \<and>
    bd_base a' = bd_base a \<and> bd_total_pages a' = bd_total_pages a"
proof -
  let ?t = "bd_total_pages a" and ?obs = "bd_orders a"
  from inv have I: "obs_inv ?t ?obs" "disjoint_blocks (fb ?obs)" "coalesced (fb ?obs)"
    "alloc_set a \<subseteq> {..<?t}" "?t \<le> 64 * length (bd_alloc_map a)" "free_set a \<inter> alloc_set a = {}"
    by (auto simp: buddy_inv_def)
  have bt: "blk n i \<subseteq> {..<?t}" using al I(4) by blast
  then have "i * 2 ^ n + 2 ^ n \<le> 64 * length (bd_alloc_map a)"
    using I(5) by (simp add: blk_subset_mult)
  from mark_free_ex [OF this] obtain am where am:
    "mark_free (bd_alloc_map a) (i * 2 ^ n) (2 ^ n) = Some am" "length am = length (bd_alloc_map a)"
    "bm_bits am = alloc_set a - blk n i" by (auto simp: alloc_set_def blk_interval add.commute)
  have "i * 2 ^ n \<in> alloc_set a" using al blk_first by blast
  then have ia: "is_allocated (bd_alloc_map a) (i * 2 ^ n) = Some True"
    using bm_bits_bounded [of "bd_alloc_map a"] by (subst is_allocated_eq) (auto simp: alloc_set_def)
  have dis: "blk n i \<inter> pages (fb ?obs) = {}" using al I(6) by (auto simp: free_set_def)
  with merge_up_spec [OF I(1) n _ I(2,3) dis] bt obtain obs' c j where m:
    "merge_up ?obs n i = Some (obs', c, j)" "obs_inv ?t obs'" "c \<le> MAX_ORDER" "j < ?t div 2 ^ c"
    "disjoint_blocks (fb obs')" "coalesced (insert (c, j) (fb obs'))"
    "blk c j \<inter> pages (fb obs') = {}" "pages (fb obs') \<union> blk c j = pages (fb ?obs) \<union> blk n i"
    by (auto simp: blk_subset_iff)
  from obs_set_free [OF m(2-4)] obtain ob' where ob': "ob_set_free (obs' ! c) j = Some ob'"
    "obs_inv ?t (obs'[c := ob'])" "fb (obs'[c := ob']) = insert (c, j) (fb obs')" by blast
  let ?a' = "a\<lparr>bd_orders := obs'[c := ob'], bd_alloc_map := am, bd_free_pages := bd_free_pages a + 2 ^ n\<rparr>"
  have "free a (block_addr a n i) n = Some (Inr ?a')"
    using ia am m(1) ob'(1) obs_inv_lookup(1) [OF m(2,3)] by (simp add: free_block_eq [OF inv n])
  moreover have S: "free_set ?a' = free_set a \<union> blk n i" "alloc_set ?a' = alloc_set a - blk n i"
    using m(8) am by (auto simp: free_set_def alloc_set_def ob'(3))
  moreover have "card (free_set a \<union> blk n i) = bd_free_pages a + 2 ^ n"
    using inv dis finite_free_set [OF inv] by (subst card_Un_disjoint) (auto simp: buddy_inv_def free_set_def)
  moreover have "disjoint_blocks (fb (obs'[c := ob']))"
    unfolding ob'(3) by (rule disjoint_blocks_insertI [OF m(5,7)])
  ultimately show ?thesis
    using inv am ob' m(6) I(4-6) bt by (auto simp: buddy_inv_def)
qed

lemma free_not_allocated:
  assumes "buddy_inv a" "n \<le> MAX_ORDER" "i * 2 ^ n < 64 * length (bd_alloc_map a)"
    "i * 2 ^ n \<notin> alloc_set a"
  shows "free a (block_addr a n i) n = Some (Inl DoubleFree)"
  using assms by (simp add: free_block_eq is_allocated_eq alloc_set_def)

section \<open>Adding a region\<close>

lemma largest_order_spec:
  assumes "2 ^ n dvd p" "2 ^ n \<le> r" "n \<le> MAX_ORDER" "m = largest_order p r n"
  shows "2 ^ m dvd p \<and> 2 ^ m \<le> r \<and> m \<le> MAX_ORDER \<and>
    (m < MAX_ORDER \<longrightarrow> \<not> 2 ^ Suc m dvd p \<or> r < 2 ^ Suc m)"
  using assms
proof (induction p r n rule: largest_order.induct)
  case (1 p r n)
  show ?case
  proof (cases "n < MAX_ORDER \<and> 2 ^ Suc n dvd p \<and> 2 ^ Suc n \<le> r")
    case True
    then have "largest_order p r n = largest_order p r (n + 1)"
      by (subst largest_order.simps) (auto simp: dvd_eq_mod_eq_0)
    with 1 True show ?thesis by (simp add: dvd_eq_mod_eq_0)
  next
    case False
    then have "largest_order p r n = n"
      by (subst largest_order.simps) (auto simp: dvd_eq_mod_eq_0)
    with 1 False show ?thesis by auto
  qed
qed

text \<open>
  What makes the greedy decomposition coalesced: a block whose buddy would come next was only
  chosen because the region ends before the end of that buddy.
\<close>

definition greedy :: "nat \<Rightarrow> nat \<Rightarrow> (nat \<times> nat) set \<Rightarrow> bool" where
  "greedy p q F \<longleftrightarrow> coalesced F \<and> pages F \<subseteq> {..<p} \<and>
     (\<forall>m j. (m, j) \<in> F \<longrightarrow> m < MAX_ORDER \<longrightarrow> even j \<longrightarrow> q < (j + 2) * 2 ^ m)"

lemma greedy_insert:
  assumes g: "greedy (i * 2 ^ m) q F" and fit: "i * 2 ^ m + 2 ^ m \<le> q"
    and max: "m < MAX_ORDER \<longrightarrow> even i \<longrightarrow> q < (i + 2) * 2 ^ m"
  shows "greedy (i * 2 ^ m + 2 ^ m) q (insert (m, i) F)"
proof -
  have "(m, i XOR Suc 0) \<notin> F" if m: "m < MAX_ORDER"
  proof
    assume b: "(m, i XOR Suc 0) \<in> F"
    show False
    proof (cases "even i")
      case True
      with b have "blk m (i + 1) \<subseteq> {..<i * 2 ^ m}"
        using g blk_subset_pages [of m "i + 1" F] by (auto simp: xor_1_cases greedy_def)
      then show False using blk_first [of "i + 1" m] by auto
    next
      case False
      then obtain k where k: "i = Suc (2 * k)" by (auto elim: oddE)
      with b have "(m, 2 * k) \<in> F" by (simp add: xor_1_cases)
      with g m have "q < (2 * k + 2) * 2 ^ m" unfolding greedy_def by (metis dvd_triv_left)
      with fit k show False by simp
    qed
  qed
  then have "coalesced (insert (m, i) F)" using g by (intro coalesced_insert) (auto simp: greedy_def)
  moreover have "pages (insert (m, i) F) \<subseteq> {..<i * 2 ^ m + 2 ^ m}"
    using g by (auto simp: greedy_def blk_interval)
  ultimately show ?thesis using g max by (auto simp: greedy_def)
qed

lemma afr_loop_step:
  fixes P :: nat
  defines "P \<equiv> PAGE_SIZE_4K"
  assumes "P > 0" "p < q"
  shows "afr_loop a (bd_base a + p * P) (bd_base a + q * P) =
     (let order = largest_order p (q - p) 0 in do {
        ob \<leftarrow> idx (bd_orders a) order;
        ob' \<leftarrow> ob_set_free ob (p div 2 ^ order);
        afr_loop (a\<lparr>bd_orders := (bd_orders a)[order := ob'],
                    bd_free_pages := bd_free_pages a + 2 ^ order\<rparr>)
          (bd_base a + (p + 2 ^ order) * P) (bd_base a + q * P) })"
proof -
  have "bd_base a + q * P - (bd_base a + p * P) = (q - p) * P"
    by (simp add: diff_mult_distrib)
  then have "(bd_base a + q * P - (bd_base a + p * P)) div P = q - p" using assms by simp
  moreover have "usub (bd_base a + p * P) (bd_base a) = Some (p * P)" by simp
  moreover have "p * P div P = p" "bd_base a + p * P < bd_base a + q * P" using assms by simp_all
  moreover have eq: "bd_base a + p * P + k * P = bd_base a + (p + k) * P" for k
    by (simp add: algebra_simps)
  ultimately show ?thesis
    by (subst afr_loop.simps) (simp add: Let_def P_def [symmetric] eq)
qed

lemma afr_loop_spec:
  assumes "obs_inv (bd_total_pages a) (bd_orders a)" "disjoint_blocks (fb (bd_orders a))"
    "p \<le> q" "q \<le> bd_total_pages a" "{p..<q} \<inter> free_set a = {}"
  shows "\<exists>a'. afr_loop a (bd_base a + p * PAGE_SIZE_4K) (bd_base a + q * PAGE_SIZE_4K) = Some a' \<and>
    obs_inv (bd_total_pages a) (bd_orders a') \<and> disjoint_blocks (fb (bd_orders a')) \<and>
    free_set a' = free_set a \<union> {p..<q} \<and>
    a' = a\<lparr>bd_orders := bd_orders a', bd_free_pages := bd_free_pages a + (q - p)\<rparr> \<and>
    (greedy p q (fb (bd_orders a)) \<longrightarrow> greedy q q (fb (bd_orders a')))"
  using assms
proof (induction "q - p" arbitrary: a p rule: less_induct)
  case less
  let ?P = PAGE_SIZE_4K and ?t = "bd_total_pages a"
  have P: "?P > 0" by (simp add: PAGE_SIZE_4K_def)
  show ?case
  proof (cases "p < q")
    case False
    with less.prems P show ?thesis by (subst afr_loop.simps) simp
  next
    case True
    define m where "m = largest_order p (q - p) 0"
    have m: "2 ^ m dvd p" "2 ^ m \<le> q - p" "m \<le> MAX_ORDER"
        "m < MAX_ORDER \<longrightarrow> \<not> 2 ^ Suc m dvd p \<or> q - p < 2 ^ Suc m"
      using largest_order_spec [of 0 p "q - p" m] True by (simp_all add: m_def)
    define i where "i = p div 2 ^ m"
    have p: "p = i * 2 ^ m" using m(1) by (simp add: i_def)
    have blk: "blk m i = {p..<p + 2 ^ m}" by (simp add: blk_interval p add.commute)
    have it: "i < ?t div 2 ^ m"
      unfolding blk_subset_iff [symmetric] blk using m(2) less.prems(4) True by auto
    from obs_set_free [OF less.prems(1) m(3) it] obtain ob' where ob':
      "ob_set_free (bd_orders a ! m) i = Some ob'" "obs_inv ?t ((bd_orders a)[m := ob'])"
      "fb ((bd_orders a)[m := ob']) = insert (m, i) (fb (bd_orders a))" by blast
    let ?a = "a\<lparr>bd_orders := (bd_orders a)[m := ob'], bd_free_pages := bd_free_pages a + 2 ^ m\<rparr>"
    have fs: "free_set ?a = free_set a \<union> {p..<p + 2 ^ m}" by (auto simp: free_set_def ob'(3) blk)
    have "{p..<p + 2 ^ m} \<inter> free_set a = {}" using less.prems(5) m(2) True by fastforce
    then have "disjoint_blocks (fb (bd_orders ?a))"
      using disjoint_blocks_insertI [OF less.prems(2)] by (simp add: ob'(3) blk free_set_def)
    moreover have "q - (p + 2 ^ m) < q - p" "p + 2 ^ m \<le> q"
      using m(2) True by (simp_all add: diff_less_mono2)
    moreover have "{p + 2 ^ m..<q} \<inter> free_set ?a = {}"
      using less.prems(5) unfolding fs disjoint_iff by (auto dest: add_leD1)
    ultimately obtain a' where a':
      "afr_loop ?a (bd_base a + (p + 2 ^ m) * ?P) (bd_base a + q * ?P) = Some a'"
      "obs_inv ?t (bd_orders a')" "disjoint_blocks (fb (bd_orders a'))"
      "free_set a' = free_set ?a \<union> {p + 2 ^ m..<q}"
      "a' = ?a\<lparr>bd_orders := bd_orders a', bd_free_pages := bd_free_pages ?a + (q - (p + 2 ^ m))\<rparr>"
      "greedy (p + 2 ^ m) q (insert (m, i) (fb (bd_orders a))) \<longrightarrow> greedy q q (fb (bd_orders a'))"
      using less.hyps [of "p + 2 ^ m" ?a] less.prems(4) ob'(2) by (auto simp: ob'(3))
    have "afr_loop a (bd_base a + p * ?P) (bd_base a + q * ?P) = Some a'"
      using a'(1) ob'(1) obs_inv_lookup(1) [OF less.prems(1) m(3)]
      by (simp add: afr_loop_step [OF P True, of a, folded m_def] i_def [symmetric])
    moreover have "{p..<p + 2 ^ m} \<union> {p + 2 ^ m..<q} = {p..<q}"
      using m(2) True by (intro ivl_disj_un_two(3)) simp_all
    then have "free_set a' = free_set a \<union> {p..<q}" by (simp add: a'(4) fs Un_assoc)
    moreover have "greedy (p + 2 ^ m) q (insert (m, i) (fb (bd_orders a)))"
      if "greedy p q (fb (bd_orders a))"
    proof -
      have "q < (i + 2) * 2 ^ m" if "m < MAX_ORDER" "even i"
      proof -
        from that(2) have "2 ^ Suc m dvd p" by (auto simp: p elim!: evenE)
        with m(4) that(1) have "q - p < 2 * 2 ^ m" by simp
        moreover have "(i + 2) * 2 ^ m = p + 2 * 2 ^ m" by (simp add: p algebra_simps)
        ultimately show ?thesis using True by linarith
      qed
      moreover have "p + 2 ^ m \<le> q" using m(2) True by linarith
      ultimately show ?thesis
        using greedy_insert [of i m q, folded p] that by blast
    qed
    moreover have "a' = a\<lparr>bd_orders := bd_orders a', bd_free_pages := bd_free_pages a + (q - p)\<rparr>"
      using m(2) True by (subst a'(5)) simp
    ultimately show ?thesis using a'(2,3,6) by (intro exI [of _ a'] conjI) simp_all
  qed
qed

text \<open>The start-up sequence: a new allocator, initialised, with the whole range added as free.\<close>

definition buddy_boot :: "nat \<Rightarrow> phys_addr \<Rightarrow> nat \<Rightarrow> buddy option" where
  "buddy_boot max_pages base sz = do {
     a \<leftarrow> buddy_init (buddy_new max_pages) base sz;
     add_free_region a base sz }"

lemma buddy_init_new:
  assumes "PAGE_SIZE_4K dvd base" "sz div PAGE_SIZE_4K \<le> max_pages"
  shows "\<exists>a. buddy_init (buddy_new max_pages) base sz = Some a \<and> bd_base a = base \<and>
    bd_total_pages a = sz div PAGE_SIZE_4K \<and> obs_inv (bd_total_pages a) (bd_orders a) \<and>
    fb (bd_orders a) = {} \<and> alloc_set a = {} \<and> bd_free_pages a = 0 \<and>
    bd_total_pages a \<le> 64 * length (bd_alloc_map a)"
proof -
  have cap: "max_pages \<le> 64 * bitmap_words max_pages" by (simp add: bitmap_words_def)
  have "sz div PAGE_SIZE_4K div 2 ^ n \<le> 64 * bitmap_words max_pages" for n
    using assms(2) cap by (meson div_le_dividend le_trans)
  moreover have "is_aligned_usize base PAGE_SIZE_4K"
    using assms(1) unfolding PAGE_SIZE_4K_pow is_aligned_usize_eq .
  ultimately show ?thesis
    using assms(2) cap
    by (auto simp: buddy_init_def buddy_new_def obs_inv_def ob_inv_def ob_new_def ob_frees_def fb_def
        alloc_set_def Let_def)
qed

lemma add_free_region_eq:
  assumes "PAGE_SIZE_4K dvd start" "sz < 2 ^ 64" "start + sz < 2 ^ 64"
  shows "add_free_region a start sz =
    (if sz = 0 then Some a else afr_loop a start (start + sz div PAGE_SIZE_4K * PAGE_SIZE_4K))"
proof -
  have al: "is_aligned_usize start PAGE_SIZE_4K"
    using assms(1) unfolding PAGE_SIZE_4K_pow is_aligned_usize_eq .
  have sz: "align_down_usize sz PAGE_SIZE_4K = sz div PAGE_SIZE_4K * PAGE_SIZE_4K"
    using align_down_usize_eq [OF assms(2), of 12] by (simp add: PAGE_SIZE_4K_def minus_mod_eq_div_mult)
  have "sz div PAGE_SIZE_4K * PAGE_SIZE_4K \<le> sz" by (rule div_times_less_eq_dividend)
  then have "start + sz div PAGE_SIZE_4K * PAGE_SIZE_4K < 2 ^ 64" using assms(3) by linarith
  then have "uadd start (sz div PAGE_SIZE_4K * PAGE_SIZE_4K) =
      Some (start + sz div PAGE_SIZE_4K * PAGE_SIZE_4K)" by (rule uadd_in)
  then show ?thesis by (simp add: add_free_region_def al sz)
qed

lemma buddy_boot_spec:
  assumes "PAGE_SIZE_4K dvd base" "sz div PAGE_SIZE_4K \<le> max_pages" "base + sz < 2 ^ 64"
  shows "\<exists>a. buddy_boot max_pages base sz = Some a \<and> buddy_inv a \<and>
    free_set a = {..<sz div PAGE_SIZE_4K} \<and> alloc_set a = {} \<and> bd_base a = base"
proof -
  let ?t = "sz div PAGE_SIZE_4K"
  from buddy_init_new [OF assms(1,2)] obtain a where
    i: "buddy_init (buddy_new max_pages) base sz = Some a" and a: "bd_base a = base"
      "bd_total_pages a = ?t" "obs_inv ?t (bd_orders a)" "fb (bd_orders a) = {}" "alloc_set a = {}"
      "bd_free_pages a = 0" "?t \<le> 64 * length (bd_alloc_map a)" by metis
  have top: "base + ?t * PAGE_SIZE_4K \<le> 2 ^ 64"
    using assms(3) div_times_less_eq_dividend [of sz PAGE_SIZE_4K] by linarith
  have g: "greedy 0 ?t {}" "disjoint_blocks {}" "free_set a = {}"
    by (simp_all add: greedy_def coalesced_def disjoint_blocks_def free_set_def a)
  with afr_loop_spec [of a 0 ?t] a obtain a' where a':
    "afr_loop a base (base + ?t * PAGE_SIZE_4K) = Some a'" "obs_inv ?t (bd_orders a')"
    "disjoint_blocks (fb (bd_orders a'))" "free_set a' = {..<?t}"
    "a' = a\<lparr>bd_orders := bd_orders a', bd_free_pages := ?t\<rparr>" "coalesced (fb (bd_orders a'))"
    by (auto simp: greedy_def lessThan_atLeast0)
  have sz: "sz < 2 ^ 64" using assms(3) by linarith
  have "buddy_boot max_pages base sz = Some a'"
  proof (cases "sz = 0")
    case True
    then have "a' = a" using a'(1) by (simp add: afr_loop.simps)
    with True i show ?thesis by (simp add: buddy_boot_def add_free_region_def)
  next
    case False
    with i a'(1) show ?thesis by (simp add: buddy_boot_def add_free_region_eq [OF assms(1) sz assms(3)])
  qed
  moreover have fields: "bd_total_pages a' = ?t" "bd_alloc_map a' = bd_alloc_map a"
      "bd_free_pages a' = ?t" "bd_base a' = base"
    using a by (subst a'(5), simp)+
  moreover have "alloc_set a' = {}" using a(5) by (simp add: alloc_set_def fields)
  ultimately show ?thesis using a' a top assms(1) by (auto simp: buddy_inv_def)
qed

section \<open>The interface of a page allocator\<close>

text \<open>
  What the rest of the kernel relies on: a set of free and a set of allocated pages, from which
  and to which \<open>alloc\<close> and \<open>release\<close> move naturally aligned blocks.
\<close>

locale page_allocator =
  fixes inv :: "'a \<Rightarrow> bool"
    and frees :: "'a \<Rightarrow> nat set"
    and allocs :: "'a \<Rightarrow> nat set"
    and addr_of :: "'a \<Rightarrow> nat \<Rightarrow> nat \<Rightarrow> phys_addr"
    and index_of :: "'a \<Rightarrow> phys_addr \<Rightarrow> nat \<Rightarrow> nat"
    and alloc :: "'a \<Rightarrow> nat \<Rightarrow> (mem_error, phys_addr \<times> 'a) result option"
    and release :: "'a \<Rightarrow> phys_addr \<Rightarrow> nat \<Rightarrow> (mem_error, 'a) result option"
  assumes frees_allocs_disjoint: "inv a \<Longrightarrow> frees a \<inter> allocs a = {}"
    and index_of_addr_of: "index_of a (addr_of a n i) n = i"
    and alloc_cases: "inv a \<Longrightarrow> n \<le> MAX_ORDER \<Longrightarrow>
      alloc a n = Some (Inl OutOfMemory) \<and> (\<forall>i. \<not> blk n i \<subseteq> frees a) \<or>
      (\<exists>i a'. alloc a n = Some (Inr (addr_of a n i, a')) \<and> inv a' \<and> addr_of a' = addr_of a \<and>
        blk n i \<subseteq> frees a \<and> frees a' = frees a - blk n i \<and> allocs a' = allocs a \<union> blk n i)"
    and alloc_order: "MAX_ORDER < n \<Longrightarrow> alloc a n = Some (Inl OrderTooLarge)"
    and release_ok: "inv a \<Longrightarrow> n \<le> MAX_ORDER \<Longrightarrow> blk n i \<subseteq> allocs a \<Longrightarrow>
      \<exists>a'. release a (addr_of a n i) n = Some (Inr a') \<and> inv a' \<and> addr_of a' = addr_of a \<and>
        frees a' = frees a \<union> blk n i \<and> allocs a' = allocs a - blk n i"
    and release_unallocated: "inv a \<Longrightarrow> n \<le> MAX_ORDER \<Longrightarrow> blk n i \<subseteq> frees a \<Longrightarrow>
      release a (addr_of a n i) n = Some (Inl DoubleFree)"
begin

lemma alloc_InrD:
  assumes "inv a" "alloc a n = Some (Inr (x, a'))"
  shows "n \<le> MAX_ORDER \<and> (\<exists>i. x = addr_of a n i \<and> inv a' \<and> addr_of a' = addr_of a \<and>
    blk n i \<subseteq> frees a \<and> frees a' = frees a - blk n i \<and> allocs a' = allocs a \<union> blk n i)"
proof -
  have "n \<le> MAX_ORDER" using alloc_order [of n a] assms(2) by (cases "n \<le> MAX_ORDER") auto
  with alloc_cases [OF assms(1), of n] assms(2) show ?thesis by auto
qed

lemma release_InrD:
  assumes "inv a" "n \<le> MAX_ORDER" "blk n i \<subseteq> allocs a" "release a (addr_of a n i) n = Some (Inr a')"
  shows "inv a' \<and> addr_of a' = addr_of a \<and> frees a' = frees a \<union> blk n i \<and> allocs a' = allocs a - blk n i"
  using release_ok [OF assms(1-3)] assms(4) by auto

lemma alloc_release:
  assumes "inv a" "alloc a n = Some (Inr (x, a'))"
  shows "\<exists>a''. release a' x n = Some (Inr a'') \<and> inv a'' \<and> frees a'' = frees a \<and> allocs a'' = allocs a"
proof -
  from alloc_InrD [OF assms] obtain i where n: "n \<le> MAX_ORDER" and i: "x = addr_of a' n i" "inv a'"
    "blk n i \<subseteq> frees a" "frees a' = frees a - blk n i" "allocs a' = allocs a \<union> blk n i" by auto
  with release_ok [OF i(2) n, of i] obtain a'' where "release a' x n = Some (Inr a'')" "inv a''"
    "frees a'' = frees a' \<union> blk n i" "allocs a'' = allocs a' - blk n i" by auto
  moreover have "blk n i \<inter> allocs a = {}" using i(3) frees_allocs_disjoint [OF assms(1)] by blast
  ultimately show ?thesis using i(3-5) by auto
qed

lemma release_twice:
  assumes "inv a" "n \<le> MAX_ORDER" "blk n i \<subseteq> allocs a" "release a (addr_of a n i) n = Some (Inr a')"
  shows "release a' (addr_of a n i) n = Some (Inl DoubleFree)"
  using release_InrD [OF assms] release_unallocated [of a' n i] assms(2) by auto

end

interpretation pa: page_allocator buddy_inv free_set alloc_set block_addr
  "\<lambda>a x n. page_of a x div 2 ^ n" allocate free
proof unfold_locales
  fix a :: buddy and n i
  show "page_of a (block_addr a n i) div 2 ^ n = i" by simp
  show "MAX_ORDER < n \<Longrightarrow> allocate a n = Some (Inl OrderTooLarge)" by (rule allocate_None_order)
  assume inv: "buddy_inv a"
  then show "free_set a \<inter> alloc_set a = {}" by (simp add: buddy_inv_def)
  assume n: "n \<le> MAX_ORDER"
  have ba: "bd_base a' = bd_base a \<Longrightarrow> block_addr a' = block_addr a" for a'
    by (intro ext) (simp add: block_addr_def)
  show "allocate a n = Some (Inl OutOfMemory) \<and> (\<forall>i. \<not> blk n i \<subseteq> free_set a) \<or>
    (\<exists>i a'. allocate a n = Some (Inr (block_addr a n i, a')) \<and> buddy_inv a' \<and>
      block_addr a' = block_addr a \<and> blk n i \<subseteq> free_set a \<and>
      free_set a' = free_set a - blk n i \<and> alloc_set a' = alloc_set a \<union> blk n i)"
  proof (cases "\<exists>k i. n \<le> k \<and> (k, i) \<in> fb (bd_orders a)")
    case True
    with allocate_succeeds [OF inv n] ba show ?thesis by blast
  next
    case False
    then have "\<not> blk n i \<subseteq> free_set a" for i
      using aligned_run_in_block [of "fb (bd_orders a)" n i] inv n by (auto simp: buddy_inv_def free_set_def)
    with False allocate_fails [OF inv n] show ?thesis by blast
  qed
  show "\<exists>a'. free a (block_addr a n i) n = Some (Inr a') \<and> buddy_inv a' \<and>
      block_addr a' = block_addr a \<and> free_set a' = free_set a \<union> blk n i \<and>
      alloc_set a' = alloc_set a - blk n i" if "blk n i \<subseteq> alloc_set a"
    using free_succeeds [OF inv n that] ba by blast
  show "free a (block_addr a n i) n = Some (Inl DoubleFree)" if "blk n i \<subseteq> free_set a"
  proof (rule free_not_allocated [OF inv n])
    have "i * 2 ^ n \<in> free_set a" using that blk_first by blast
    then show "i * 2 ^ n \<notin> alloc_set a" "i * 2 ^ n < 64 * length (bd_alloc_map a)"
      using inv free_set_bound [OF inv] by (auto simp: buddy_inv_def)
  qed
qed

section \<open>Runs of a client\<close>

text \<open>
  A client that frees only blocks it holds: \<open>H\<close> is the set of blocks (order and index) handed out
  and not yet given back.
\<close>

inductive buddy_run :: "buddy \<Rightarrow> buddy \<Rightarrow> (nat \<times> nat) set \<Rightarrow> bool" for a0 where
  run_start: "buddy_run a0 a0 {}"
| run_alloc: "buddy_run a0 a H \<Longrightarrow> allocate a n = Some (Inr (x, a')) \<Longrightarrow>
    buddy_run a0 a' (insert (n, page_of a x div 2 ^ n) H)"
| run_free: "buddy_run a0 a H \<Longrightarrow> (n, i) \<in> H \<Longrightarrow> free a (block_addr a n i) n = Some (Inr a') \<Longrightarrow>
    buddy_run a0 a' (H - {(n, i)})"

definition holds :: "buddy \<Rightarrow> buddy \<Rightarrow> (nat \<times> nat) set \<Rightarrow> bool" where
  "holds a0 a H \<longleftrightarrow> buddy_inv a \<and> disjoint_blocks H \<and> (\<forall>(n, i) \<in> H. n \<le> MAX_ORDER) \<and>
     pages H = alloc_set a \<and> free_set a \<inter> pages H = {} \<and> free_set a \<union> pages H = free_set a0"

lemma holds_alloc:
  assumes h: "holds a0 a H" and al: "allocate a n = Some (Inr (x, a'))"
  shows "holds a0 a' (insert (n, page_of a x div 2 ^ n) H)"
proof -
  from h have inv: "buddy_inv a" by (simp add: holds_def)
  from pa.alloc_InrD [OF inv al] obtain i where
    i: "n \<le> MAX_ORDER" "x = block_addr a n i" "buddy_inv a'" "blk n i \<subseteq> free_set a"
      "free_set a' = free_set a - blk n i" "alloc_set a' = alloc_set a \<union> blk n i" by auto
  then have idx: "page_of a x div 2 ^ n = i" by simp
  have "blk n i \<inter> pages H = {}" using h i(4) by (auto simp: holds_def)
  then have "disjoint_blocks (insert (n, i) H)" using h by (intro disjoint_blocks_insertI) (simp_all add: holds_def)
  with h i show ?thesis unfolding idx holds_def by auto
qed

lemma holds_free_ex:
  assumes "holds a0 a H" "(n, i) \<in> H"
  shows "\<exists>a'. free a (block_addr a n i) n = Some (Inr a') \<and> holds a0 a' (H - {(n, i)})"
proof -
  from assms have h: "buddy_inv a" "n \<le> MAX_ORDER" "blk n i \<subseteq> alloc_set a" "disjoint_blocks H"
    using blk_subset_pages [OF assms(2)] by (auto simp: holds_def)
  from pa.release_ok [OF h(1-3)] obtain a' where
    a': "free a (block_addr a n i) n = Some (Inr a')" "buddy_inv a'"
      "free_set a' = free_set a \<union> blk n i" "alloc_set a' = alloc_set a - blk n i" by blast
  have "pages (H - {(n, i)}) = pages H - blk n i" by (rule pages_remove [OF h(4) assms(2)])
  with a' h assms(1) disjoint_blocks_subset [OF h(4), of "H - {(n, i)}"] show ?thesis
    by (intro exI [of _ a']) (auto simp: holds_def)
qed

lemma buddy_run_holds:
  assumes "buddy_run a0 a H" "buddy_inv a0" "alloc_set a0 = {}"
  shows "holds a0 a H"
  using assms
proof induction
  case run_start
  then show ?case by (simp add: holds_def disjoint_blocks_def)
next
  case (run_alloc a H n x a')
  then show ?case by (blast intro: holds_alloc)
next
  case (run_free a H n i a')
  then show ?case using holds_free_ex [of a0 a H n i] by auto
qed

lemma boot_16_pages:
  "\<exists>a. buddy_boot 64 0 65536 = Some a \<and> buddy_inv a \<and> free_set a = {..<16} \<and> alloc_set a = {}"
  using buddy_boot_spec [of 0 65536 64] by (auto simp: PAGE_SIZE_4K_def)

section \<open>Properties\<close>

text \<open>
  C4. In every state the allocator can reach from a state with no allocated pages, through any
  interleaving of allocations and frees of held blocks, the blocks in use are pairwise disjoint,
  no page of them is on a free list, no page of the original free memory is lost, and freeing
  any block in use succeeds.
\<close>

theorem buddy_live_blocks_safe:
  assumes "buddy_inv a0" "alloc_set a0 = {}" "buddy_run a0 a H"
  shows "disjoint_blocks H \<and> free_set a \<inter> pages H = {} \<and> free_set a \<union> pages H = free_set a0 \<and>
    bd_free_pages a = card (free_set a) \<and>
    (\<forall>(n, i) \<in> H. \<exists>a'. free a (block_addr a n i) n = Some (Inr a') \<and> buddy_run a0 a' (H - {(n, i)}))"
proof -
  from buddy_run_holds [OF assms(3,1,2)] have h: "holds a0 a H" .
  have "\<exists>a'. free a (block_addr a n i) n = Some (Inr a') \<and> buddy_run a0 a' (H - {(n, i)})"
    if "(n, i) \<in> H" for n i
    using holds_free_ex [OF h that] run_free [OF assms(3) that] by blast
  with h show ?thesis by (auto simp: holds_def buddy_inv_def)
qed

theorem buddy_live_blocks_safe_witness:
  "\<exists>a0 a x. buddy_boot 64 0 65536 = Some a0 \<and> allocate a0 2 = Some (Inr (x, a)) \<and>
     free_set a \<inter> pages {(2, page_of a0 x div 4)} = {} \<and>
     free_set a \<union> pages {(2, page_of a0 x div 4)} = {..<16}"
proof -
  from boot_16_pages obtain a0 where a0: "buddy_boot 64 0 65536 = Some a0" "buddy_inv a0"
    "free_set a0 = {..<16}" "alloc_set a0 = {}" by blast
  have "blk 2 0 \<subseteq> free_set a0" by (auto simp: a0 blk_interval)
  moreover have "(2::nat) \<le> MAX_ORDER" by (simp add: MAX_ORDER_def)
  ultimately obtain x a where x: "allocate a0 2 = Some (Inr (x, a))"
    using pa.alloc_cases [OF a0(2), of 2] by blast
  have "buddy_run a0 a {(2, page_of a0 x div 2 ^ 2)}" by (rule run_alloc [OF run_start x])
  from buddy_live_blocks_safe [OF a0(2,4) this] a0(1,3) x show ?thesis by auto
qed

text \<open>
  C14. Allocation is total and exact: it never panics; it fails with \<open>OutOfMemory\<close> exactly when
  no naturally aligned run of \<open>2 ^ n\<close> pages is free; otherwise it returns the address of such a
  run, moves exactly its pages from the free to the allocated set and preserves the invariant.
\<close>

theorem allocate_exact:
  assumes "buddy_inv a" "n \<le> MAX_ORDER"
  shows "(allocate a n = Some (Inl OutOfMemory) \<longleftrightarrow> (\<forall>i. \<not> blk n i \<subseteq> free_set a)) \<and>
    ((\<exists>i. blk n i \<subseteq> free_set a) \<longrightarrow>
      (\<exists>i a'. allocate a n = Some (Inr (block_addr a n i, a')) \<and> blk n i \<subseteq> free_set a \<and>
        free_set a' = free_set a - blk n i \<and> alloc_set a' = alloc_set a \<union> blk n i \<and> buddy_inv a'))"
  using pa.alloc_cases [OF assms] by auto

theorem allocate_exact_witness:
  "\<exists>a0 i a. buddy_boot 64 0 65536 = Some a0 \<and> allocate a0 4 = Some (Inr (block_addr a0 4 i, a)) \<and>
     free_set a = {..<16} - blk 4 i \<and> allocate a0 5 = Some (Inl OutOfMemory)"
proof -
  from boot_16_pages obtain a0 where a0: "buddy_boot 64 0 65536 = Some a0" "buddy_inv a0"
    "free_set a0 = {..<16}" by blast
  have "blk 4 0 \<subseteq> free_set a0" by (auto simp: a0 blk_interval)
  with allocate_exact [OF a0(2), of 4] a0 obtain i a where
    "allocate a0 4 = Some (Inr (block_addr a0 4 i, a))" "free_set a = {..<16} - blk 4 i"
    by (auto simp: MAX_ORDER_def)
  moreover have "\<not> blk 5 i \<subseteq> free_set a0" for i unfolding a0 by (simp add: blk_subset_mult)
  then have "allocate a0 5 = Some (Inl OutOfMemory)"
    using allocate_exact [OF a0(2), of 5] by (simp add: MAX_ORDER_def)
  ultimately show ?thesis using a0(1) by blast
qed

text \<open>
  Freeing what was just allocated restores the allocator's memory: the free and the allocated
  pages are again those before the allocation, merging included, and a second free of the same
  block is reported as a double free.
\<close>

theorem allocate_free_roundtrip:
  assumes "buddy_inv a" "allocate a n = Some (Inr (x, a'))"
  shows "\<exists>a''. free a' x n = Some (Inr a'') \<and> buddy_inv a'' \<and> free_set a'' = free_set a \<and>
    alloc_set a'' = alloc_set a \<and> free a'' x n = Some (Inl DoubleFree)"
proof -
  from pa.alloc_InrD [OF assms] obtain i where i: "n \<le> MAX_ORDER" "x = block_addr a' n i"
    "buddy_inv a'" "blk n i \<subseteq> alloc_set a'" by auto
  moreover from pa.alloc_release [OF assms] obtain a'' where "free a' x n = Some (Inr a'')"
    "buddy_inv a''" "free_set a'' = free_set a" "alloc_set a'' = alloc_set a" by blast
  ultimately show ?thesis using pa.release_twice [of a' n i a''] by auto
qed

theorem allocate_free_roundtrip_witness:
  "\<exists>a0 x a a'. buddy_boot 64 0 65536 = Some a0 \<and> allocate a0 0 = Some (Inr (x, a)) \<and>
     free a x 0 = Some (Inr a') \<and> free_set a' = {..<16} \<and> free a' x 0 = Some (Inl DoubleFree)"
proof -
  from boot_16_pages obtain a0 where a0: "buddy_boot 64 0 65536 = Some a0" "buddy_inv a0"
    "free_set a0 = {..<16}" by blast
  have "blk 0 0 \<subseteq> free_set a0" by (auto simp: a0)
  then obtain x a where x: "allocate a0 0 = Some (Inr (x, a))"
    using pa.alloc_cases [OF a0(2), of 0] by blast
  from allocate_free_roundtrip [OF a0(2) x] a0 x show ?thesis by auto
qed

text \<open>
  Start-up hands over the whole range: after \<open>init\<close> and \<open>add_free_region\<close> on the same range
  every page of it is free, none is allocated, the invariant holds, and no step panics, for
  every page-aligned base and every size the bitmaps can describe.
\<close>

theorem buddy_boot_establishes_inv:
  assumes "PAGE_SIZE_4K dvd base" "sz div PAGE_SIZE_4K \<le> max_pages" "base + sz < 2 ^ 64"
  shows "\<exists>a. buddy_boot max_pages base sz = Some a \<and> buddy_inv a \<and>
    free_set a = {..<sz div PAGE_SIZE_4K} \<and> alloc_set a = {} \<and> bd_free_pages a = sz div PAGE_SIZE_4K"
  using buddy_boot_spec [OF assms] by (auto simp: buddy_inv_def)

theorem buddy_boot_establishes_inv_witness:
  "\<exists>a. buddy_boot 262144 4194304 28672 = Some a \<and> buddy_inv a \<and> free_set a = {..<7}"
  using buddy_boot_establishes_inv [of 4194304 28672 262144] by (auto simp: PAGE_SIZE_4K_def)

text \<open>
  The order given to \<open>free\<close> is not checked against the block: only the first page has to be
  allocated. Freeing one allocated page as a block of two succeeds although its neighbour is
  free already, and then the page counter exceeds the number of pages that exist.
\<close>

theorem free_larger_order_accepted:
  "(case buddy_boot 64 0 8192 of Some a0 \<Rightarrow>
      (case allocate a0 0 of Some (Inr (x, a)) \<Rightarrow>
         (case free a x 1 of Some (Inr a') \<Rightarrow> (bd_free_pages a', bd_total_pages a') | _ \<Rightarrow> (0, 0))
       | _ \<Rightarrow> (0, 0))
    | _ \<Rightarrow> (0, 0)) = (3, 2)"
  by code_simp

end
