(* ===== verification/Slab.thy ===== *)
theory Slab
  imports Mem_Types
begin

text \<open>
  The slab allocator (\<open>kernel/src/mem/slab.rs\<close>). Its free lists live in the pages it manages, so the
  model has a store: \<open>word_at\<close> are the 8-byte words (the \<open>free_list\<close> of the header at the start of a
  page and the link in the first 8 bytes of a free object) and \<open>half_at\<close> the 16-bit fields of the
  header. The two are at different addresses, because objects start behind the 16 bytes of the
  header. The null pointer is 0.
\<close>

section \<open>Operations\<close>

definition SIZE_CLASSES :: "nat list" where
  "SIZE_CLASSES = [16, 32, 64, 128, 256, 512, 1024, 2048]"

definition NUM_CLASSES :: nat where
  "NUM_CLASSES = length SIZE_CLASSES"

definition MAX_SLABS_PER_CLASS :: nat where
  "MAX_SLABS_PER_CLASS = 256"

definition size_class_index :: "nat \<Rightarrow> nat option" where
  "size_class_index sz = position (\<lambda>class_size. sz \<le> class_size) SIZE_CLASSES"

record slab_store =
  word_at :: "nat \<Rightarrow> nat"
  half_at :: "nat \<Rightarrow> nat"

text \<open>The fields of \<open>SlabHeader\<close> (\<open>repr(C)\<close>) relative to the page.\<close>

definition HEADER_SIZE :: nat where
  "HEADER_SIZE = 16"

definition hdr_free_list :: "slab_store \<Rightarrow> nat \<Rightarrow> nat" where
  "hdr_free_list st pg = word_at st pg"

definition hdr_allocated :: "slab_store \<Rightarrow> nat \<Rightarrow> nat" where
  "hdr_allocated st pg = half_at st (pg + 8)"

definition set_word :: "nat \<Rightarrow> nat \<Rightarrow> slab_store \<Rightarrow> slab_store" where
  "set_word a v st = st\<lparr>word_at := (word_at st)(a := v)\<rparr>"

definition set_half :: "nat \<Rightarrow> nat \<Rightarrow> slab_store \<Rightarrow> slab_store" where
  "set_half a v st = st\<lparr>half_at := (half_at st)(a := v)\<rparr>"

record slab_class =
  sc_slabs :: "phys_addr list"
  sc_count :: nat
  sc_obj_size :: nat

definition class_new :: "nat \<Rightarrow> slab_class" where
  "class_new obj_size = \<lparr>sc_slabs = replicate MAX_SLABS_PER_CLASS 0, sc_count = 0, sc_obj_size = obj_size\<rparr>"

definition data_start :: "nat \<Rightarrow> nat" where
  "data_start obj_size = (let align = (if obj_size \<ge> 16 then obj_size else 16) in
     align_down_usize (HEADER_SIZE + align - 1) align)"

definition slab_capacity :: "nat \<Rightarrow> nat" where
  "slab_capacity obj_size = (PAGE_SIZE_4K - data_start obj_size) div obj_size"

primrec link_free :: "nat \<Rightarrow> nat \<Rightarrow> nat \<Rightarrow> nat \<Rightarrow> slab_store \<Rightarrow> nat \<times> slab_store" where
  "link_free first sz 0 prev st = (prev, st)"
| "link_free first sz (Suc i) prev st = link_free first sz i (first + i * sz) (set_word (first + i * sz) prev st)"

definition init_slab :: "slab_class \<Rightarrow> phys_addr \<Rightarrow> slab_store \<Rightarrow> bool \<times> slab_class \<times> slab_store" where
  "init_slab c page_addr st =
     (if sc_count c \<ge> MAX_SLABS_PER_CLASS then (False, c, st)
      else let capacity = slab_capacity (sc_obj_size c) in
        if capacity = 0 then (False, c, st)
        else let (prev, st1) = link_free (page_addr + data_start (sc_obj_size c)) (sc_obj_size c) capacity 0 st in
          (True, c\<lparr>sc_slabs := (sc_slabs c)[sc_count c := page_addr], sc_count := sc_count c + 1\<rparr>,
           set_half (page_addr + 14) 0 (set_half (page_addr + 12) (sc_obj_size c) (set_half (page_addr + 10) capacity
             (set_half (page_addr + 8) 0 (set_word page_addr prev st1))))))"

definition class_pages :: "slab_class \<Rightarrow> phys_addr list" where
  "class_pages c = take (sc_count c) (sc_slabs c)"

definition class_allocate :: "bool \<Rightarrow> slab_class \<Rightarrow> slab_store \<Rightarrow> (nat \<times> slab_store) option option" where
  "class_allocate checks c st = (case find (\<lambda>pg. hdr_free_list st pg \<noteq> 0) (class_pages c) of
     None \<Rightarrow> Some None
   | Some pg \<Rightarrow> let obj = hdr_free_list st pg; st1 = set_word pg (word_at st obj) st in do {
       n \<leftarrow> prof_add 16 checks (hdr_allocated st1 pg) 1;
       Some (Some (obj, set_half (pg + 8) n st1)) })"

definition class_free :: "bool \<Rightarrow> slab_class \<Rightarrow> nat \<Rightarrow> slab_store \<Rightarrow> (mem_error, slab_store) result option" where
  "class_free checks c ptr st = (let page_base = align_down_usize ptr PAGE_SIZE_4K in
     if page_base \<in> set (class_pages c) then
       let st1 = set_word page_base ptr (set_word ptr (hdr_free_list st page_base) st) in do {
         n \<leftarrow> prof_sub 16 checks (hdr_allocated st1 page_base) 1;
         Some (Inr (set_half (page_base + 8) n st1)) }
     else Some (Inl InvalidAddress))"

record slab_allocator =
  sa_classes :: "slab_class list"
  sa_store :: slab_store

definition slab_new :: "slab_store \<Rightarrow> slab_allocator" where
  "slab_new st = \<lparr>sa_classes = map class_new SIZE_CLASSES, sa_store = st\<rparr>"

definition add_slab_page :: "slab_allocator \<Rightarrow> nat \<Rightarrow> phys_addr \<Rightarrow> (bool \<times> slab_allocator) option" where
  "add_slab_page a class_idx page_addr =
     (if class_idx \<ge> NUM_CLASSES then Some (False, a)
      else do {
        c \<leftarrow> idx (sa_classes a) class_idx;
        (let (ok, c', st) = init_slab c page_addr (sa_store a) in
         Some (ok, a\<lparr>sa_classes := (sa_classes a)[class_idx := c'], sa_store := st\<rparr>)) })"

definition slab_allocate :: "bool \<Rightarrow> slab_allocator \<Rightarrow> nat \<Rightarrow> (mem_error, nat \<times> slab_allocator) result option" where
  "slab_allocate checks a sz = (case size_class_index sz of
     None \<Rightarrow> Some (Inl SizeTooLarge)
   | Some ci \<Rightarrow> do {
       c \<leftarrow> idx (sa_classes a) ci;
       r \<leftarrow> class_allocate checks c (sa_store a);
       Some (case r of None \<Rightarrow> Inl SlabExhausted | Some (obj, st) \<Rightarrow> Inr (obj, a\<lparr>sa_store := st\<rparr>)) })"

definition slab_free :: "bool \<Rightarrow> slab_allocator \<Rightarrow> nat \<Rightarrow> nat \<Rightarrow> (mem_error, slab_allocator) result option" where
  "slab_free checks a ptr sz = (case size_class_index sz of
     None \<Rightarrow> Some (Inl SizeTooLarge)
   | Some ci \<Rightarrow> do {
       c \<leftarrow> idx (sa_classes a) ci;
       r \<leftarrow> class_free checks c ptr (sa_store a);
       Some (map_sum id (\<lambda>st. a\<lparr>sa_store := st\<rparr>) r) })"

definition actual_size :: "nat \<Rightarrow> nat option" where
  "actual_size sz = map_option (\<lambda>i. SIZE_CLASSES ! i) (size_class_index sz)"

section \<open>Free lists in a page\<close>

fun chain :: "(nat \<Rightarrow> nat) \<Rightarrow> nat \<Rightarrow> nat list \<Rightarrow> bool" where
  "chain nxt a [] \<longleftrightarrow> a = 0"
| "chain nxt a (x # xs) \<longleftrightarrow> a = x \<and> x \<noteq> 0 \<and> chain nxt (nxt x) xs"

lemma chain_cong: "(\<And>x. x \<in> set xs \<Longrightarrow> f x = g x) \<Longrightarrow> chain f a xs = chain g a xs"
  by (induction xs arbitrary: a) auto

lemma chain_upd [simp]: "y \<notin> set xs \<Longrightarrow> chain (f(y := v)) a xs = chain f a xs"
  by (rule chain_cong) auto

lemma chain_null: "chain f a xs \<Longrightarrow> a = 0 \<longleftrightarrow> xs = []"
  by (cases xs) auto

lemmas store_simps [simp] = set_word_def set_half_def hdr_free_list_def hdr_allocated_def

definition page_objs :: "nat \<Rightarrow> nat \<Rightarrow> nat set" where
  "page_objs s pg = (\<lambda>k. pg + k * s) ` {0<..<PAGE_SIZE_4K div s}"

lemma data_start_class: "s \<in> set SIZE_CLASSES \<Longrightarrow> data_start s = s"
proof -
  assume "s \<in> set SIZE_CLASSES"
  then obtain n where n: "s = 2 ^ n" "4 \<le> n" "n \<le> 11"
    by (auto simp: SIZE_CLASSES_def intro: that [of 4] that [of 5] that [of 6] that [of 7] that [of 8] that [of 9] that [of 10] that [of 11])
  have s: "16 \<le> s" "s < 4096" using \<open>s \<in> set SIZE_CLASSES\<close> by (auto simp: SIZE_CLASSES_def)
  have "data_start s = align_down_usize (15 + s) (2 ^ n)"
    using s by (simp add: data_start_def HEADER_SIZE_def n(1) Let_def)
  also have "\<dots> = (15 + s) - (15 + s) mod s"
    using align_down_usize_eq [of "15 + s" n] s n by simp
  also have "\<dots> = s" using s by (simp add: mod_if)
  finally show ?thesis .
qed

lemma class_facts:
  assumes "s \<in> set SIZE_CLASSES"
  shows "16 \<le> s" "s dvd 4096" "slab_capacity s = 4096 div s - 1" "2 \<le> 4096 div s" "4096 div s \<le> 256"
  using assms data_start_class [OF assms]
  by (auto simp: SIZE_CLASSES_def slab_capacity_def PAGE_SIZE_4K_def)

lemma page_objs_bounds:
  assumes "s \<in> set SIZE_CLASSES" "x \<in> page_objs s pg"
  shows "pg + 16 \<le> x" "x + s \<le> pg + 4096" "s dvd x - pg"
proof -
  from assms(2) obtain k where "k \<in> {0<..<4096 div s}" and k: "x = pg + k * s" unfolding page_objs_def PAGE_SIZE_4K_def by blast
  then have k: "x = pg + k * s" "0 < k" "k < 4096 div s" by simp_all
  have "s \<le> k * s" using k by simp
  then show "pg + 16 \<le> x" using class_facts(1) [OF assms(1)] k(1) by linarith
  have "Suc k * s \<le> 4096 div s * s" using k(3) by (intro mult_le_mono1) simp
  then have "Suc k * s \<le> 4096" using div_times_less_eq_dividend le_trans by blast
  then show "x + s \<le> pg + 4096" using k(1) by simp
  show "s dvd x - pg" using k(1) by simp
qed

lemma page_objs_disjoint:
  assumes "x \<in> page_objs s pg" "y \<in> page_objs s pg" "x \<noteq> y"
  shows "{x..<x + s} \<inter> {y..<y + s} = {}"
proof -
  from assms obtain k l where k: "x = pg + k * s" "y = pg + l * s" by (auto simp: page_objs_def)
  then have "k \<noteq> l" using assms(3) by auto
  then have "Suc k * s \<le> l * s \<or> Suc l * s \<le> k * s" by (metis Suc_leI linorder_neqE_nat mult_le_mono1)
  then show ?thesis using k by auto
qed

lemma finite_page_objs [simp]: "finite (page_objs s pg)"
  by (simp add: page_objs_def)

lemma card_page_objs: "s \<in> set SIZE_CLASSES \<Longrightarrow> card (page_objs s pg) = slab_capacity s"
  using class_facts(1,3) [of s] unfolding page_objs_def PAGE_SIZE_4K_def
  by (subst card_image) (auto intro!: inj_onI)

definition page_ok :: "slab_store \<Rightarrow> nat \<Rightarrow> nat \<Rightarrow> nat list \<Rightarrow> bool" where
  "page_ok st s pg xs \<longleftrightarrow> chain (word_at st) (word_at st pg) xs \<and> distinct xs \<and> set xs \<subseteq> page_objs s pg \<and>
     half_at st (pg + 8) + length xs = slab_capacity s"

text \<open>A page depends only on its own bytes.\<close>

lemma page_ok_frame:
  assumes "s \<in> set SIZE_CLASSES" "\<And>x. pg \<le> x \<Longrightarrow> x < pg + 4096 \<Longrightarrow> word_at st' x = word_at st x \<and> half_at st' x = half_at st x"
    "page_ok st s pg xs"
  shows "page_ok st' s pg xs"
proof -
  have "word_at st' x = word_at st x" if "x \<in> set xs" for x
    using assms page_objs_bounds [of s x pg] that class_facts(1) [OF assms(1)] by (fastforce simp: page_ok_def)
  then have "chain (word_at st') a xs = chain (word_at st) a xs" for a by (rule chain_cong)
  then show ?thesis using assms(2) [of pg] assms(2) [of "pg + 8"] assms(3) by (simp add: page_ok_def)
qed

lemma page_ok_pop:
  assumes "s \<in> set SIZE_CLASSES" "page_ok st s pg (x # xs)"
  shows "page_ok (set_half (pg + 8) (half_at st (pg + 8) + 1) (set_word pg (word_at st x) st)) s pg xs"
proof -
  have "pg \<notin> set xs" using assms page_objs_bounds(1) [of s pg pg] by (auto simp: page_ok_def)
  then show ?thesis using assms(2) by (auto simp: page_ok_def)
qed

lemma page_ok_push:
  assumes "s \<in> set SIZE_CLASSES" "page_ok st s pg xs" "x \<in> page_objs s pg" "x \<notin> set xs"
  shows "0 < half_at st (pg + 8)"
    and "page_ok (set_half (pg + 8) (half_at st (pg + 8) - 1) (set_word pg x (set_word x (word_at st pg) st))) s pg (x # xs)"
proof -
  have "card (insert x (set xs)) \<le> card (page_objs s pg)" using assms by (intro card_mono) (auto simp: page_ok_def)
  moreover have "card (insert x (set xs)) = Suc (length xs)" using assms by (simp add: page_ok_def distinct_card)
  ultimately show pos: "0 < half_at st (pg + 8)" using assms by (simp add: card_page_objs page_ok_def)
  have "pg \<notin> set (x # xs)" using assms page_objs_bounds(1) [of s pg pg] by (auto simp: page_ok_def)
  moreover have "0 < x" using page_objs_bounds(1) [OF assms(1,3)] by simp
  ultimately show "page_ok (set_half (pg + 8) (half_at st (pg + 8) - 1) (set_word pg x (set_word x (word_at st pg) st))) s pg (x # xs)"
    using assms pos by (auto simp: page_ok_def)
qed

lemma link_free_spec:
  assumes "0 < first" "0 < s" "chain (word_at st) prev ys" "\<forall>y \<in> set ys. first + n * s \<le> y"
    "link_free first s n prev st = (p, st')"
  shows "chain (word_at st') p (map (\<lambda>i. first + i * s) [0..<n] @ ys) \<and> half_at st' = half_at st \<and>
    (\<forall>a. a < first \<or> first + n * s \<le> a \<longrightarrow> word_at st' a = word_at st a)"
  using assms(3-5)
proof (induction n arbitrary: prev st ys)
  case 0
  then show ?case by simp
next
  case (Suc n)
  let ?x = "first + n * s"
  have "?x \<notin> set ys" using Suc.prems(2) assms(2) by auto
  then have "chain (word_at (set_word ?x prev st)) ?x (?x # ys)" using Suc.prems(1) assms(1) by simp
  moreover have "\<forall>y \<in> set (?x # ys). ?x \<le> y" using Suc.prems(2) by auto
  moreover have "link_free first s n ?x (set_word ?x prev st) = (p, st')" using Suc.prems(3) by simp
  ultimately have "chain (word_at st') p (map (\<lambda>i. first + i * s) [0..<n] @ ?x # ys)" "half_at st' = half_at (set_word ?x prev st)"
    "\<forall>a. a < first \<or> ?x \<le> a \<longrightarrow> word_at st' a = word_at (set_word ?x prev st) a"
    using Suc.IH [of "set_word ?x prev st" ?x "?x # ys"] by blast+
  then show ?case using assms(2) by auto
qed

lemma init_slab_ok:
  assumes s: "s \<in> set SIZE_CLASSES" and "sc_obj_size c = s" "sc_count c < MAX_SLABS_PER_CLASS"
  shows "\<exists>st' xs. init_slab c pg st = (True, c\<lparr>sc_slabs := (sc_slabs c)[sc_count c := pg], sc_count := sc_count c + 1\<rparr>, st') \<and>
    page_ok st' s pg xs \<and> set xs = page_objs s pg \<and>
    (\<forall>a. a < pg \<or> pg + 4096 \<le> a \<longrightarrow> word_at st' a = word_at st a \<and> half_at st' a = half_at st a)"
proof -
  note cf = class_facts [OF s]
  let ?n = "4096 div s - 1"
  obtain p st1 where lf: "link_free (pg + s) s ?n 0 st = (p, st1)" by (cases "link_free (pg + s) s ?n 0 st")
  let ?xs = "map (\<lambda>i. pg + s + i * s) [0..<?n]"
  have sp: "chain (word_at st1) p ?xs" "half_at st1 = half_at st"
    "\<forall>a. a < pg + s \<or> pg + s + ?n * s \<le> a \<longrightarrow> word_at st1 a = word_at st a"
    using link_free_spec [of "pg + s" s st 0 "[]" ?n p st1] cf(1) lf by simp_all
  have en: "s + ?n * s = 4096" using cf(1,2) dvd_imp_le [OF cf(2)] by (simp add: diff_mult_distrib)
  have set: "set ?xs = page_objs s pg"
  proof -
    have "(\<lambda>i. pg + s + i * s) ` {0..<?n} = (\<lambda>k. pg + k * s) ` (Suc ` {0..<?n})" unfolding image_image by (simp add: algebra_simps)
    also have "Suc ` {0..<?n} = {0<..<4096 div s}" using cf(4) by (auto simp: image_Suc_atLeastLessThan)
    finally show ?thesis by (simp add: page_objs_def PAGE_SIZE_4K_def)
  qed
  have di: "distinct ?xs" using cf(1) by (auto simp: distinct_map intro: inj_onI)
  let ?st' = "set_half (pg + 14) 0 (set_half (pg + 12) s (set_half (pg + 10) ?n (set_half (pg + 8) 0 (set_word pg p st1))))"
  have "pg \<notin> set ?xs" using set page_objs_bounds(1) [OF s, of pg pg] by auto
  then have "page_ok ?st' s pg ?xs" unfolding page_ok_def using sp(1) di set cf(3) by simp
  moreover have "init_slab c pg st = (True, c\<lparr>sc_slabs := (sc_slabs c)[sc_count c := pg], sc_count := sc_count c + 1\<rparr>, ?st')"
    using assms(2,3) cf(3,4) data_start_class [OF s] lf unfolding init_slab_def by (simp add: Let_def)
  moreover have "\<forall>a. a < pg \<or> pg + 4096 \<le> a \<longrightarrow> word_at ?st' a = word_at st a \<and> half_at ?st' a = half_at st a"
    using sp(2,3) en by (auto simp: add.assoc)
  ultimately show ?thesis using set by blast
qed

section \<open>The allocator\<close>

definition pg_class :: "slab_allocator \<Rightarrow> nat \<Rightarrow> nat \<Rightarrow> bool" where
  "pg_class a pg i \<longleftrightarrow> i < NUM_CLASSES \<and> pg \<in> set (class_pages (sa_classes a ! i))"

text \<open>\<open>fr pg\<close> is the list of free objects of the page \<open>pg\<close>.\<close>

definition slab_inv :: "slab_allocator \<Rightarrow> (nat \<Rightarrow> nat list) \<Rightarrow> bool" where
  [inv_defs]: "slab_inv a fr \<longleftrightarrow> length (sa_classes a) = NUM_CLASSES \<and>
     (\<forall>i < NUM_CLASSES. sc_obj_size (sa_classes a ! i) = SIZE_CLASSES ! i \<and>
        length (sc_slabs (sa_classes a ! i)) = MAX_SLABS_PER_CLASS \<and> sc_count (sa_classes a ! i) \<le> MAX_SLABS_PER_CLASS) \<and>
     (\<forall>i pg. pg_class a pg i \<longrightarrow> 4096 dvd pg \<and> pg + 4096 \<le> 2 ^ 64 \<and> page_ok (sa_store a) (SIZE_CLASSES ! i) pg (fr pg)) \<and>
     (\<forall>i j pg. pg_class a pg i \<longrightarrow> pg_class a pg j \<longrightarrow> i = j)"

definition slab_pages :: "slab_allocator \<Rightarrow> nat set" where
  "slab_pages a = {pg. \<exists>i. pg_class a pg i}"

text \<open>The objects in use, with the size of their class.\<close>

definition slab_held :: "slab_allocator \<Rightarrow> (nat \<Rightarrow> nat list) \<Rightarrow> (nat \<times> nat) set" where
  "slab_held a fr = {(x, SIZE_CLASSES ! i) | x i pg. pg_class a pg i \<and> x \<in> page_objs (SIZE_CLASSES ! i) pg - set (fr pg)}"

lemma slab_invD:
  assumes "slab_inv a fr"
  shows "length (sa_classes a) = NUM_CLASSES" "i < NUM_CLASSES \<Longrightarrow> sc_obj_size (sa_classes a ! i) = SIZE_CLASSES ! i"
    "i < NUM_CLASSES \<Longrightarrow> length (sc_slabs (sa_classes a ! i)) = MAX_SLABS_PER_CLASS"
    "i < NUM_CLASSES \<Longrightarrow> sc_count (sa_classes a ! i) \<le> MAX_SLABS_PER_CLASS"
    "pg_class a pg i \<Longrightarrow> 4096 dvd pg \<and> pg + 4096 \<le> 2 ^ 64 \<and> page_ok (sa_store a) (SIZE_CLASSES ! i) pg (fr pg)"
    "pg_class a pg i \<Longrightarrow> pg_class a pg j \<Longrightarrow> i = j"
  using assms unfolding slab_inv_def by blast+

lemma class_in [simp]: "i < NUM_CLASSES \<Longrightarrow> SIZE_CLASSES ! i \<in> set SIZE_CLASSES"
  by (simp add: NUM_CLASSES_def)

lemma pg_class_lt: "pg_class a pg i \<Longrightarrow> i < NUM_CLASSES"
  by (simp add: pg_class_def)

lemma pg_class_store [simp]: "pg_class (a\<lparr>sa_store := st\<rparr>) pg i = pg_class a pg i"
  by (simp add: pg_class_def)

lemma pages_far: "4096 dvd p \<Longrightarrow> 4096 dvd q \<Longrightarrow> p \<noteq> q \<Longrightarrow> p + 4096 \<le> q \<or> q + 4096 \<le> p" for p q :: nat
  by (auto elim!: dvdE)

lemma pages_apart:
  fixes p q :: nat
  assumes "4096 dvd p" "4096 dvd q" "p \<noteq> q" "p \<le> x" "x < p + 4096"
  shows "x < q \<or> q + 4096 \<le> x"
proof -
  from assms obtain k l where "p = 4096 * k" "q = 4096 * l" by (auto elim!: dvdE)
  with assms show ?thesis by auto
qed

text \<open>A change of one page leaves the others as they are.\<close>

lemma slab_inv_page_step:
  assumes "slab_inv a fr" "pg_class a pg i" "page_ok st (SIZE_CLASSES ! i) pg xs"
    and same: "\<And>x. x < pg \<or> pg + 4096 \<le> x \<Longrightarrow> word_at st x = word_at (sa_store a) x \<and> half_at st x = half_at (sa_store a) x"
  shows "slab_inv (a\<lparr>sa_store := st\<rparr>) (fr(pg := xs))"
proof -
  have "page_ok st (SIZE_CLASSES ! j) q ((fr(pg := xs)) q)" if q: "pg_class a q j" for q j
  proof (cases "q = pg")
    case True
    then show ?thesis using assms(3) slab_invD(6) [OF assms(1), of pg i j] assms(2) q by simp
  next
    case False
    have "word_at st x = word_at (sa_store a) x \<and> half_at st x = half_at (sa_store a) x" if "q \<le> x" "x < q + 4096" for x
      using pages_apart [of q pg x] slab_invD(5) [OF assms(1)] q assms(2) False that same by blast
    then show ?thesis using page_ok_frame [OF class_in, of j q st "sa_store a" "fr q"] slab_invD(5) [OF assms(1) q] pg_class_lt [OF q] False by simp
  qed
  then show ?thesis using assms(1) unfolding slab_inv_def by (simp del: One_nat_def)
qed

lemma object_page:
  assumes "slab_inv a fr" "pg_class a pg i" "pg_class a q j" "x \<in> page_objs (SIZE_CLASSES ! i) pg" "x \<in> page_objs (SIZE_CLASSES ! j) q"
  shows "q = pg" "j = i"
proof -
  have "pg \<le> x" "x < pg + 4096" "q \<le> x" "x < q + 4096"
    using page_objs_bounds [OF class_in [OF pg_class_lt [OF assms(2)]] assms(4)] page_objs_bounds [OF class_in [OF pg_class_lt [OF assms(3)]] assms(5)]
      class_facts(1) [OF class_in [OF pg_class_lt [OF assms(2)]]] class_facts(1) [OF class_in [OF pg_class_lt [OF assms(3)]]] by linarith+
  moreover have "4096 dvd pg" "4096 dvd q" using slab_invD(5) [OF assms(1)] assms(2,3) by blast+
  ultimately show "q = pg" using pages_apart [of pg q x] by force
  then show "j = i" using slab_invD(6) [OF assms(1)] assms(2,3) by blast
qed

lemma slab_held_iff:
  assumes "slab_inv a fr" "pg_class a pg i" "x \<in> page_objs (SIZE_CLASSES ! i) pg"
  shows "(x, s) \<in> slab_held a fr \<longleftrightarrow> s = SIZE_CLASSES ! i \<and> x \<notin> set (fr pg)"
  using object_page [OF assms(1,2) _ assms(3)] assms(2,3) unfolding slab_held_def by fast

lemma slab_held_pop:
  assumes "slab_inv a fr" "pg_class a pg i" "fr pg = x # xs"
  shows "slab_held (a\<lparr>sa_store := st\<rparr>) (fr(pg := xs)) = insert (x, SIZE_CLASSES ! i) (slab_held a fr)"
proof -
  have pk: "distinct (x # xs)" "x \<in> page_objs (SIZE_CLASSES ! i) pg"
    using slab_invD(5) [OF assms(1,2)] assms(3) by (auto simp: page_ok_def)
  have own: "j = i" if "pg_class a pg j" for j using slab_invD(6) [OF assms(1)] assms(2) that by blast
  show ?thesis
  proof (rule set_eqI)
    fix y :: "nat \<times> nat"
    obtain z s where y: "y = (z, s)" by (cases y)
    have mem: "z \<notin> set ((fr(pg := xs)) q) \<longleftrightarrow> z \<notin> set (fr q) \<or> q = pg \<and> z = x" for q
      using pk(1) assms(3) by auto
    have "y \<in> slab_held (a\<lparr>sa_store := st\<rparr>) (fr(pg := xs)) \<longleftrightarrow>
      (\<exists>q j. s = SIZE_CLASSES ! j \<and> pg_class a q j \<and> z \<in> page_objs (SIZE_CLASSES ! j) q \<and> z \<notin> set ((fr(pg := xs)) q))"
      unfolding y slab_held_def by auto
    also have "\<dots> \<longleftrightarrow> (\<exists>q j. s = SIZE_CLASSES ! j \<and> pg_class a q j \<and> z \<in> page_objs (SIZE_CLASSES ! j) q \<and> (z \<notin> set (fr q) \<or> q = pg \<and> z = x))"
      by (simp only: mem)
    also have "\<dots> \<longleftrightarrow> y \<in> insert (x, SIZE_CLASSES ! i) (slab_held a fr)"
      using pk(2) own assms(2) unfolding y slab_held_def by blast
    finally show "y \<in> slab_held (a\<lparr>sa_store := st\<rparr>) (fr(pg := xs)) \<longleftrightarrow> y \<in> insert (x, SIZE_CLASSES ! i) (slab_held a fr)" .
  qed
qed

lemma slab_held_push:
  assumes "slab_inv a fr" "pg_class a pg i" "x \<in> page_objs (SIZE_CLASSES ! i) pg"
  shows "slab_held (a\<lparr>sa_store := st\<rparr>) (fr(pg := x # fr pg)) = slab_held a fr - {(x, SIZE_CLASSES ! i)}"
proof (rule set_eqI)
  fix y :: "nat \<times> nat"
  obtain z s where y: "y = (z, s)" by (cases y)
  have "y \<in> slab_held (a\<lparr>sa_store := st\<rparr>) (fr(pg := x # fr pg)) \<longleftrightarrow>
    (\<exists>q j. s = SIZE_CLASSES ! j \<and> pg_class a q j \<and> z \<in> page_objs (SIZE_CLASSES ! j) q \<and> z \<notin> set (fr q) \<and> \<not> (q = pg \<and> z = x))"
    unfolding y slab_held_def by (auto split: if_splits)
  also have "\<dots> \<longleftrightarrow> y \<in> slab_held a fr - {(x, SIZE_CLASSES ! i)}"
    using object_page [OF assms(1,2) _ assms(3)] slab_invD(6) [OF assms(1,2)] unfolding y slab_held_def by blast
  finally show "y \<in> slab_held (a\<lparr>sa_store := st\<rparr>) (fr(pg := x # fr pg)) \<longleftrightarrow> y \<in> slab_held a fr - {(x, SIZE_CLASSES ! i)}" .
qed

lemma align_down_object:
  assumes "s \<in> set SIZE_CLASSES" "x \<in> page_objs s pg" "4096 dvd pg" "pg + 4096 \<le> 2 ^ 64"
  shows "align_down_usize x PAGE_SIZE_4K = pg"
proof -
  have b: "pg \<le> x" "x < pg + 4096" using page_objs_bounds [OF assms(1,2)] class_facts(1) [OF assms(1)] by linarith+
  have "align_down_usize x PAGE_SIZE_4K = x - x mod 4096"
    using align_down_usize_eq [of x 12] b assms(4) by (simp add: PAGE_SIZE_4K_def)
  also have "x mod 4096 = x - pg"
  proof -
    obtain k where "pg = 4096 * k" using assms(3) by (auto elim: dvdE)
    then have "x = (x - pg) + 4096 * k" "x - pg < 4096" using b by linarith+
    then show ?thesis by (metis mod_less mod_mult_self2)
  qed
  finally show ?thesis using b by simp
qed

lemma page_head: "page_ok st s pg xs \<Longrightarrow> word_at st pg \<noteq> 0 \<longleftrightarrow> xs \<noteq> []" "page_ok st s pg (x # xs) \<Longrightarrow> word_at st pg = x"
  using chain_null [of "word_at st" "word_at st pg" xs] by (auto simp: page_ok_def)

lemma slab_allocate_cases:
  assumes "slab_inv a fr" "size_class_index sz = Some i"
  shows "slab_allocate checks a sz = Some (Inl SlabExhausted) \<and> (\<forall>pg. pg_class a pg i \<longrightarrow> fr pg = []) \<or>
    (\<exists>pg x xs st. pg_class a pg i \<and> fr pg = x # xs \<and> slab_allocate checks a sz = Some (Inr (x, a\<lparr>sa_store := st\<rparr>)) \<and>
       slab_inv (a\<lparr>sa_store := st\<rparr>) (fr(pg := xs)))"
proof -
  have i: "i < NUM_CLASSES" using position_SomeD [of _ SIZE_CLASSES i] assms(2) by (simp add: size_class_index_def NUM_CLASSES_def)
  let ?c = "sa_classes a ! i" and ?st = "sa_store a"
  have idx: "idx (sa_classes a) i = Some ?c" using i slab_invD(1) [OF assms(1)] by simp
  have hd: "word_at ?st pg \<noteq> 0 \<longleftrightarrow> fr pg \<noteq> []" if "pg_class a pg i" for pg
    using slab_invD(5) [OF assms(1) that] page_head(1) by blast
  show ?thesis
  proof (cases "find (\<lambda>pg. hdr_free_list ?st pg \<noteq> 0) (class_pages ?c)")
    case None
    then have "\<forall>pg. pg_class a pg i \<longrightarrow> fr pg = []" using hd by (auto simp: find_None_iff' pg_class_def)
    then show ?thesis using None idx assms(2) by (simp add: slab_allocate_def class_allocate_def)
  next
    case (Some pg)
    then have pg: "pg_class a pg i" "word_at ?st pg \<noteq> 0" using i find_SomeD [OF Some] by (auto simp: pg_class_def)
    then obtain x xs where fr: "fr pg = x # xs" using hd [OF pg(1)] by (cases "fr pg") auto
    have pk: "page_ok ?st (SIZE_CLASSES ! i) pg (x # xs)" and al: "4096 dvd pg" "pg + 4096 \<le> 2 ^ 64"
      using slab_invD(5) [OF assms(1) pg(1)] fr by auto
    have "half_at ?st (pg + 8) + length (x # xs) = slab_capacity (SIZE_CLASSES ! i)" using pk unfolding page_ok_def by blast
    then have "half_at ?st (pg + 8) \<le> 256" using class_facts(3,5) [OF class_in [OF i]] by linarith
    then have "half_at ?st (pg + 8) + 1 < 2 ^ 16" by simp
    then have pa: "prof_add 16 checks (half_at ?st (pg + 8)) 1 = Some (half_at ?st (pg + 8) + 1)" by (rule prof_add_in)
    let ?st' = "set_half (pg + 8) (half_at ?st (pg + 8) + 1) (set_word pg (word_at ?st x) ?st)"
    have "slab_inv (a\<lparr>sa_store := ?st'\<rparr>) (fr(pg := xs))"
      by (rule slab_inv_page_step [OF assms(1) pg(1) page_ok_pop [OF class_in [OF i] pk]]) auto
    moreover have "slab_allocate checks a sz = Some (Inr (x, a\<lparr>sa_store := ?st'\<rparr>))"
      using Some idx assms(2) pa page_head(2) [OF pk] by (simp add: slab_allocate_def class_allocate_def Let_def)
    ultimately show ?thesis using pg(1) fr by blast
  qed
qed

lemma slab_free_ok:
  assumes "slab_inv a fr" "pg_class a pg i" "x \<in> page_objs (SIZE_CLASSES ! i) pg" "x \<notin> set (fr pg)" "size_class_index sz = Some i"
  shows "\<exists>st. slab_free checks a x sz = Some (Inr (a\<lparr>sa_store := st\<rparr>)) \<and> slab_inv (a\<lparr>sa_store := st\<rparr>) (fr(pg := x # fr pg))"
proof -
  let ?st = "sa_store a"
  have i: "i < NUM_CLASSES" by (rule pg_class_lt [OF assms(2)])
  note pk = slab_invD(5) [OF assms(1,2)]
  have ad: "align_down_usize x PAGE_SIZE_4K = pg" using align_down_object [OF class_in [OF i] assms(3)] pk by blast
  have ne: "x \<noteq> pg" using page_objs_bounds(1) [OF class_in [OF i] assms(3)] by simp
  note pp = page_ok_push [OF class_in [OF i] _ assms(3,4), of ?st]
  have pos: "0 < half_at ?st (pg + 8)" using pp(1) pk by blast
  let ?st' = "set_half (pg + 8) (half_at ?st (pg + 8) - 1) (set_word pg x (set_word x (word_at ?st pg) ?st))"
  have "pg \<le> x \<and> x < pg + 4096"
    using page_objs_bounds [OF class_in [OF i] assms(3)] class_facts(1) [OF class_in [OF i]] by linarith
  then have "slab_inv (a\<lparr>sa_store := ?st'\<rparr>) (fr(pg := x # fr pg))"
    using pk pp(2) by (intro slab_inv_page_step [OF assms(1,2)]) auto
  moreover have "slab_free checks a x sz = Some (Inr (a\<lparr>sa_store := ?st'\<rparr>))"
    using assms(2,5) i slab_invD(1) [OF assms(1)] ad pos prof_sub_in [of 1 "half_at ?st (pg + 8)" 16 checks]
    by (simp add: slab_free_def class_free_def pg_class_def Let_def)
  ultimately show ?thesis by blast
qed

text \<open>The holder of an object may write to it at will.\<close>

lemma slab_write_ok:
  assumes "slab_inv a fr" "pg_class a pg i" "x \<in> page_objs (SIZE_CLASSES ! i) pg" "x \<notin> set (fr pg)" "x \<le> y" "y < x + SIZE_CLASSES ! i"
  shows "slab_inv (a\<lparr>sa_store := set_word y v (set_half y w (sa_store a))\<rparr>) fr"
proof -
  let ?s = "SIZE_CLASSES ! i"
  note cl = class_in [OF pg_class_lt [OF assms(2)]] and pk = slab_invD(5) [OF assms(1,2)]
  note b = page_objs_bounds [OF cl assms(3)]
  have "y \<notin> set (fr pg)"
  proof
    assume y: "y \<in> set (fr pg)"
    then have "y \<in> page_objs ?s pg" "y \<noteq> x" using pk assms(4) by (auto simp: page_ok_def)
    then show False using page_objs_disjoint [of y ?s pg x] assms(3,5,6) class_facts(1) [OF cl] by auto
  qed
  moreover have "y \<noteq> pg" "y \<noteq> pg + 8" using b(1) assms(5) by auto
  ultimately have "page_ok (set_word y v (set_half y w (sa_store a))) ?s pg (fr pg)" using pk by (simp add: page_ok_def)
  then have "slab_inv (a\<lparr>sa_store := set_word y v (set_half y w (sa_store a))\<rparr>) (fr(pg := fr pg))"
    using b(1,2) assms(5,6) by (intro slab_inv_page_step [OF assms(1,2)]) auto
  then show ?thesis by simp
qed

lemma class_pages_grow:
  "sc_count c < length (sc_slabs c) \<Longrightarrow>
     class_pages (c\<lparr>sc_slabs := (sc_slabs c)[sc_count c := pg], sc_count := sc_count c + 1\<rparr>) = class_pages c @ [pg]"
  by (simp add: class_pages_def take_Suc_conv_app_nth)

lemma add_slab_page_full:
  "slab_inv a fr \<Longrightarrow> i < NUM_CLASSES \<Longrightarrow> sc_count (sa_classes a ! i) = MAX_SLABS_PER_CLASS \<Longrightarrow> add_slab_page a i pg = Some (False, a)"
  using slab_invD(1) [of a fr] by (simp add: add_slab_page_def init_slab_def list_update_id)

lemma add_slab_page_ok:
  assumes "slab_inv a fr" "i < NUM_CLASSES" "sc_count (sa_classes a ! i) < MAX_SLABS_PER_CLASS"
    "pg \<notin> slab_pages a" "4096 dvd pg" "pg + 4096 \<le> 2 ^ 64"
  shows "\<exists>a' xs. add_slab_page a i pg = Some (True, a') \<and> slab_inv a' (fr(pg := xs)) \<and> set xs = page_objs (SIZE_CLASSES ! i) pg \<and>
    (\<forall>q j. pg_class a' q j \<longleftrightarrow> pg_class a q j \<or> q = pg \<and> j = i)"
proof -
  let ?c = "sa_classes a ! i"
  let ?c' = "?c\<lparr>sc_slabs := (sc_slabs ?c)[sc_count ?c := pg], sc_count := sc_count ?c + 1\<rparr>"
  note len = slab_invD(1) [OF assms(1)]
  obtain st xs where st: "init_slab ?c pg (sa_store a) = (True, ?c', st)" "page_ok st (SIZE_CLASSES ! i) pg xs"
    "set xs = page_objs (SIZE_CLASSES ! i) pg" and same: "\<And>x. x < pg \<or> pg + 4096 \<le> x \<Longrightarrow> word_at st x = word_at (sa_store a) x \<and> half_at st x = half_at (sa_store a) x"
    using init_slab_ok [OF class_in [OF assms(2)] slab_invD(2) [OF assms(1,2)] assms(3), of pg "sa_store a"] by blast
  let ?a' = "a\<lparr>sa_classes := (sa_classes a)[i := ?c'], sa_store := st\<rparr>"
  have cp: "class_pages ?c' = class_pages ?c @ [pg]"
    by (rule class_pages_grow) (use assms(3) slab_invD(3) [OF assms(1,2)] in simp)
  have pc: "pg_class ?a' q j \<longleftrightarrow> pg_class a q j \<or> q = pg \<and> j = i" for q j
    using cp assms(2) len by (cases "j = i") (auto simp: pg_class_def)
  have fresh: "\<not> pg_class a pg j" for j using assms(4) by (auto simp: slab_pages_def)
  have pages: "4096 dvd q \<and> q + 4096 \<le> 2 ^ 64 \<and> page_ok st (SIZE_CLASSES ! j) q ((fr(pg := xs)) q)" if q: "pg_class ?a' q j" for q j
  proof (cases "q = pg")
    case True
    then show ?thesis using q fresh st(2) assms(5,6) unfolding pc by simp
  next
    case False
    then have q: "pg_class a q j" using q unfolding pc by simp
    note o = slab_invD(5) [OF assms(1) q]
    have "word_at st x = word_at (sa_store a) x \<and> half_at st x = half_at (sa_store a) x" if "q \<le> x" "x < q + 4096" for x
      using pages_apart [of q pg x] o assms(5) False that same by blast
    then show ?thesis using page_ok_frame [OF class_in [OF pg_class_lt [OF q]], of q st "sa_store a" "fr q"] o False by simp
  qed
  have "slab_inv ?a' (fr(pg := xs))"
    unfolding slab_inv_def
  proof (intro conjI allI impI)
    fix j assume j: "j < NUM_CLASSES"
    show "sc_obj_size (sa_classes ?a' ! j) = SIZE_CLASSES ! j" "length (sc_slabs (sa_classes ?a' ! j)) = MAX_SLABS_PER_CLASS"
      "sc_count (sa_classes ?a' ! j) \<le> MAX_SLABS_PER_CLASS"
      using slab_invD(2-4) [OF assms(1) j] assms(3) len j by (cases "j = i"; simp)+
  next
    fix j k q assume "pg_class ?a' q j" "pg_class ?a' q k"
    then show "j = k" using slab_invD(6) [OF assms(1)] fresh unfolding pc by blast
  qed (use len pages in simp_all)
  moreover have "add_slab_page a i pg = Some (True, ?a')"
    using st(1) assms(2) len by (simp add: add_slab_page_def)
  ultimately show ?thesis using pc st(3) by blast
qed

lemma slab_held_grow:
  assumes "\<forall>q j. pg_class a' q j \<longleftrightarrow> pg_class a q j \<or> q = pg \<and> j = i" "pg \<notin> slab_pages a" "set xs = page_objs (SIZE_CLASSES ! i) pg"
  shows "slab_held a' (fr(pg := xs)) = slab_held a fr"
proof -
  have "pg_class a' q j \<and> x \<in> page_objs (SIZE_CLASSES ! j) q - set ((fr(pg := xs)) q) \<longleftrightarrow>
      pg_class a q j \<and> x \<in> page_objs (SIZE_CLASSES ! j) q - set (fr q)" for q j x
    using assms by (cases "q = pg") (auto simp: slab_pages_def)
  then show ?thesis unfolding slab_held_def by simp
qed

lemma slab_inv_new: "slab_inv (slab_new st) fr" "\<not> pg_class (slab_new st) pg i"
  by (auto simp: slab_inv_def slab_new_def pg_class_def class_pages_def class_new_def NUM_CLASSES_def)

section \<open>Runs\<close>

text \<open>
  The states reachable when pages are added once each and clients free only what they hold, with
  the size it was requested with or another of the same class, and write only to what they hold.
\<close>

inductive slab_run :: "bool \<Rightarrow> slab_allocator \<Rightarrow> (nat \<times> nat) set \<Rightarrow> bool" for checks :: bool where
  srun_new: "slab_run checks (slab_new st) {}"
| srun_page: "slab_run checks a H \<Longrightarrow> pg \<notin> slab_pages a \<Longrightarrow> 4096 dvd pg \<Longrightarrow> pg + 4096 \<le> 2 ^ 64 \<Longrightarrow>
    add_slab_page a i pg = Some (ok, a') \<Longrightarrow> slab_run checks a' H"
| srun_alloc: "slab_run checks a H \<Longrightarrow> actual_size sz = Some s \<Longrightarrow> slab_allocate checks a sz = Some (Inr (x, a')) \<Longrightarrow>
    slab_run checks a' (insert (x, s) H)"
| srun_free: "slab_run checks a H \<Longrightarrow> (x, s) \<in> H \<Longrightarrow> actual_size sz = Some s \<Longrightarrow> slab_free checks a x sz = Some (Inr a') \<Longrightarrow>
    slab_run checks a' (H - {(x, s)})"
| srun_write: "slab_run checks a H \<Longrightarrow> (x, s) \<in> H \<Longrightarrow> x \<le> y \<Longrightarrow> y < x + s \<Longrightarrow>
    slab_run checks (a\<lparr>sa_store := set_word y v (set_half y w (sa_store a))\<rparr>) H"

lemma size_class_indexD: "size_class_index sz = Some i \<Longrightarrow> i < NUM_CLASSES \<and> sz \<le> SIZE_CLASSES ! i"
  using position_SomeD [of "\<lambda>c. sz \<le> c" SIZE_CLASSES i] by (simp add: size_class_index_def NUM_CLASSES_def)

lemma size_class_None: "size_class_index sz = None \<longleftrightarrow> 2048 < sz"
  by (auto simp: size_class_index_def SIZE_CLASSES_def)

lemma class_inj: "i < NUM_CLASSES \<Longrightarrow> j < NUM_CLASSES \<Longrightarrow> SIZE_CLASSES ! i = SIZE_CLASSES ! j \<Longrightarrow> i = j"
  by (simp add: NUM_CLASSES_def nth_eq_iff_index_eq SIZE_CLASSES_def del: nth_Cons')

lemma actual_sizeD: "actual_size sz = Some s \<Longrightarrow> \<exists>i. size_class_index sz = Some i \<and> i < NUM_CLASSES \<and> s = SIZE_CLASSES ! i"
  using size_class_indexD by (auto simp: actual_size_def)

lemma class_index_self: "i < NUM_CLASSES \<Longrightarrow> size_class_index (SIZE_CLASSES ! i) = Some i" "i < NUM_CLASSES \<Longrightarrow> actual_size (SIZE_CLASSES ! i) = Some (SIZE_CLASSES ! i)"
proof -
  have "\<forall>i \<in> set [0..<8]. size_class_index (SIZE_CLASSES ! i) = Some i" by code_simp
  then show "i < NUM_CLASSES \<Longrightarrow> size_class_index (SIZE_CLASSES ! i) = Some i" by (simp add: NUM_CLASSES_def SIZE_CLASSES_def del: upt_rec_numeral)
  then show "i < NUM_CLASSES \<Longrightarrow> actual_size (SIZE_CLASSES ! i) = Some (SIZE_CLASSES ! i)" by (simp add: actual_size_def)
qed

lemma slab_heldD: "(x, s) \<in> slab_held a fr \<Longrightarrow> \<exists>i pg. s = SIZE_CLASSES ! i \<and> pg_class a pg i \<and> x \<in> page_objs s pg \<and> x \<notin> set (fr pg)"
  by (auto simp: slab_held_def)

lemma slab_run_inv: "slab_run checks a H \<Longrightarrow> \<exists>fr. slab_inv a fr \<and> slab_held a fr = H"
proof (induction rule: slab_run.induct)
  case (srun_new st)
  have "slab_held (slab_new st) fr = {}" for fr using slab_inv_new(2) by (simp add: slab_held_def)
  then show ?case using slab_inv_new(1) by blast
next
  case (srun_page a H pg i ok a')
  then obtain fr where fr: "slab_inv a fr" "slab_held a fr = H" by blast
  consider "NUM_CLASSES \<le> i" | "i < NUM_CLASSES" "sc_count (sa_classes a ! i) = MAX_SLABS_PER_CLASS"
    | "i < NUM_CLASSES" "sc_count (sa_classes a ! i) < MAX_SLABS_PER_CLASS"
    using slab_invD(4) [OF fr(1), of i] by fastforce
  then show ?case
  proof cases
    case 3
    from add_slab_page_ok [OF fr(1) 3 srun_page(2-4)] srun_page(5) obtain xs where
      "slab_inv a' (fr(pg := xs))" "set xs = page_objs (SIZE_CLASSES ! i) pg" "\<forall>q j. pg_class a' q j \<longleftrightarrow> pg_class a q j \<or> q = pg \<and> j = i" by auto
    then show ?thesis using slab_held_grow [of a' a pg i xs fr] srun_page(2) fr(2) by blast
  qed (use srun_page(5) fr add_slab_page_full [OF fr(1), of i pg] in \<open>auto simp: add_slab_page_def\<close>)
next
  case (srun_alloc a H sz s x a')
  then obtain fr i where fr: "slab_inv a fr" "slab_held a fr = H" and i: "size_class_index sz = Some i" "s = SIZE_CLASSES ! i"
    using actual_sizeD by blast
  from slab_allocate_cases [OF fr(1) i(1), of checks] srun_alloc(3) obtain pg xs st where
    "pg_class a pg i" "fr pg = x # xs" "a' = a\<lparr>sa_store := st\<rparr>" "slab_inv a' (fr(pg := xs))" by auto
  then show ?case using slab_held_pop [OF fr(1)] fr(2) i(2) by blast
next
  case (srun_free a H x s sz a')
  then obtain fr where fr: "slab_inv a fr" "slab_held a fr = H" by blast
  with srun_free(2) obtain i pg where pg: "s = SIZE_CLASSES ! i" "pg_class a pg i" "x \<in> page_objs (SIZE_CLASSES ! i) pg" "x \<notin> set (fr pg)"
    using slab_heldD by blast
  have "size_class_index sz = Some i" using actual_sizeD [OF srun_free(3)] class_inj pg(1) pg_class_lt [OF pg(2)] by blast
  from slab_free_ok [OF fr(1) pg(2-4) this, of checks] srun_free(4) obtain st where
    "a' = a\<lparr>sa_store := st\<rparr>" "slab_inv a' (fr(pg := x # fr pg))" by auto
  then show ?case using slab_held_push [OF fr(1) pg(2,3)] fr(2) pg(1) by blast
next
  case (srun_write a H x s y v w)
  then obtain fr where fr: "slab_inv a fr" "slab_held a fr = H" by blast
  with srun_write(2) obtain i pg where "s = SIZE_CLASSES ! i" "pg_class a pg i" "x \<in> page_objs (SIZE_CLASSES ! i) pg" "x \<notin> set (fr pg)"
    using slab_heldD by blast
  from slab_write_ok [OF fr(1) this(2-4)] srun_write(3,4) this(1) fr(2) show ?case by (auto simp: slab_held_def)
qed

lemma slab_allocate_total: "slab_inv a fr \<Longrightarrow> \<exists>r. slab_allocate checks a sz = Some r"
  using slab_allocate_cases [of a fr sz] by (cases "size_class_index sz") (auto simp: slab_allocate_def [of _ _ sz])

lemma held_disjoint:
  assumes "slab_inv a fr" "(x, s) \<in> slab_held a fr" "(y, t) \<in> slab_held a fr" "(x, s) \<noteq> (y, t)"
  shows "{x..<x + s} \<inter> {y..<y + t} = {}"
proof -
  from slab_heldD [OF assms(2)] obtain i p where x: "s = SIZE_CLASSES ! i" "pg_class a p i" "x \<in> page_objs s p" by blast
  from slab_heldD [OF assms(3)] obtain j q where y: "t = SIZE_CLASSES ! j" "pg_class a q j" "y \<in> page_objs t q" by blast
  show ?thesis
  proof (cases "p = q")
    case True
    then have "s = t" using slab_invD(6) [OF assms(1)] x y by blast
    then show ?thesis using page_objs_disjoint [of x s p y] x y True assms(4) by blast
  next
    case False
    have "p \<le> x" "x + s \<le> p + 4096" "q \<le> y" "y + t \<le> q + 4096"
      using page_objs_bounds(1,2) [OF class_in [OF pg_class_lt [OF x(2)]], of x p] page_objs_bounds(1,2) [OF class_in [OF pg_class_lt [OF y(2)]], of y q] x y by auto
    moreover have "p + 4096 \<le> q \<or> q + 4096 \<le> p"
      using pages_far [of p q] False slab_invD(5) [OF assms(1)] x(2) y(2) by blast
    ultimately show ?thesis by auto
  qed
qed

text \<open>
  C18. In every state that the slab allocator can reach, through any interleaving of added pages,
  allocations, frees of held objects and arbitrary writes by the holders into their objects: each
  held object has the size of a class, is aligned to it and lies in one slab page behind the
  header; different held objects do not overlap; no allocation panics; and freeing a held object
  succeeds and leads to such a state again.
\<close>

theorem slab_objects_safe:
  assumes "slab_run checks a H"
  shows "(\<forall>(x, s) \<in> H. s \<in> set SIZE_CLASSES \<and> s dvd x \<and> (\<exists>pg \<in> slab_pages a. pg + HEADER_SIZE \<le> x \<and> x + s \<le> pg + PAGE_SIZE_4K)) \<and>
    (\<forall>(x, s) \<in> H. \<forall>(y, t) \<in> H. (x, s) \<noteq> (y, t) \<longrightarrow> {x..<x + s} \<inter> {y..<y + t} = {}) \<and>
    (\<forall>sz. slab_allocate checks a sz \<noteq> None) \<and>
    (\<forall>(x, s) \<in> H. \<exists>a'. slab_free checks a x s = Some (Inr a') \<and> slab_run checks a' (H - {(x, s)}))"
proof -
  from slab_run_inv [OF assms] obtain fr where fr: "slab_inv a fr" "slab_held a fr = H" by blast
  have obj: "s \<in> set SIZE_CLASSES \<and> s dvd x \<and> (\<exists>pg \<in> slab_pages a. pg + HEADER_SIZE \<le> x \<and> x + s \<le> pg + PAGE_SIZE_4K)" 
    "\<exists>a'. slab_free checks a x s = Some (Inr a') \<and> slab_run checks a' (H - {(x, s)})" if h: "(x, s) \<in> H" for x s
  proof -
    from slab_heldD [of x s a fr] h fr(2) obtain i pg where i: "s = SIZE_CLASSES ! i" "pg_class a pg i" "x \<in> page_objs s pg" "x \<notin> set (fr pg)" by blast
    have s: "s \<in> set SIZE_CLASSES" using class_in pg_class_lt [OF i(2)] i(1) by blast
    note b = page_objs_bounds [OF s i(3)]
    have "s dvd pg" using slab_invD(5) [OF fr(1) i(2)] class_facts(2) [OF s] dvd_trans by blast
    then have "s dvd x" using b by (metis add_leD1 dvd_add le_add_diff_inverse)
    then show "s \<in> set SIZE_CLASSES \<and> s dvd x \<and> (\<exists>pg \<in> slab_pages a. pg + HEADER_SIZE \<le> x \<and> x + s \<le> pg + PAGE_SIZE_4K)"
      using b s i(2) by (auto simp: slab_pages_def HEADER_SIZE_def PAGE_SIZE_4K_def)
    have "size_class_index s = Some i" "actual_size s = Some s" using class_index_self pg_class_lt [OF i(2)] i(1) by auto
    then show "\<exists>a'. slab_free checks a x s = Some (Inr a') \<and> slab_run checks a' (H - {(x, s)})"
      using slab_free_ok [OF fr(1) i(2) i(3) [unfolded i(1)] i(4)] srun_free [OF assms h] by blast
  qed
  moreover have "\<forall>(x, s) \<in> H. \<forall>(y, t) \<in> H. (x, s) \<noteq> (y, t) \<longrightarrow> {x..<x + s} \<inter> {y..<y + t} = {}"
    using held_disjoint [OF fr(1)] fr(2) by blast
  moreover have "slab_allocate checks a sz \<noteq> None" for sz using slab_allocate_total [OF fr(1)] by (metis option.distinct(1))
  ultimately show ?thesis by blast
qed

lemma sample_slab: "\<exists>a x. slab_run checks a {(x, 16)} \<and> set (class_pages (sa_classes a ! 0)) = {4096}"
proof -
  let ?a = "slab_new \<lparr>word_at = \<lambda>_. 0, half_at = \<lambda>_. 0\<rparr>"
  have n: "4096 \<notin> slab_pages ?a" using slab_inv_new(2) by (simp add: slab_pages_def)
  obtain a xs where a: "add_slab_page ?a 0 4096 = Some (True, a)" "slab_inv a ((\<lambda>_. [])(4096 := xs))" "set xs = page_objs 16 4096"
    "\<forall>q j. pg_class a q j \<longleftrightarrow> pg_class ?a q j \<or> q = 4096 \<and> j = 0"
    using add_slab_page_ok [OF slab_inv_new(1) [of _ "\<lambda>_. []"] _ _ n, of 0]
    by (auto simp: NUM_CLASSES_def SIZE_CLASSES_def slab_new_def class_new_def MAX_SLABS_PER_CLASS_def)
  have r: "slab_run checks a {}" using srun_page [OF srun_new n _ _ a(1)] by simp
  have "4112 \<in> page_objs 16 4096" unfolding page_objs_def PAGE_SIZE_4K_def by (rule image_eqI [of _ _ 1]) simp_all
  then have "pg_class a 4096 0" "xs \<noteq> []" using a(3,4) by auto
  then obtain x a' where x: "slab_allocate checks a 16 = Some (Inr (x, a'))" "sa_classes a' = sa_classes a"
    using slab_allocate_cases [OF a(2), of 16 0 checks] by (fastforce simp: size_class_index_def SIZE_CLASSES_def)
  have "pg_class a q 0 \<longleftrightarrow> q = 4096" for q using a(4) slab_inv_new(2) by blast
  moreover have "0 < NUM_CLASSES" by (simp add: NUM_CLASSES_def SIZE_CLASSES_def)
  ultimately have "set (class_pages (sa_classes a' ! 0)) = {4096}" unfolding x(2) by (auto simp: pg_class_def)
  then show ?thesis using srun_alloc [OF r _ x(1), of 16] by (auto simp: actual_size_def size_class_index_def SIZE_CLASSES_def)
qed

theorem slab_objects_safe_witness:
  "\<exists>a x. slab_run True a {(x, 16)} \<and> 16 dvd x \<and> slab_allocate True a 17 \<noteq> None \<and> (\<exists>a'. slab_free True a x 16 = Some (Inr a'))"
proof -
  obtain a x where "slab_run True a {(x, 16)}" using sample_slab by blast
  with slab_objects_safe [OF this] show ?thesis by fastforce
qed

lemma empty_iff_all: "A \<subseteq> B \<Longrightarrow> (\<And>x. x \<in> B \<Longrightarrow> P x \<longleftrightarrow> x \<notin> A) \<Longrightarrow> A = {} \<longleftrightarrow> (\<forall>x \<in> B. P x)"
  by blast

lemma page_exhausted:
  assumes "slab_inv a fr" "pg_class a pg i"
  shows "fr pg = [] \<longleftrightarrow> (\<forall>x \<in> page_objs (SIZE_CLASSES ! i) pg. (x, SIZE_CLASSES ! i) \<in> slab_held a fr)"
proof -
  have "set (fr pg) \<subseteq> page_objs (SIZE_CLASSES ! i) pg" using slab_invD(5) [OF assms] by (simp add: page_ok_def)
  moreover have "(x, SIZE_CLASSES ! i) \<in> slab_held a fr \<longleftrightarrow> x \<notin> set (fr pg)" if "x \<in> page_objs (SIZE_CLASSES ! i) pg" for x
    using slab_held_iff [OF assms that] by simp
  ultimately have "set (fr pg) = {} \<longleftrightarrow> (\<forall>x \<in> page_objs (SIZE_CLASSES ! i) pg. (x, SIZE_CLASSES ! i) \<in> slab_held a fr)"
    by (rule empty_iff_all)
  then show ?thesis by simp
qed

lemma slab_allocate_class:
  assumes "slab_inv a fr" "size_class_index sz = Some i"
  shows "(slab_allocate checks a sz = Some (Inl SlabExhausted) \<longleftrightarrow>
      (\<forall>pg. pg_class a pg i \<longrightarrow> (\<forall>x \<in> page_objs (SIZE_CLASSES ! i) pg. (x, SIZE_CLASSES ! i) \<in> slab_held a fr))) \<and>
    (\<forall>x a'. slab_allocate checks a sz = Some (Inr (x, a')) \<longrightarrow> (\<forall>t. (x, t) \<notin> slab_held a fr) \<and> slab_pages a' = slab_pages a)"
  using slab_allocate_cases [OF assms, of checks]
proof
  assume "slab_allocate checks a sz = Some (Inl SlabExhausted) \<and> (\<forall>pg. pg_class a pg i \<longrightarrow> fr pg = [])"
  then show ?thesis using page_exhausted [OF assms(1)] by auto
next
  assume "\<exists>pg x xs st. pg_class a pg i \<and> fr pg = x # xs \<and> slab_allocate checks a sz = Some (Inr (x, a\<lparr>sa_store := st\<rparr>)) \<and>
    slab_inv (a\<lparr>sa_store := st\<rparr>) (fr(pg := xs))"
  then obtain pg x xs st where pg: "pg_class a pg i" "fr pg = x # xs" and al: "slab_allocate checks a sz = Some (Inr (x, a\<lparr>sa_store := st\<rparr>))" by blast
  have "x \<in> page_objs (SIZE_CLASSES ! i) pg" using slab_invD(5) [OF assms(1) pg(1)] pg(2) by (simp add: page_ok_def)
  then have "(x, t) \<notin> slab_held a fr" for t using slab_held_iff [OF assms(1) pg(1)] pg(2) by simp
  then show ?thesis using al pg page_exhausted [OF assms(1) pg(1)] by (auto simp: slab_pages_def)
qed

text \<open>
  Slab allocation is exact. In every reachable state a request above 2048 bytes is the only one
  refused as too large; a smaller one is rounded up to a class and fails exactly when every object
  of every page of that class is held, and otherwise returns an object that nobody holds and
  neither adds nor removes pages.
\<close>

theorem slab_allocate_exact:
  assumes "slab_run checks a H"
  shows "(slab_allocate checks a sz = Some (Inl SizeTooLarge) \<longleftrightarrow> 2048 < sz) \<and>
    (\<forall>i. size_class_index sz = Some i \<longrightarrow> sz \<le> SIZE_CLASSES ! i \<and>
      (slab_allocate checks a sz = Some (Inl SlabExhausted) \<longleftrightarrow>
        (\<forall>pg. pg_class a pg i \<longrightarrow> (\<forall>x \<in> page_objs (SIZE_CLASSES ! i) pg. (x, SIZE_CLASSES ! i) \<in> H))) \<and>
      (\<forall>x a'. slab_allocate checks a sz = Some (Inr (x, a')) \<longrightarrow> (\<forall>t. (x, t) \<notin> H) \<and> slab_pages a' = slab_pages a))"
proof -
  from slab_run_inv [OF assms] obtain fr where fr: "slab_inv a fr" "slab_held a fr = H" by blast
  have "slab_allocate checks a sz = Some (Inl SizeTooLarge) \<longleftrightarrow> size_class_index sz = None"
    using slab_allocate_cases [OF fr(1), of sz _ checks] by (cases "size_class_index sz") (auto simp: slab_allocate_def [of _ _ sz])
  moreover note slab_allocate_class [OF fr(1), of sz _ checks, unfolded fr(2)] size_class_indexD [of sz]
  ultimately show ?thesis using size_class_None [of sz] by simp
qed

theorem slab_allocate_exact_witness:
  "\<exists>a x. slab_run False a {(x, 16)} \<and> slab_allocate False a 4000 = Some (Inl SizeTooLarge) \<and>
    (\<forall>y a'. slab_allocate False a 10 = Some (Inr (y, a')) \<longrightarrow> y \<noteq> x)"
proof -
  obtain a x where r: "slab_run False a {(x, 16)}" using sample_slab by blast
  have i: "size_class_index 10 = Some 0" by code_simp
  have "slab_allocate False a 4000 = Some (Inl SizeTooLarge)" using slab_allocate_exact [OF r, of 4000] by simp
  moreover have "y \<noteq> x" if "slab_allocate False a 10 = Some (Inr (y, a'))" for y a'
  proof -
    have "\<forall>t. (y, t) \<notin> {(x, 16)}" using slab_allocate_exact [OF r, of 10] i that by blast
    then show ?thesis by blast
  qed
  ultimately show ?thesis using r by blast
qed

section \<open>The interface of an object allocator\<close>

text \<open>
  What the allocators built on the slab rely on: a state is valid with a set of objects in use, from
  which \<open>release\<close> takes and to which \<open>alloc\<close> adds; the objects lie in pages that \<open>grow\<close> hands over.
\<close>

locale object_allocator =
  fixes valid :: "'a \<Rightarrow> (nat \<times> nat) set \<Rightarrow> bool"
    and pages_of :: "'a \<Rightarrow> nat set"
    and rounded :: "nat \<Rightarrow> nat option"
    and alloc :: "'a \<Rightarrow> nat \<Rightarrow> (mem_error, nat \<times> 'a) result option"
    and release :: "'a \<Rightarrow> nat \<Rightarrow> nat \<Rightarrow> (mem_error, 'a) result option"
    and grow :: "'a \<Rightarrow> nat \<Rightarrow> nat \<Rightarrow> (bool \<times> 'a) option"
  assumes objects_disjoint: "valid a H \<Longrightarrow> (x, s) \<in> H \<Longrightarrow> (y, t) \<in> H \<Longrightarrow> (x, s) \<noteq> (y, t) \<Longrightarrow> {x..<x + s} \<inter> {y..<y + t} = {}"
    and object_in_page: "valid a H \<Longrightarrow> (x, s) \<in> H \<Longrightarrow> \<exists>pg \<in> pages_of a. 4096 dvd pg \<and> pg + 4096 \<le> 2 ^ 64 \<and> pg + 16 \<le> x \<and> x + s \<le> pg + 4096 \<and> s dvd x \<and> 0 < s"
    and alloc_cases: "valid a H \<Longrightarrow> rounded sz = Some s \<Longrightarrow> alloc a sz = Some (Inl SlabExhausted) \<or>
      (\<exists>x a'. alloc a sz = Some (Inr (x, a')) \<and> valid a' (insert (x, s) H) \<and> (\<forall>t. (x, t) \<notin> H) \<and> pages_of a' = pages_of a)"
    and alloc_large: "rounded sz = None \<Longrightarrow> alloc a sz = Some (Inl SizeTooLarge)"
    and release_ok: "valid a H \<Longrightarrow> (x, s) \<in> H \<Longrightarrow> rounded sz = Some s \<Longrightarrow>
      \<exists>a'. release a x sz = Some (Inr a') \<and> valid a' (H - {(x, s)}) \<and> pages_of a' = pages_of a"
    and release_foreign: "valid a H \<Longrightarrow> rounded sz = Some s \<Longrightarrow> align_down_usize x PAGE_SIZE_4K \<notin> pages_of a \<Longrightarrow>
      release a x sz = Some (Inl InvalidAddress)"
    and grow_ok: "valid a H \<Longrightarrow> i < NUM_CLASSES \<Longrightarrow> pg \<notin> pages_of a \<Longrightarrow> 4096 dvd pg \<Longrightarrow> pg + 4096 \<le> 2 ^ 64 \<Longrightarrow>
      \<exists>ok a'. grow a i pg = Some (ok, a') \<and> valid a' H \<and> pages_of a' = (if ok then insert pg (pages_of a) else pages_of a)"
begin

lemma alloc_total: "valid a H \<Longrightarrow> \<exists>r. alloc a sz = Some r"
  using alloc_cases [of a H sz] alloc_large [of sz a] by (cases "rounded sz") blast+

lemma alloc_then_release:
  assumes "valid a H" "rounded sz = Some s" "alloc a sz = Some (Inr (x, a'))"
  shows "\<exists>a''. release a' x sz = Some (Inr a'') \<and> valid a'' H \<and> pages_of a'' = pages_of a"
proof -
  from alloc_cases [OF assms(1,2)] assms(3) have a': "valid a' (insert (x, s) H)" "(x, s) \<notin> H" "pages_of a' = pages_of a" by auto
  then have "insert (x, s) H - {(x, s)} = H" by blast
  with release_ok [OF a'(1) _ assms(2), of x] a'(3) show ?thesis by auto
qed

end

definition slab_state :: "slab_allocator \<Rightarrow> (nat \<times> nat) set \<Rightarrow> bool" where
  "slab_state a H \<longleftrightarrow> (\<exists>fr. slab_inv a fr \<and> slab_held a fr = H)"

lemma slab_state_object:
  assumes "slab_inv a fr" "(x, s) \<in> slab_held a fr"
  shows "\<exists>pg \<in> slab_pages a. 4096 dvd pg \<and> pg + 4096 \<le> 2 ^ 64 \<and> pg + 16 \<le> x \<and> x + s \<le> pg + 4096 \<and> s dvd x \<and> 0 < s"
proof -
  from slab_heldD [OF assms(2)] obtain i pg where i: "s = SIZE_CLASSES ! i" "pg_class a pg i" "x \<in> page_objs s pg" by blast
  have s: "s \<in> set SIZE_CLASSES" using class_in pg_class_lt [OF i(2)] i(1) by blast
  note b = page_objs_bounds [OF s i(3)] and pg = slab_invD(5) [OF assms(1) i(2)]
  have "s dvd pg" using pg class_facts(2) [OF s] dvd_trans by blast
  then have "s dvd x" using b by (metis add_leD1 dvd_add le_add_diff_inverse)
  then show ?thesis using b pg i(2) class_facts(1) [OF s] by (auto simp: slab_pages_def)
qed

lemma slab_free_foreign:
  assumes "slab_inv a fr" "actual_size sz = Some s" "align_down_usize x PAGE_SIZE_4K \<notin> slab_pages a"
  shows "slab_free checks a x sz = Some (Inl InvalidAddress)"
proof -
  from actual_sizeD [OF assms(2)] obtain i where i: "size_class_index sz = Some i" "i < NUM_CLASSES" by blast
  then have "align_down_usize x PAGE_SIZE_4K \<notin> set (class_pages (sa_classes a ! i))"
    using assms(3) by (auto simp: slab_pages_def pg_class_def)
  then show ?thesis using i slab_invD(1) [OF assms(1)] by (simp add: slab_free_def class_free_def)
qed

lemma slab_grow_ok:
  assumes "slab_state a H" "i < NUM_CLASSES" "pg \<notin> slab_pages a" "4096 dvd pg" "pg + 4096 \<le> 2 ^ 64"
  shows "\<exists>ok a'. add_slab_page a i pg = Some (ok, a') \<and> slab_state a' H \<and> slab_pages a' = (if ok then insert pg (slab_pages a) else slab_pages a)"
proof -
  from assms(1) obtain fr where fr: "slab_inv a fr" "slab_held a fr = H" by (auto simp: slab_state_def)
  show ?thesis
  proof (cases "sc_count (sa_classes a ! i) < MAX_SLABS_PER_CLASS")
    case True
    from add_slab_page_ok [OF fr(1) assms(2) True assms(3-5)] obtain a' xs where a': "add_slab_page a i pg = Some (True, a')"
      "slab_inv a' (fr(pg := xs))" "set xs = page_objs (SIZE_CLASSES ! i) pg" "\<forall>q j. pg_class a' q j \<longleftrightarrow> pg_class a q j \<or> q = pg \<and> j = i" by blast
    then have "slab_state a' H" using slab_held_grow [of a' a pg i xs fr] assms(3) fr(2) by (auto simp: slab_state_def)
    with a'(1,4) show ?thesis by (auto simp: slab_pages_def)
  next
    case False
    then have "add_slab_page a i pg = Some (False, a)"
      using add_slab_page_full [OF fr(1) assms(2)] slab_invD(4) [OF fr(1) assms(2)] by (simp add: not_less)
    with assms(1) show ?thesis by auto
  qed
qed

lemma slab_alloc_step:
  assumes "slab_state a H" "actual_size sz = Some s"
  shows "slab_allocate checks a sz = Some (Inl SlabExhausted) \<or>
    (\<exists>x a'. slab_allocate checks a sz = Some (Inr (x, a')) \<and> slab_state a' (insert (x, s) H) \<and> (\<forall>t. (x, t) \<notin> H) \<and> slab_pages a' = slab_pages a)"
proof -
  from assms(1) obtain fr where fr: "slab_inv a fr" "slab_held a fr = H" by (auto simp: slab_state_def)
  from actual_sizeD [OF assms(2)] obtain i where i: "size_class_index sz = Some i" "s = SIZE_CLASSES ! i" by blast
  from slab_allocate_cases [OF fr(1) i(1), of checks] slab_allocate_class [OF fr(1) i(1), of checks] slab_held_pop [OF fr(1)]
  show ?thesis unfolding slab_state_def fr(2) i(2) by metis
qed

lemma slab_free_step:
  assumes "slab_state a H" "(x, s) \<in> H" "actual_size sz = Some s"
  shows "\<exists>a'. slab_free checks a x sz = Some (Inr a') \<and> slab_state a' (H - {(x, s)}) \<and> slab_pages a' = slab_pages a"
proof -
  from assms(1) obtain fr where fr: "slab_inv a fr" "slab_held a fr = H" by (auto simp: slab_state_def)
  with assms(2) obtain i pg where pg: "s = SIZE_CLASSES ! i" "pg_class a pg i" "x \<in> page_objs (SIZE_CLASSES ! i) pg" "x \<notin> set (fr pg)"
    using slab_heldD by blast
  have "size_class_index sz = Some i" using actual_sizeD [OF assms(3)] class_inj pg(1) pg_class_lt [OF pg(2)] by blast
  from slab_free_ok [OF fr(1) pg(2-4) this, of checks] obtain st where
    "slab_free checks a x sz = Some (Inr (a\<lparr>sa_store := st\<rparr>))" "slab_inv (a\<lparr>sa_store := st\<rparr>) (fr(pg := x # fr pg))" by auto
  then show ?thesis using slab_held_push [OF fr(1) pg(2,3)] fr(2) pg(1) by (auto simp: slab_state_def slab_pages_def)
qed

interpretation sl: object_allocator slab_state slab_pages actual_size "slab_allocate checks" "slab_free checks" add_slab_page
  for checks :: bool
proof (unfold_locales, goal_cases)
  case (1 a H x s y t)
  then show ?case using held_disjoint by (metis slab_state_def)
next
  case (2 a H x s)
  then show ?case using slab_state_object by (metis slab_state_def)
next
  case (3 a H sz s)
  then show ?case by (rule slab_alloc_step)
next
  case (4 sz a)
  then show ?case by (simp add: actual_size_def slab_allocate_def)
next
  case (5 a H x s sz)
  then show ?case by (rule slab_free_step)
next
  case (6 a H sz s x)
  then show ?case using slab_free_foreign by (metis slab_state_def)
next
  case (7 a H i pg)
  then show ?case by (rule slab_grow_ok)
qed

section \<open>Freeing twice\<close>

lemma find_singleton: "set xs = {x} \<Longrightarrow> P x \<Longrightarrow> find P xs = Some x"
  by (cases xs) auto

lemma class_free_release:
  "align_down_usize x PAGE_SIZE_4K = pg \<Longrightarrow> pg \<in> set (class_pages c) \<Longrightarrow>
    \<exists>st'. class_free False c x st = Some (Inr st') \<and> word_at st' = (word_at st)(x := word_at st pg, pg := x)"
  by (simp add: class_free_def prof_sub_def Let_def)

text \<open>
  The slab allocator does not detect a double free. In the release profile, freeing a held
  object twice succeeds both times, and the object then links to itself: when its page is the only
  one of its class, all later requests of that class are given this one object.
\<close>

theorem slab_double_free_aliases:
  assumes "slab_run False a H" "(x, SIZE_CLASSES ! i) \<in> H" "i < NUM_CLASSES"
  shows "\<exists>a1 a2. slab_free False a x (SIZE_CLASSES ! i) = Some (Inr a1) \<and> slab_free False a1 x (SIZE_CLASSES ! i) = Some (Inr a2) \<and>
    (\<forall>pg. set (class_pages (sa_classes a ! i)) = {pg} \<longrightarrow>
       (\<exists>a3 a4. slab_allocate False a2 (SIZE_CLASSES ! i) = Some (Inr (x, a3)) \<and> slab_allocate False a3 (SIZE_CLASSES ! i) = Some (Inr (x, a4))))"
proof -
  from slab_run_inv [OF assms(1)] obtain fr where fr: "slab_inv a fr" "slab_held a fr = H" by blast
  with slab_heldD [of x "SIZE_CLASSES ! i" a fr] assms(2,3) obtain pg where pg: "pg_class a pg i" "x \<in> page_objs (SIZE_CLASSES ! i) pg"
    using class_inj pg_class_lt by blast
  let ?c = "sa_classes a ! i"
  have idx: "idx (sa_classes a) i = Some ?c" and ci: "size_class_index (SIZE_CLASSES ! i) = Some i"
    using assms(3) slab_invD(1) [OF fr(1)] class_index_self by simp_all
  have ad: "align_down_usize x PAGE_SIZE_4K = pg" and m: "pg \<in> set (class_pages ?c)"
    using align_down_object [OF class_in [OF assms(3)] pg(2)] slab_invD(5) [OF fr(1) pg(1)] pg(1) by (auto simp: pg_class_def)
  have ne: "x \<noteq> pg" "x \<noteq> 0" using page_objs_bounds(1) [OF class_in [OF assms(3)] pg(2)] by auto
  obtain st1 where s1: "class_free False ?c x (sa_store a) = Some (Inr st1)" "word_at st1 = (word_at (sa_store a))(x := word_at (sa_store a) pg, pg := x)"
    using class_free_release [OF ad m] by blast
  obtain st2 where s2: "class_free False ?c x st1 = Some (Inr st2)" "word_at st2 = (word_at st1)(x := word_at st1 pg, pg := x)"
    using class_free_release [OF ad m] by blast
  have w: "word_at st2 x = x" "word_at st2 pg = x" using s1(2) s2(2) ne by auto
  have again: "\<exists>st'. class_allocate False ?c st = Some (Some (x, st')) \<and> word_at st' x = x \<and> word_at st' pg = x"
    if "set (class_pages ?c) = {pg}" "word_at st x = x" "word_at st pg = x" for st
    using that ne find_singleton [OF that(1), of "\<lambda>pg. hdr_free_list st pg \<noteq> 0"] by (simp add: class_allocate_def prof_add_def Let_def)
  have "\<exists>a3 a4. slab_allocate False (a\<lparr>sa_store := st2\<rparr>) (SIZE_CLASSES ! i) = Some (Inr (x, a3)) \<and> slab_allocate False a3 (SIZE_CLASSES ! i) = Some (Inr (x, a4))"
    if p: "set (class_pages ?c) = {pg}"
  proof -
    obtain st3 where s3: "class_allocate False ?c st2 = Some (Some (x, st3))" "word_at st3 x = x" "word_at st3 pg = x" using again [OF p w] by blast
    obtain st4 where "class_allocate False ?c st3 = Some (Some (x, st4))" using again [OF p s3(2,3)] by blast
    with s3(1) show ?thesis by (simp add: slab_allocate_def ci idx)
  qed
  moreover have "slab_free False a x (SIZE_CLASSES ! i) = Some (Inr (a\<lparr>sa_store := st1\<rparr>))"
    "slab_free False (a\<lparr>sa_store := st1\<rparr>) x (SIZE_CLASSES ! i) = Some (Inr (a\<lparr>sa_store := st2\<rparr>))"
    using s1(1) s2(1) by (simp_all add: slab_free_def ci idx)
  moreover have "q = pg" if "set (class_pages ?c) = {q}" for q using m that by simp
  ultimately show ?thesis by blast
qed

theorem slab_double_free_aliases_witness:
  "\<exists>a x a1 a2 a3 a4. slab_run False a {(x, 16)} \<and> slab_free False a x 16 = Some (Inr a1) \<and> slab_free False a1 x 16 = Some (Inr a2) \<and>
    slab_allocate False a2 16 = Some (Inr (x, a3)) \<and> slab_allocate False a3 16 = Some (Inr (x, a4))"
proof -
  obtain a x where r: "slab_run False a {(x, 16)}" "set (class_pages (sa_classes a ! 0)) = {4096}" using sample_slab by blast
  have c: "SIZE_CLASSES ! 0 = 16" "0 < NUM_CLASSES" by (simp_all add: NUM_CLASSES_def SIZE_CLASSES_def)
  from slab_double_free_aliases [OF r(1), of x 0, unfolded c] r c(2) show ?thesis by blast
qed

end
