(* ===== verification/Global_Alloc.thy ===== *)
theory Global_Alloc
  imports Buddy Slab
begin

text \<open>
  The global allocator of the kernel (\<open>kernel/src/mem/global.rs\<close>), which every \<open>Vec\<close> and \<open>Box\<close> of the
  kernel goes through: small layouts are served by the slab allocator, which grows by pages of the
  buddy allocator, the others by the buddy allocator. The null pointer is 0. The main theorem says
  that live allocations of any program are disjoint, aligned and inside the managed memory.
\<close>

section \<open>Operations\<close>

record kernel_allocator =
  ka_buddy :: buddy
  ka_slab :: slab_allocator
  ka_initialized :: bool

definition ka_new :: "nat \<Rightarrow> slab_store \<Rightarrow> kernel_allocator" where
  "ka_new max_pages st = \<lparr>ka_buddy = buddy_new max_pages, ka_slab = slab_new st, ka_initialized = False\<rparr>"

definition prefill :: "nat \<Rightarrow> buddy \<times> slab_allocator \<Rightarrow> (buddy \<times> slab_allocator) option" where
  "prefill class_idx = (\<lambda>(b, s). do {
     r \<leftarrow> allocate_page b;
     case r of Inl _ \<Rightarrow> Some (b, s)
     | Inr (page, b') \<Rightarrow> do { (_, s') \<leftarrow> add_slab_page s class_idx page; Some (b', s') } })"

definition ka_init :: "kernel_allocator \<Rightarrow> phys_addr \<Rightarrow> nat \<Rightarrow> kernel_allocator option" where
  "ka_init k base sz = do {
     b \<leftarrow> buddy_init (ka_buddy k) base sz;
     b' \<leftarrow> add_free_region b base sz;
     (b'', s) \<leftarrow> mfold prefill [0..<length SIZE_CLASSES] (b', ka_slab k);
     Some \<lparr>ka_buddy = b'', ka_slab = s, ka_initialized = True\<rparr> }"

definition try_slab_alloc :: "bool \<Rightarrow> kernel_allocator \<Rightarrow> nat \<Rightarrow> (nat option \<times> kernel_allocator) option" where
  "try_slab_alloc checks k sz = do {
     r \<leftarrow> slab_allocate checks (ka_slab k) sz;
     case r of Inr (p, s) \<Rightarrow> Some (Some p, k\<lparr>ka_slab := s\<rparr>)
     | Inl _ \<Rightarrow> (case size_class_index sz of None \<Rightarrow> Some (None, k)
       | Some class_idx \<Rightarrow> do {
           r2 \<leftarrow> allocate_page (ka_buddy k);
           case r2 of Inl _ \<Rightarrow> Some (None, k)
           | Inr (page, b) \<Rightarrow> do {
               (ok, s) \<leftarrow> add_slab_page (ka_slab k) class_idx page;
               if \<not> ok then Some (None, k\<lparr>ka_buddy := b, ka_slab := s\<rparr>)
               else do {
                 r3 \<leftarrow> slab_allocate checks s sz;
                 case r3 of Inr (p, s') \<Rightarrow> Some (Some p, k\<lparr>ka_buddy := b, ka_slab := s'\<rparr>)
                 | Inl _ \<Rightarrow> Some (None, k\<lparr>ka_buddy := b, ka_slab := s\<rparr>) } } }) }"

definition buddy_order :: "bool \<Rightarrow> nat \<Rightarrow> nat \<Rightarrow> nat option" where
  "buddy_order checks sz align = do {
     alloc_size \<leftarrow> (if align > PAGE_SIZE_4K then usize_add checks sz align else Some sz);
     let pages_needed = (alloc_size + PAGE_SIZE_4K - 1) div PAGE_SIZE_4K;
     Some (trailing_zeros (of_nat (next_power_of_two pages_needed))) }"

definition align_ptr :: "bool \<Rightarrow> nat \<Rightarrow> nat \<Rightarrow> nat option" where
  "align_ptr checks ptr align = do {
     a \<leftarrow> usize_add checks ptr align;
     b \<leftarrow> usize_sub checks a 1;
     Some (align_down_usize b align) }"

definition try_buddy_alloc :: "bool \<Rightarrow> kernel_allocator \<Rightarrow> nat \<Rightarrow> nat \<Rightarrow> (nat \<times> kernel_allocator) option" where
  "try_buddy_alloc checks k sz align = do {
     order \<leftarrow> buddy_order checks sz align;
     r \<leftarrow> allocate (ka_buddy k) order;
     case r of Inl _ \<Rightarrow> Some (0, k)
     | Inr (addr, b) \<Rightarrow> do {
         ptr \<leftarrow> (if align > PAGE_SIZE_4K then align_ptr checks addr align else Some addr);
         Some (ptr, k\<lparr>ka_buddy := b\<rparr>) } }"

definition slab_layout :: "nat \<Rightarrow> nat \<Rightarrow> bool" where
  "slab_layout sz align \<longleftrightarrow> sz \<le> 2048 \<and> align \<le> max sz 16"

definition ka_alloc :: "bool \<Rightarrow> kernel_allocator \<Rightarrow> nat \<Rightarrow> nat \<Rightarrow> (nat \<times> kernel_allocator) option" where
  "ka_alloc checks k sz align =
     (if \<not> ka_initialized k then Some (0, k)
      else do {
        (p, k') \<leftarrow> (if slab_layout sz align then try_slab_alloc checks k sz else Some (None, k));
        case p of Some ptr \<Rightarrow> Some (ptr, k') | None \<Rightarrow> try_buddy_alloc checks k' sz align })"

definition ka_dealloc :: "bool \<Rightarrow> kernel_allocator \<Rightarrow> nat \<Rightarrow> nat \<Rightarrow> nat \<Rightarrow> kernel_allocator option" where
  "ka_dealloc checks k ptr sz align =
     (if \<not> ka_initialized k \<or> ptr = 0 then Some k
      else if slab_layout sz align then do {
        r \<leftarrow> slab_free checks (ka_slab k) ptr sz;
        Some (case r of Inl _ \<Rightarrow> k | Inr s \<Rightarrow> k\<lparr>ka_slab := s\<rparr>) }
      else do {
        order \<leftarrow> buddy_order checks sz align;
        let buddy_addr = (if align > PAGE_SIZE_4K then align_down_usize ptr PAGE_SIZE_4K else ptr);
        r \<leftarrow> free (ka_buddy k) buddy_addr order;
        Some (case r of Inl _ \<Rightarrow> k | Inr b \<Rightarrow> k\<lparr>ka_buddy := b\<rparr>) })"

section \<open>Orders and alignment\<close>

lemma trailing_zeros_pow: "n < 64 \<Longrightarrow> trailing_zeros (of_nat (2 ^ n) :: u64) = n"
proof -
  assume n: "n < 64"
  have b: "bit (of_nat (2 ^ n) :: u64) k \<longleftrightarrow> k = n" for k using n by (auto simp: bit_simps)
  then have "(of_nat (2 ^ n) :: u64) \<noteq> 0" by (metis bit_0_eq bot_apply bot_bool_def)
  from trailing_zeros_nonzero [OF this] b show ?thesis by blast
qed

text \<open>The bytes an allocation of the buddy allocator asks for.\<close>

definition request :: "nat \<Rightarrow> nat \<Rightarrow> nat" where
  "request sz align = (if align > PAGE_SIZE_4K then sz + align else sz)"

lemma buddy_order_spec:
  assumes "sz + align < 2 ^ 63"
  shows "\<exists>n. buddy_order checks sz align = Some n \<and> request sz align \<le> 2 ^ n * PAGE_SIZE_4K \<and>
    (0 < n \<longrightarrow> 2 ^ (n - 1) * PAGE_SIZE_4K < request sz align)"
proof -
  let ?p = "(request sz align + PAGE_SIZE_4K - 1) div PAGE_SIZE_4K"
  let ?n = "if ?p \<le> 1 then 0 else bit_length (?p - 1)"
  have np: "next_power_of_two ?p = 2 ^ ?n" by (simp add: next_power_of_two_def)
  have r: "request sz align < 2 ^ 63" using assms by (simp add: request_def)
  have p: "?p < 2 ^ 52" using r by (simp add: PAGE_SIZE_4K_def)
  then have "bit_length (?p - 1) \<le> 52" unfolding bit_length_le_iff by linarith
  then have "?n < 64" by simp
  then have tz: "trailing_zeros (of_nat (next_power_of_two ?p) :: u64) = ?n" unfolding np by (rule trailing_zeros_pow)
  have "(if align > PAGE_SIZE_4K then usize_add checks sz align else Some sz) = Some (request sz align)"
    using assms by (simp add: request_def)
  then have ao: "buddy_order checks sz align = Some ?n" unfolding buddy_order_def Let_def using tz by simp
  have le: "?p \<le> 2 ^ ?n"
  proof (cases "?p \<le> 1")
    case False
    then show ?thesis using bit_length_bounds(1) [of "?p - 1"] by simp
  qed simp
  have "request sz align \<le> ?p * PAGE_SIZE_4K" unfolding PAGE_SIZE_4K_def by linarith
  then have up: "request sz align \<le> 2 ^ ?n * PAGE_SIZE_4K" using le by (meson le_trans mult_le_mono1)
  have low: "2 ^ (?n - 1) * PAGE_SIZE_4K < request sz align" if pos: "0 < ?n"
  proof -
    have n: "\<not> ?p \<le> 1" "?n = bit_length (?p - 1)" using pos by (auto split: if_splits)
    then have "2 ^ (?n - 1) \<le> ?p - 1" using bit_length_bounds(2) [of "?p - 1"] by simp
    then have "2 ^ (?n - 1) * PAGE_SIZE_4K \<le> (?p - 1) * PAGE_SIZE_4K" by (rule mult_le_mono1)
    also have "\<dots> < request sz align" using n(1) unfolding PAGE_SIZE_4K_def by linarith
    finally show ?thesis .
  qed
  show ?thesis by (intro exI [of _ ?n] conjI impI ao up low)
qed

lemma align_ptr_spec:
  assumes "is_power_of_two align" "p + align < 2 ^ 64"
  shows "\<exists>q. align_ptr checks p align = Some q \<and> p \<le> q \<and> q < p + align \<and> align dvd q"
proof -
  from assms(1) obtain k where k: "align = 2 ^ k" by (auto simp: is_power_of_two_iff)
  have "(2::nat) ^ k < 2 ^ 64" using assms(2) unfolding k by linarith
  then have k64: "k < 64" by (rule power_less_imp_less_exp [rotated]) simp
  have pos: "0 < align" by (simp add: k)
  let ?q = "(p + align - 1) - (p + align - 1) mod align"
  have "align_down_usize (p + align - 1) align = ?q"
    using assms(2) align_down_usize_eq [of "p + align - 1" k] k64 unfolding k by simp
  moreover have "usize_add checks p align = Some (p + align)" "usize_sub checks (p + align) 1 = Some (p + align - 1)"
    using assms(2) pos by simp_all
  ultimately have "align_ptr checks p align = Some ?q" unfolding align_ptr_def by simp
  moreover have "?q = (p + align - 1) div align * align" by (simp add: minus_mod_eq_div_mult)
  moreover have "p \<le> ?q" using mod_less_divisor [OF pos, of "p + align - 1"] by linarith
  moreover have "?q < p + align" using pos by linarith
  ultimately show ?thesis by (metis dvd_triv_right)
qed

section \<open>Blocks as bytes\<close>

definition block_bytes :: "buddy \<Rightarrow> nat \<Rightarrow> nat \<Rightarrow> nat set" where
  "block_bytes b n i = {block_addr b n i..<block_addr b n i + 2 ^ n * PAGE_SIZE_4K}"

lemma block_bytes_page: "x \<in> block_bytes b n i \<Longrightarrow> bd_base b \<le> x \<and> page_of b x \<in> blk n i"
proof -
  assume x: "x \<in> block_bytes b n i"
  then have b: "bd_base b + i * 2 ^ n * PAGE_SIZE_4K \<le> x" "x < bd_base b + i * 2 ^ n * PAGE_SIZE_4K + 2 ^ n * PAGE_SIZE_4K"
    by (auto simp: block_bytes_def block_addr_def)
  then have "i * 2 ^ n * PAGE_SIZE_4K \<le> x - bd_base b" "x - bd_base b < (i * 2 ^ n + 2 ^ n) * PAGE_SIZE_4K"
    by (auto simp: add_mult_distrib)
  then have "i * 2 ^ n \<le> page_of b x" "page_of b x < i * 2 ^ n + 2 ^ n"
    unfolding page_of_def by (simp_all add: less_eq_div_iff_mult_less_eq div_less_iff_less_mult PAGE_SIZE_4K_def)
  then show ?thesis using b by (simp add: blk_interval)
qed

lemma block_bytes_disjoint:
  assumes "disjoint_blocks H" "(n, i) \<in> H" "(m, j) \<in> H" "(n, i) \<noteq> (m, j)"
  shows "block_bytes b n i \<inter> block_bytes b m j = {}"
  using assms block_bytes_page [of _ b n i] block_bytes_page [of _ b m j] unfolding disjoint_blocks_def by blast

lemma block_addr_aligned: "buddy_inv b \<Longrightarrow> 4096 dvd block_addr b n i"
  by (simp add: buddy_inv_def block_addr_def PAGE_SIZE_4K_def)

section \<open>The invariant\<close>

text \<open>
  A live allocation is its pointer, size and alignment with the place that backs it: an object of a
  slab, with the size of its class, or a block of the buddy allocator, with order and index.
\<close>

datatype place = InSlab nat | InBlock nat nat

type_synonym allocation = "nat \<times> nat \<times> nat \<times> place"

fun footprint :: "buddy \<Rightarrow> allocation \<Rightarrow> nat set" where
  "footprint b (p, sz, al, InSlab c) = {p..<p + c}"
| "footprint b (p, sz, al, InBlock n i) = block_bytes b n i"

fun placed :: "bool \<Rightarrow> kernel_allocator \<Rightarrow> (nat \<times> nat) set \<Rightarrow> (nat \<times> nat) set \<Rightarrow> allocation \<Rightarrow> bool" where
  "placed checks k H S (p, sz, al, InSlab c) \<longleftrightarrow> al dvd p \<and> slab_layout sz al \<and> actual_size sz = Some c \<and> (p, c) \<in> S"
| "placed checks k H S (p, sz, al, InBlock n i) \<longleftrightarrow> al dvd p \<and> (n, i) \<in> H \<and> block_addr (ka_buddy k) n i \<notin> slab_pages (ka_slab k) \<and>
     buddy_order checks sz al = Some n \<and> block_addr (ka_buddy k) n i \<le> p \<and>
     p + sz \<le> block_addr (ka_buddy k) n i + 2 ^ n * PAGE_SIZE_4K \<and> 0 < sz \<and> 4096 dvd p \<and>
     (al \<le> PAGE_SIZE_4K \<longrightarrow> p = block_addr (ka_buddy k) n i)"

text \<open>
  \<open>H\<close> are all blocks taken from the buddy allocator: those of allocations, those of the slab and
  those that were lost; \<open>S\<close> are the objects in use.
\<close>

definition apart :: "buddy \<Rightarrow> allocation set \<Rightarrow> bool" where
  "apart b L \<longleftrightarrow> (\<forall>l \<in> L. \<forall>m \<in> L. l \<noteq> m \<longrightarrow> footprint b l \<inter> footprint b m = {})"

lemma apartD: "apart b L \<Longrightarrow> l \<in> L \<Longrightarrow> m \<in> L \<Longrightarrow> l \<noteq> m \<Longrightarrow> footprint b l \<inter> footprint b m = {}"
  by (simp add: apart_def)

lemma apart_subset: "apart b L \<Longrightarrow> M \<subseteq> L \<Longrightarrow> apart b M"
  unfolding apart_def by (meson subsetD)

lemma apart_insert:
  assumes "apart b L" "\<And>m. m \<in> L \<Longrightarrow> footprint b l \<inter> footprint b m = {}"
  shows "apart b (insert l L)"
  unfolding apart_def
proof (intro ballI impI)
  fix x y assume "x \<in> insert l L" "y \<in> insert l L" "x \<noteq> y"
  then show "footprint b x \<inter> footprint b y = {}"
    using assms(2) [of x] assms(2) [of y] apartD [OF assms(1), of x y] by (auto simp: Int_commute)
qed

definition heap_ok :: "bool \<Rightarrow> buddy \<Rightarrow> kernel_allocator \<Rightarrow> (nat \<times> nat) set \<Rightarrow> (nat \<times> nat) set \<Rightarrow> allocation set \<Rightarrow> bool" where
  "heap_ok checks b0 k H S L \<longleftrightarrow> ka_initialized k \<and> holds b0 (ka_buddy k) H \<and> slab_state (ka_slab k) S \<and> bd_base (ka_buddy k) = bd_base b0 \<and>
     (\<forall>pg \<in> slab_pages (ka_slab k). \<exists>j. (0, j) \<in> H \<and> pg = block_addr (ka_buddy k) 0 j) \<and>
     (\<forall>l \<in> L. placed checks k H S l) \<and> apart (ka_buddy k) L"

lemma heap_okD:
  assumes "heap_ok checks b0 k H S L"
  shows "ka_initialized k" "holds b0 (ka_buddy k) H" "slab_state (ka_slab k) S" "bd_base (ka_buddy k) = bd_base b0"
    "pg \<in> slab_pages (ka_slab k) \<Longrightarrow> \<exists>j. (0, j) \<in> H \<and> pg = block_addr (ka_buddy k) 0 j"
    "l \<in> L \<Longrightarrow> placed checks k H S l"
    "l \<in> L \<Longrightarrow> m \<in> L \<Longrightarrow> l \<noteq> m \<Longrightarrow> footprint (ka_buddy k) l \<inter> footprint (ka_buddy k) m = {}"
    "buddy_inv (ka_buddy k)" "disjoint_blocks H"
proof -
  note d = assms [unfolded heap_ok_def]
  show "ka_initialized k" "slab_state (ka_slab k) S" "bd_base (ka_buddy k) = bd_base b0" using d by simp_all
  show h: "holds b0 (ka_buddy k) H" using d by simp
  then show "buddy_inv (ka_buddy k)" "disjoint_blocks H" by (simp_all add: holds_def)
  show "pg \<in> slab_pages (ka_slab k) \<Longrightarrow> \<exists>j. (0, j) \<in> H \<and> pg = block_addr (ka_buddy k) 0 j" using d by simp
  show "l \<in> L \<Longrightarrow> placed checks k H S l" using d by simp
  show "l \<in> L \<Longrightarrow> m \<in> L \<Longrightarrow> l \<noteq> m \<Longrightarrow> footprint (ka_buddy k) l \<inter> footprint (ka_buddy k) m = {}"
    using d apartD [of "ka_buddy k" L l m] by simp
qed

lemma heap_okI:
  assumes "ka_initialized k" "holds b0 (ka_buddy k) H" "slab_state (ka_slab k) S" "bd_base (ka_buddy k) = bd_base b0"
    "\<And>pg. pg \<in> slab_pages (ka_slab k) \<Longrightarrow> \<exists>j. (0, j) \<in> H \<and> pg = block_addr (ka_buddy k) 0 j"
    "\<And>l. l \<in> L \<Longrightarrow> placed checks k H S l" "apart (ka_buddy k) L"
  shows "heap_ok checks b0 k H S L"
  unfolding heap_ok_def using assms by (intro conjI ballI)

lemma heap_ok_apart: "heap_ok checks b0 k H S L \<Longrightarrow> apart (ka_buddy k) L"
  by (simp add: heap_ok_def)

lemma block_addr_cong: "bd_base b = bd_base b' \<Longrightarrow> block_addr b = block_addr b'"
  by (intro ext) (simp add: block_addr_def)

lemma footprint_cong: "bd_base b = bd_base b' \<Longrightarrow> footprint b l = footprint b' l"
proof -
  assume "bd_base b = bd_base b'"
  then have "block_bytes b n i = block_bytes b' n i" for n i by (simp add: block_bytes_def block_addr_def)
  then show ?thesis by (cases "(b, l)" rule: footprint.cases) simp_all
qed

lemma pages_slab_block: "pg = block_addr b 0 j \<Longrightarrow> {pg..<pg + 4096} = block_bytes b 0 j"
  by (simp add: block_bytes_def PAGE_SIZE_4K_def)

text \<open>An object of the slab and a block that is not a page of the slab do not overlap.\<close>

lemma object_block_disjoint:
  assumes "heap_ok checks b0 k H S L" "(x, c) \<in> S" "(n, i) \<in> H" "block_addr (ka_buddy k) n i \<notin> slab_pages (ka_slab k)"
  shows "{x..<x + c} \<inter> block_bytes (ka_buddy k) n i = {}"
proof -
  from sl.object_in_page [OF heap_okD(3) [OF assms(1)] assms(2)] obtain pg where
    pg: "pg \<in> slab_pages (ka_slab k)" "pg + 16 \<le> x" "x + c \<le> pg + 4096" by blast
  from heap_okD(5) [OF assms(1) pg(1)] obtain j where j: "(0, j) \<in> H" "pg = block_addr (ka_buddy k) 0 j" by blast
  have "(0, j) \<noteq> (n, i)" using j(2) pg(1) assms(4) by auto
  then have "block_bytes (ka_buddy k) 0 j \<inter> block_bytes (ka_buddy k) n i = {}"
    by (rule block_bytes_disjoint [OF heap_okD(9) [OF assms(1)] j(1) assms(3)])
  moreover have "{x..<x + c} \<subseteq> block_bytes (ka_buddy k) 0 j" unfolding pages_slab_block [OF j(2), symmetric] using pg(2,3) by auto
  ultimately show ?thesis by blast
qed

text \<open>Adding one allocation whose footprint is apart from the others.\<close>

lemma heap_ok_insert:
  assumes "heap_ok checks b0 k H S L" "placed checks k H S l" "\<And>m. m \<in> L \<Longrightarrow> footprint (ka_buddy k) l \<inter> footprint (ka_buddy k) m = {}"
  shows "heap_ok checks b0 k H S (insert l L)"
  using assms(1,2) apart_insert [OF _ assms(3)] unfolding heap_ok_def by simp

lemma heap_ok_mono: "heap_ok checks b0 k H S L \<Longrightarrow> M \<subseteq> L \<Longrightarrow> heap_ok checks b0 k H S M"
  unfolding heap_ok_def by (meson apart_subset subsetD)

section \<open>Steps\<close>

lemma slab_step_ok:
  assumes h: "heap_ok checks b0 k H S L" and s: "slab_state s' (insert (x, c) S)" "slab_pages s' = slab_pages (ka_slab k)"
    and new: "\<forall>t. (x, t) \<notin> S" and lay: "slab_layout sz al" "actual_size sz = Some c" "al dvd x"
  shows "heap_ok checks b0 (k\<lparr>ka_slab := s'\<rparr>) H (insert (x, c) S) (insert (x, sz, al, InSlab c) L)"
proof (rule heap_ok_insert)
  let ?k = "k\<lparr>ka_slab := s'\<rparr>"
  have pl: "placed checks ?k H (insert (x, c) S) l" if "placed checks k H S l" for l
    using that s(2) by (cases "(checks, k, H, S, l)" rule: placed.cases) auto
  show hk: "heap_ok checks b0 ?k H (insert (x, c) S) L"
  proof (rule heap_okI)
    show "\<exists>j. (0, j) \<in> H \<and> pg = block_addr (ka_buddy ?k) 0 j" if "pg \<in> slab_pages (ka_slab ?k)" for pg
      using heap_okD(5) [OF h] that s(2) by simp
    show "placed checks ?k H (insert (x, c) S) l" if "l \<in> L" for l by (rule pl [OF heap_okD(6) [OF h that]])
  qed (use heap_okD(1,2,4) [OF h] s(1) heap_ok_apart [OF h] in simp_all)
  show "placed checks ?k H (insert (x, c) S) (x, sz, al, InSlab c)" using lay by simp
  fix m assume m: "m \<in> L"
  obtain p t a w where mm: "m = (p, t, a, w)" by (cases m)
  show "footprint (ka_buddy ?k) (x, sz, al, InSlab c) \<inter> footprint (ka_buddy ?k) m = {}"
  proof (cases w)
    case (InSlab d)
    then have d: "(p, d) \<in> S" using heap_okD(6) [OF h m] mm by simp
    then have "(x, c) \<noteq> (p, d)" using new by blast
    then show ?thesis using sl.objects_disjoint [OF s(1), of x c p d] d InSlab mm by simp
  next
    case (InBlock n i)
    then have "(n, i) \<in> H" "block_addr (ka_buddy k) n i \<notin> slab_pages (ka_slab k)" using heap_okD(6) [OF h m] mm by simp_all
    then show ?thesis using object_block_disjoint [OF hk, of x c n i] s(2) InBlock mm by simp
  qed
qed

lemma block_step_ok:
  assumes h: "heap_ok checks b0 k H S L" and al: "allocate (ka_buddy k) n = Some (Inr (addr, b'))"
  shows "\<exists>i. addr = block_addr b' n i \<and> (n, i) \<notin> H \<and> addr \<notin> slab_pages (ka_slab k) \<and>
    heap_ok checks b0 (k\<lparr>ka_buddy := b'\<rparr>) (insert (n, i) H) S L"
proof -
  let ?b = "ka_buddy k"
  from pa.alloc_InrD [OF heap_okD(8) [OF h] al] obtain i where i: "addr = block_addr ?b n i" "block_addr b' = block_addr ?b"
    "blk n i \<subseteq> free_set ?b" by blast
  have "bd_base b' = bd_base ?b" using fun_cong [OF fun_cong [OF i(2)], of 0 0] by (simp add: block_addr_def)
  have idx: "page_of ?b addr div 2 ^ n = i" using i(1) by simp
  have hold: "holds b0 b' (insert (n, i) H)" using holds_alloc [OF heap_okD(2) [OF h] al] unfolding idx .
  have apart: "blk n i \<inter> pages H = {}" using heap_okD(2) [OF h] i(3) by (auto simp: holds_def)
  have nin: "(n, i) \<notin> H" using apart blk_subset_pages [of n i H] blk_nonempty [of n i] by blast
  have "addr \<noteq> pg" if "pg \<in> slab_pages (ka_slab k)" for pg
  proof
    assume e: "addr = pg"
    from heap_okD(5) [OF h that] obtain j where j: "(0, j) \<in> H" "pg = block_addr ?b 0 j" by blast
    have "page_of ?b addr \<in> blk n i" unfolding i(1) by (simp add: blk_first)
    moreover have "page_of ?b addr \<in> blk 0 j" unfolding e j(2) using blk_first [of j 0] by simp
    ultimately show False using apart blk_subset_pages [OF j(1)] by blast
  qed
  then have ns: "addr \<notin> slab_pages (ka_slab k)" by blast
  have pl: "placed checks (k\<lparr>ka_buddy := b'\<rparr>) (insert (n, i) H) S l" if "placed checks k H S l" for l
    using that i(2) by (cases "(checks, k, H, S, l)" rule: placed.cases) auto
  have ap: "apart b' L" using heap_ok_apart [OF h] footprint_cong [OF \<open>bd_base b' = bd_base ?b\<close>] by (simp add: apart_def)
  have "heap_ok checks b0 (k\<lparr>ka_buddy := b'\<rparr>) (insert (n, i) H) S L"
  proof (rule heap_okI)
    show "\<exists>j. (0, j) \<in> insert (n, i) H \<and> pg = block_addr (ka_buddy (k\<lparr>ka_buddy := b'\<rparr>)) 0 j"
      if "pg \<in> slab_pages (ka_slab (k\<lparr>ka_buddy := b'\<rparr>))" for pg using heap_okD(5) [OF h, of pg] that i(2) by auto
    show "placed checks (k\<lparr>ka_buddy := b'\<rparr>) (insert (n, i) H) S l" if "l \<in> L" for l by (rule pl [OF heap_okD(6) [OF h that]])
  qed (use heap_okD(1,3,4) [OF h] hold ap \<open>bd_base b' = bd_base ?b\<close> in simp_all)
  then show ?thesis using i(1,2) nin ns by metis
qed

text \<open>A page moves from the buddy allocator to the slab, or is lost when the class is full.\<close>

lemma grow_step_ok:
  assumes h: "heap_ok checks b0 k H S L" and al: "allocate_page (ka_buddy k) = Some (Inr (page, b'))" and c: "ci < NUM_CLASSES"
  shows "\<exists>ok s' i. add_slab_page (ka_slab k) ci page = Some (ok, s') \<and>
    heap_ok checks b0 (k\<lparr>ka_buddy := b', ka_slab := s'\<rparr>) (insert (0, i) H) S L"
proof -
  from block_step_ok [OF h al [unfolded allocate_page_def]] obtain i where i: "page = block_addr b' 0 i" "(0, i) \<notin> H"
    "page \<notin> slab_pages (ka_slab k)" and hb: "heap_ok checks b0 (k\<lparr>ka_buddy := b'\<rparr>) (insert (0, i) H) S L" by blast
  let ?k = "k\<lparr>ka_buddy := b'\<rparr>"
  have inv: "buddy_inv b'" using heap_okD(8) [OF hb] by simp
  have "blk 0 i \<subseteq> alloc_set b'" using heap_okD(2) [OF hb] blk_subset_pages [of 0 i "insert (0, i) H"] by (auto simp: holds_def)
  then have "i < bd_total_pages b'" using inv by (auto simp: buddy_inv_def blk_def)
  then have "page + 4096 \<le> bd_base b' + bd_total_pages b' * PAGE_SIZE_4K" unfolding i(1) block_addr_def PAGE_SIZE_4K_def by simp
  then have top: "page + 4096 \<le> 2 ^ 64" using inv by (simp add: buddy_inv_def)
  from sl.grow_ok [OF heap_okD(3) [OF h] c i(3) _ top] block_addr_aligned [OF inv] i(1)
  obtain ok s' where g: "add_slab_page (ka_slab k) ci page = Some (ok, s')" "slab_state s' S"
    "slab_pages s' = (if ok then insert page (slab_pages (ka_slab k)) else slab_pages (ka_slab k))" by blast
  have pl: "placed checks (?k\<lparr>ka_slab := s'\<rparr>) (insert (0, i) H) S l" if l: "l \<in> L" for l
  proof -
    have a: "placed checks ?k (insert (0, i) H) S l" and old: "placed checks k H S l"
      using heap_okD(6) [OF hb l] heap_okD(6) [OF h l] .
    obtain p t a' w where mm: "l = (p, t, a', w)" by (cases l)
    show ?thesis
    proof (cases w)
      case (InBlock n j)
      have "block_addr b' n j \<noteq> page"
      proof
        assume e: "block_addr b' n j = page"
        have "page_of b' page \<in> blk n j" unfolding e [symmetric] by (simp add: blk_first)
        moreover have "page_of b' page \<in> blk 0 i" unfolding i(1) using blk_first [of i 0] by simp
        moreover have "(n, j) \<in> insert (0, i) H" "(n, j) \<noteq> (0, i)" using old i(2) InBlock mm by auto
        ultimately show False using disjoint_blocksD [OF heap_okD(9) [OF hb], of n j 0 i] by blast
      qed
      then show ?thesis using a g(3) InBlock mm by simp
    qed (use a mm in simp)
  qed
  have "heap_ok checks b0 (?k\<lparr>ka_slab := s'\<rparr>) (insert (0, i) H) S L"
  proof (rule heap_okI)
    show "\<exists>j. (0, j) \<in> insert (0, i) H \<and> pg = block_addr (ka_buddy (?k\<lparr>ka_slab := s'\<rparr>)) 0 j"
      if "pg \<in> slab_pages (ka_slab (?k\<lparr>ka_slab := s'\<rparr>))" for pg
      using that heap_okD(5) [OF hb, of pg] g(3) i(1) by (auto split: if_splits)
  qed (use heap_okD(1,2,4) [OF hb] g(2) pl heap_ok_apart [OF hb] in simp_all)
  then show ?thesis using g(1) by auto
qed

lemma slab_alloc_ok:
  assumes h: "heap_ok checks b0 k H S L" and lay: "slab_layout sz al" "actual_size sz = Some c" "is_power_of_two al"
    and a: "slab_allocate checks (ka_slab k) sz = Some (Inr (x, s'))"
  shows "x \<noteq> 0 \<and> heap_ok checks b0 (k\<lparr>ka_slab := s'\<rparr>) H (insert (x, c) S) (insert (x, sz, al, InSlab c) L)"
proof -
  from sl.alloc_cases [OF heap_okD(3) [OF h] lay(2), of checks] a have s: "slab_state s' (insert (x, c) S)" "\<forall>t. (x, t) \<notin> S"
    "slab_pages s' = slab_pages (ka_slab k)" by auto
  from sl.object_in_page [OF s(1), of x c] have b: "16 \<le> x" "c dvd x" by auto
  have "al dvd c"
  proof -
    obtain i where i: "i < NUM_CLASSES" "c = SIZE_CLASSES ! i" "size_class_index sz = Some i" using actual_sizeD [OF lay(2)] by blast
    obtain m where m: "c = 2 ^ m"
      using class_in [OF i(1)] unfolding i(2) [symmetric] by (auto simp: SIZE_CLASSES_def intro: that [of 4] that [of 5] that [of 6] that [of 7] that [of 8] that [of 9] that [of 10] that [of 11])
    obtain n where n: "al = 2 ^ n" using lay(3) by (auto simp: is_power_of_two_iff)
    have "max sz 16 \<le> c" using size_class_indexD [OF i(3)] class_facts(1) [OF class_in [OF i(1)]] i(2) by simp
    then have "al \<le> c" using lay(1) unfolding slab_layout_def by linarith
    then have "n \<le> m" unfolding m n by simp
    then show ?thesis using m n by (simp add: le_imp_power_dvd)
  qed
  with b(2) have "al dvd x" by (rule dvd_trans [rotated])
  from slab_step_ok [OF h s(1,3,2) lay(1,2) this] b(1) show ?thesis by simp
qed

lemma try_slab_alloc_ok:
  assumes h: "heap_ok checks b0 k H S L" and lay: "slab_layout sz al" "is_power_of_two al"
  shows "\<exists>r k' H' S'. try_slab_alloc checks k sz = Some (r, k') \<and>
    (case r of None \<Rightarrow> heap_ok checks b0 k' H' S L
     | Some p \<Rightarrow> p \<noteq> 0 \<and> (\<exists>c. heap_ok checks b0 k' H' S' (insert (p, sz, al, InSlab c) L)))"
proof -
  obtain ci where ci: "size_class_index sz = Some ci"
    using lay(1) size_class_None [of sz] by (cases "size_class_index sz") (auto simp: slab_layout_def)
  note cl = size_class_indexD [OF ci]
  have as: "actual_size sz = Some (SIZE_CLASSES ! ci)" using ci by (simp add: actual_size_def)
  consider x s' where "slab_allocate checks (ka_slab k) sz = Some (Inr (x, s'))" | (ex) e where "slab_allocate checks (ka_slab k) sz = Some (Inl e)"
    using sl.alloc_total [OF heap_okD(3) [OF h], of checks sz] by (metis sum.exhaust surj_pair)
  then show ?thesis
  proof cases
    case 1
    then show ?thesis using slab_alloc_ok [OF h lay(1) as lay(2) 1] by (auto simp: try_slab_alloc_def)
  next
    case ex
    consider e2 where "allocate_page (ka_buddy k) = Some (Inl e2)" | (pg) page b' where "allocate_page (ka_buddy k) = Some (Inr (page, b'))"
      using pa.alloc_cases [OF heap_okD(8) [OF h], of 0] by (auto simp: allocate_page_def MAX_ORDER_def)
    then show ?thesis
    proof cases
      case 1
      then show ?thesis using h ex ci by (auto simp: try_slab_alloc_def)
    next
      case pg
      from grow_step_ok [OF h pg, of ci] cl obtain ok s' i where g: "add_slab_page (ka_slab k) ci page = Some (ok, s')"
        and hg: "heap_ok checks b0 (k\<lparr>ka_buddy := b', ka_slab := s'\<rparr>) (insert (0, i) H) S L" by blast
      obtain r where r: "slab_allocate checks s' sz = Some r" using sl.alloc_total [OF heap_okD(3) [OF hg], of checks sz] by auto
      show ?thesis
      proof (cases r)
        case (Inl e3)
        then show ?thesis using hg ex ci pg g r by (cases ok) (auto simp: try_slab_alloc_def)
      next
        case (Inr q)
        obtain x s2 where q: "q = (x, s2)" by (cases q)
        have "x \<noteq> 0 \<and> heap_ok checks b0 (k\<lparr>ka_buddy := b', ka_slab := s2\<rparr>) (insert (0, i) H) (insert (x, SIZE_CLASSES ! ci) S)
            (insert (x, sz, al, InSlab (SIZE_CLASSES ! ci)) L)"
          using slab_alloc_ok [OF hg lay(1) as lay(2), of x s2] r Inr q by simp
        then show ?thesis using hg ex ci pg g r Inr q by (cases ok) (auto simp: try_slab_alloc_def)
      qed
    qed
  qed
qed

lemma block_top:
  assumes "heap_ok checks b0 k H S L" "(n, i) \<in> H"
  shows "n \<le> MAX_ORDER" "block_addr (ka_buddy k) n i + 2 ^ n * PAGE_SIZE_4K \<le> bd_base (ka_buddy k) + bd_total_pages (ka_buddy k) * PAGE_SIZE_4K"
    "bd_base (ka_buddy k) + bd_total_pages (ka_buddy k) * PAGE_SIZE_4K \<le> 2 ^ 64"
proof -
  have inv: "buddy_inv (ka_buddy k)" by (rule heap_okD(8) [OF assms(1)])
  show "n \<le> MAX_ORDER" using heap_okD(2) [OF assms(1)] assms(2) by (auto simp: holds_def)
  have "blk n i \<subseteq> alloc_set (ka_buddy k)" using heap_okD(2) [OF assms(1)] blk_subset_pages [OF assms(2)] by (simp add: holds_def)
  then have "blk n i \<subseteq> {..<bd_total_pages (ka_buddy k)}" using inv by (auto simp: buddy_inv_def)
  then have "(i * 2 ^ n + 2 ^ n) * PAGE_SIZE_4K \<le> bd_total_pages (ka_buddy k) * PAGE_SIZE_4K" unfolding blk_subset_mult by (rule mult_le_mono1)
  then show "block_addr (ka_buddy k) n i + 2 ^ n * PAGE_SIZE_4K \<le> bd_base (ka_buddy k) + bd_total_pages (ka_buddy k) * PAGE_SIZE_4K"
    by (simp add: block_addr_def add_mult_distrib)
  show "bd_base (ka_buddy k) + bd_total_pages (ka_buddy k) * PAGE_SIZE_4K \<le> 2 ^ 64" using inv by (simp add: buddy_inv_def)
qed

definition layout_ok :: "nat \<Rightarrow> nat \<Rightarrow> bool" where
  "layout_ok sz al \<longleftrightarrow> 0 < sz \<and> is_power_of_two al \<and> sz + al < 2 ^ 63"

lemma small_align_dvd:
  assumes "is_power_of_two al" "al \<le> PAGE_SIZE_4K"
  shows "al dvd 4096"
proof -
  obtain k where k: "al = 2 ^ k" using assms(1) by (auto simp: is_power_of_two_iff)
  then have "(2::nat) ^ k \<le> 2 ^ 12" using assms(2) unfolding PAGE_SIZE_4K_pow by (simp only:)
  then have "k \<le> 12" by (rule power_le_imp_le_exp [rotated]) simp
  from le_imp_power_dvd [OF this, of "2::nat"] k show ?thesis by simp
qed

lemma large_align_dvd:
  assumes "is_power_of_two al" "PAGE_SIZE_4K < al"
  shows "4096 dvd al"
proof -
  obtain k where k: "al = 2 ^ k" using assms(1) by (auto simp: is_power_of_two_iff)
  then have "(2::nat) ^ 12 < 2 ^ k" using assms(2) unfolding PAGE_SIZE_4K_pow by (simp only:)
  then have "12 < k" by (rule power_less_imp_less_exp [rotated]) simp
  then have "12 \<le> k" by simp
  from le_imp_power_dvd [OF this, of "2::nat"] k show ?thesis by simp
qed

text \<open>The pointer that a block gives for a layout.\<close>

lemma block_pointer:
  assumes "layout_ok sz al" "request sz al \<le> 2 ^ n * PAGE_SIZE_4K" "addr + 2 ^ n * PAGE_SIZE_4K \<le> 2 ^ 64" "4096 dvd addr"
  shows "\<exists>p. (if al > PAGE_SIZE_4K then align_ptr checks addr al else Some addr) = Some p \<and> addr \<le> p \<and>
    p + sz \<le> addr + 2 ^ n * PAGE_SIZE_4K \<and> al dvd p \<and> 4096 dvd p \<and> (al \<le> PAGE_SIZE_4K \<longrightarrow> p = addr)"
proof (cases "al > PAGE_SIZE_4K")
  case True
  then have "sz + al \<le> 2 ^ n * PAGE_SIZE_4K" "0 < sz" "is_power_of_two al" using assms(1,2) by (auto simp: request_def layout_ok_def)
  with align_ptr_spec [of al addr checks] assms(3) obtain q where "align_ptr checks addr al = Some q" "addr \<le> q" "q < addr + al" "al dvd q" by auto
  with True large_align_dvd [OF \<open>is_power_of_two al\<close> True] \<open>sz + al \<le> 2 ^ n * PAGE_SIZE_4K\<close> show ?thesis
    by (intro exI [of _ q]) (auto intro: dvd_trans)
next
  case False
  then have "al dvd addr" using small_align_dvd [of al] assms(1,4) by (auto simp: layout_ok_def intro: dvd_trans)
  with False assms(2,4) show ?thesis by (auto simp: request_def)
qed

lemma try_buddy_alloc_ok:
  assumes h: "heap_ok checks b0 k H S L" and lay: "layout_ok sz al" and base: "0 < bd_base b0"
  shows "\<exists>p k'. try_buddy_alloc checks k sz al = Some (p, k') \<and>
    (p = 0 \<and> k' = k \<or> p \<noteq> 0 \<and> (\<exists>n i. heap_ok checks b0 k' (insert (n, i) H) S (insert (p, sz, al, InBlock n i) L)))"
proof -
  obtain n where n: "buddy_order checks sz al = Some n" "request sz al \<le> 2 ^ n * PAGE_SIZE_4K"
    using buddy_order_spec [of sz al checks] lay by (auto simp: layout_ok_def)
  consider e where "allocate (ka_buddy k) n = Some (Inl e)" | (ok) addr b' where "allocate (ka_buddy k) n = Some (Inr (addr, b'))"
    using pa.alloc_cases [OF heap_okD(8) [OF h], of n] pa.alloc_order [of n "ka_buddy k"] by (cases "n \<le> MAX_ORDER") auto
  then show ?thesis
  proof cases
    case 1
    then show ?thesis using n(1) by (simp add: try_buddy_alloc_def)
  next
    case ok
    from block_step_ok [OF h ok] obtain i where i: "addr = block_addr b' n i" "(n, i) \<notin> H" "addr \<notin> slab_pages (ka_slab k)"
      and hb: "heap_ok checks b0 (k\<lparr>ka_buddy := b'\<rparr>) (insert (n, i) H) S L" by blast
    let ?k = "k\<lparr>ka_buddy := b'\<rparr>"
    note top = block_top [OF hb, of n i, simplified]
    have al: "4096 dvd addr" using block_addr_aligned heap_okD(8) [OF hb] i(1) by simp
    obtain p where p: "(if al > PAGE_SIZE_4K then align_ptr checks addr al else Some addr) = Some p" "addr \<le> p"
      "p + sz \<le> addr + 2 ^ n * PAGE_SIZE_4K" "al dvd p" "4096 dvd p" "al \<le> PAGE_SIZE_4K \<longrightarrow> p = addr"
      using block_pointer [OF lay n(2), of addr checks] top(2,3) al i(1) by auto
    have "0 < addr" using i(1) base heap_okD(4) [OF hb] by (simp add: block_addr_def)
    have pl: "placed checks ?k (insert (n, i) H) S (p, sz, al, InBlock n i)"
      using i p n(1) lay by (simp add: layout_ok_def)
    have "heap_ok checks b0 ?k (insert (n, i) H) S (insert (p, sz, al, InBlock n i) L)"
    proof (rule heap_ok_insert [OF hb pl])
      fix m assume m: "m \<in> L"
      obtain q t a w where mm: "m = (q, t, a, w)" by (cases m)
      show "footprint (ka_buddy ?k) (p, sz, al, InBlock n i) \<inter> footprint (ka_buddy ?k) m = {}"
      proof (cases w)
        case (InSlab d)
        then have d: "(q, d) \<in> S" using heap_okD(6) [OF h m] mm by simp
        then show ?thesis using object_block_disjoint [OF hb d, of n i] i InSlab mm by (simp add: Int_commute)
      next
        case (InBlock o' j)
        then have "(o', j) \<in> H" using heap_okD(6) [OF h m] mm by simp
        then show ?thesis using block_bytes_disjoint [OF heap_okD(9) [OF hb], of n i o' j b'] i(2) InBlock mm by auto
      qed
    qed
    then show ?thesis using n(1) ok p(1,2) \<open>0 < addr\<close> by (auto simp: try_buddy_alloc_def)
  qed
qed

lemma ka_alloc_ok:
  assumes h: "heap_ok checks b0 k H S L" and lay: "layout_ok sz al" and base: "0 < bd_base b0"
  shows "\<exists>p k' H' S' w. ka_alloc checks k sz al = Some (p, k') \<and>
    heap_ok checks b0 k' H' S' (if p = 0 then L else insert (p, sz, al, w) L)"
proof (cases "slab_layout sz al")
  case True
  have pw: "is_power_of_two al" using lay by (simp add: layout_ok_def)
  obtain r k1 H1 S1 where t: "try_slab_alloc checks k sz = Some (r, k1)"
    "case r of None \<Rightarrow> heap_ok checks b0 k1 H1 S L | Some p \<Rightarrow> p \<noteq> 0 \<and> (\<exists>c. heap_ok checks b0 k1 H1 S1 (insert (p, sz, al, InSlab c) L))"
    using try_slab_alloc_ok [OF h True pw] by blast
  show ?thesis
  proof (cases r)
    case None
    with t(2) have h1: "heap_ok checks b0 k1 H1 S L" by simp
    have "ka_alloc checks k sz al = try_buddy_alloc checks k1 sz al"
      using True t(1) None heap_okD(1) [OF h] by (simp add: ka_alloc_def)
    with try_buddy_alloc_ok [OF h1 lay base] h1 show ?thesis by fastforce
  next
    case (Some p)
    then show ?thesis using True t heap_okD(1) [OF h] by (auto simp: ka_alloc_def)
  qed
next
  case False
  then have "ka_alloc checks k sz al = try_buddy_alloc checks k sz al" using heap_okD(1) [OF h] by (simp add: ka_alloc_def)
  with try_buddy_alloc_ok [OF h lay base] h show ?thesis by fastforce
qed

section \<open>Deallocation\<close>

lemma footprint_nonempty: "placed checks k H S l \<Longrightarrow> heap_ok checks b0 k H S L \<Longrightarrow> fst l \<in> footprint (ka_buddy k) l"
proof -
  assume pl: "placed checks k H S l" and h: "heap_ok checks b0 k H S L"
  obtain p sz al w where l: "l = (p, sz, al, w)" by (cases l)
  show ?thesis
  proof (cases w)
    case (InSlab c)
    then have "0 < c" using sl.object_in_page [OF heap_okD(3) [OF h], of p c] pl l by auto
    then show ?thesis using InSlab l by simp
  next
    case (InBlock n i)
    then show ?thesis using pl l by (auto simp: block_bytes_def)
  qed
qed

lemma align_down_page: "4096 dvd p \<Longrightarrow> p < 2 ^ 64 \<Longrightarrow> align_down_usize p PAGE_SIZE_4K = p"
  using align_down_usize_eq [of p 12] by (simp add: PAGE_SIZE_4K_def dvd_eq_mod_eq_0)

text \<open>An address inside a block that is not its start is refused.\<close>

lemma free_inside_block:
  assumes "buddy_inv b" "n \<le> MAX_ORDER" "4096 dvd p" "block_addr b n i < p" "p < block_addr b n i + 2 ^ n * PAGE_SIZE_4K"
  shows "free b p n = Some (Inl BadAlignment)"
proof -
  have "4096 dvd p - block_addr b n i" using assms(3) block_addr_aligned [OF assms(1)] by (rule dvd_diff_nat)
  then obtain q where q: "p - block_addr b n i = 4096 * q" by (auto elim: dvdE)
  then have p: "p = block_addr b n i + 4096 * q" using assms(4) by linarith
  then have q: "0 < q" "q < 2 ^ n" using assms(4,5) by (auto simp: PAGE_SIZE_4K_def)
  have "(p - bd_base b) div PAGE_SIZE_4K = i * 2 ^ n + q" unfolding p block_addr_def PAGE_SIZE_4K_def by simp
  moreover have "(i * 2 ^ n + q) mod 2 ^ n = q" using q(2) by simp
  moreover have "bd_base b \<le> p" using assms(4) by (simp add: block_addr_def)
  moreover have "is_aligned_usize p PAGE_SIZE_4K" using assms(3) unfolding PAGE_SIZE_4K_pow is_aligned_usize_eq by simp
  ultimately show ?thesis using assms(2) q(1) by (simp add: free_def Let_def)
qed

lemma dealloc_slab_object:
  assumes h: "heap_ok checks b0 k H S L" and l: "(p, sz, al, InSlab c) \<in> L"
  shows "\<exists>k'. ka_dealloc checks k p sz al = Some k' \<and> heap_ok checks b0 k' H (S - {(p, c)}) (L - {(p, sz, al, InSlab c)})"
proof -
  have pl: "al dvd p" "slab_layout sz al" "actual_size sz = Some c" "(p, c) \<in> S" using heap_okD(6) [OF h l] by simp_all
  from sl.release_ok [OF heap_okD(3) [OF h] pl(4,3), of checks] obtain s' where
    s': "slab_free checks (ka_slab k) p sz = Some (Inr s')" "slab_state s' (S - {(p, c)})" "slab_pages s' = slab_pages (ka_slab k)" by blast
  have "p \<noteq> 0" using sl.object_in_page [OF heap_okD(3) [OF h] pl(4)] by auto
  then have d: "ka_dealloc checks k p sz al = Some (k\<lparr>ka_slab := s'\<rparr>)" using s'(1) pl(2) heap_okD(1) [OF h] by (simp add: ka_dealloc_def)
  have "placed checks (k\<lparr>ka_slab := s'\<rparr>) H (S - {(p, c)}) m" if m: "m \<in> L - {(p, sz, al, InSlab c)}" for m
  proof -
    have om: "placed checks k H S m" using heap_okD(6) [OF h] m by blast
    obtain q t a w where mm: "m = (q, t, a, w)" by (cases m)
    show ?thesis
    proof (cases w)
      case (InSlab d)
      have "(q, d) \<noteq> (p, c)"
      proof
        assume "(q, d) = (p, c)"
        then have "footprint (ka_buddy k) m = footprint (ka_buddy k) (p, sz, al, InSlab c)" using mm InSlab by simp
        then show False using heap_okD(7) [OF h l, of m] footprint_nonempty [OF om h] m by auto
      qed
      then show ?thesis using om mm InSlab by auto
    qed (use om mm s'(3) in auto)
  qed
  then have "heap_ok checks b0 (k\<lparr>ka_slab := s'\<rparr>) H (S - {(p, c)}) (L - {(p, sz, al, InSlab c)})"
    using heap_okD(1,2,4,5) [OF h] s'(2,3) apart_subset [OF heap_ok_apart [OF h]] by (intro heap_okI) auto
  with d show ?thesis by blast
qed

lemma dealloc_block:
  assumes h: "heap_ok checks b0 k H S L" and l: "(p, sz, al, InBlock n i) \<in> L" and p: "p = block_addr (ka_buddy k) n i"
  shows "\<exists>b'. free (ka_buddy k) p n = Some (Inr b') \<and> heap_ok checks b0 (k\<lparr>ka_buddy := b'\<rparr>) (H - {(n, i)}) S (L - {(p, sz, al, InBlock n i)})"
proof -
  let ?l = "(p, sz, al, InBlock n i)"
  have ni: "(n, i) \<in> H" "block_addr (ka_buddy k) n i \<notin> slab_pages (ka_slab k)" using heap_okD(6) [OF h l] by simp_all
  from holds_free_ex [OF heap_okD(2) [OF h] ni(1)] obtain b' where b': "free (ka_buddy k) p n = Some (Inr b')" "holds b0 b' (H - {(n, i)})"
    unfolding p by blast
  have "blk n i \<subseteq> alloc_set (ka_buddy k)" using heap_okD(2) [OF h] blk_subset_pages [OF ni(1)] by (simp add: holds_def)
  from free_succeeds [OF heap_okD(8) [OF h] block_top(1) [OF h ni(1)] this] b'(1) have base: "bd_base b' = bd_base (ka_buddy k)" unfolding p by auto
  have "placed checks (k\<lparr>ka_buddy := b'\<rparr>) (H - {(n, i)}) S m" if m: "m \<in> L - {?l}" for m
  proof -
    have om: "placed checks k H S m" using heap_okD(6) [OF h] m by blast
    obtain q t a w where mm: "m = (q, t, a, w)" by (cases m)
    show ?thesis
    proof (cases w)
      case (InBlock o' j)
      have "(o', j) \<noteq> (n, i)"
      proof
        assume "(o', j) = (n, i)"
        then have "footprint (ka_buddy k) m = footprint (ka_buddy k) ?l" using mm InBlock by simp
        then show False using heap_okD(7) [OF h l, of m] footprint_nonempty [OF om h] m by auto
      qed
      then show ?thesis using om mm InBlock block_addr_cong [OF base] by auto
    qed (use om mm in auto)
  qed
  moreover have "\<exists>j. (0, j) \<in> H - {(n, i)} \<and> pg = block_addr b' 0 j" if pg: "pg \<in> slab_pages (ka_slab k)" for pg
  proof -
    from heap_okD(5) [OF h pg] obtain j where j: "(0, j) \<in> H" "pg = block_addr (ka_buddy k) 0 j" by blast
    then have "(0, j) \<noteq> (n, i)" using pg ni(2) by auto
    then show ?thesis using j block_addr_cong [OF base] by auto
  qed
  moreover have "apart b' (L - {?l})"
    using apart_subset [OF heap_ok_apart [OF h], of "L - {?l}"] footprint_cong [OF base] by (simp add: apart_def)
  ultimately have "heap_ok checks b0 (k\<lparr>ka_buddy := b'\<rparr>) (H - {(n, i)}) S (L - {?l})"
    using heap_okD(1,3,4) [OF h] b'(2) base by (intro heap_okI) auto
  with b'(1) show ?thesis by blast
qed

lemma ka_dealloc_ok:
  assumes h: "heap_ok checks b0 k H S L" and l: "(p, sz, al, w) \<in> L" and base: "0 < bd_base b0"
  shows "\<exists>k' H' S'. ka_dealloc checks k p sz al = Some k' \<and> heap_ok checks b0 k' H' S' (L - {(p, sz, al, w)})"
proof (cases w)
  case (InSlab c)
  then show ?thesis using dealloc_slab_object [OF h, of p sz al c] l by blast
next
  case (InBlock n i)
  note pl = heap_okD(6) [OF h l [unfolded InBlock], simplified]
  note top = block_top [OF h, of n i] and inv = heap_okD(8) [OF h]
  let ?M = "L - {(p, sz, al, w)}"
  have lost: "heap_ok checks b0 k H S ?M" by (rule heap_ok_mono [OF h]) blast
  have "0 < block_addr (ka_buddy k) n i" using base heap_okD(4) [OF h] by (simp add: block_addr_def)
  then have p0: "p \<noteq> 0" using pl by linarith
  have p64: "p < 2 ^ 64" using pl top by linarith
  have adp: "align_down_usize p PAGE_SIZE_4K = p" by (rule align_down_page [OF _ p64]) (use pl in simp)
  note init = heap_okD(1) [OF h]
  show ?thesis
  proof (cases "slab_layout sz al")
    case True
    then have "al \<le> PAGE_SIZE_4K" by (auto simp: slab_layout_def PAGE_SIZE_4K_def max_def split: if_splits)
    then have "align_down_usize p PAGE_SIZE_4K \<notin> slab_pages (ka_slab k)" unfolding adp using pl by auto
    moreover obtain s where "actual_size sz = Some s"
      using True size_class_None [of sz] by (cases "size_class_index sz") (auto simp: slab_layout_def actual_size_def)
    ultimately have "ka_dealloc checks k p sz al = Some k"
      using sl.release_foreign [OF heap_okD(3) [OF h], of sz s p checks] True init p0 by (simp add: ka_dealloc_def)
    with lost show ?thesis by blast
  next
    case False
    then have d: "ka_dealloc checks k p sz al = do { r \<leftarrow> free (ka_buddy k) p n; Some (case r of Inl _ \<Rightarrow> k | Inr b \<Rightarrow> k\<lparr>ka_buddy := b\<rparr>) }"
      using pl adp init p0 by (simp add: ka_dealloc_def)
    show ?thesis
    proof (cases "p = block_addr (ka_buddy k) n i")
      case True
      from dealloc_block [OF h l [unfolded InBlock] True] obtain b' where "free (ka_buddy k) p n = Some (Inr b')"
        "heap_ok checks b0 (k\<lparr>ka_buddy := b'\<rparr>) (H - {(n, i)}) S (L - {(p, sz, al, InBlock n i)})" by blast
      with d show ?thesis unfolding InBlock by fastforce
    next
      case False
      then have "free (ka_buddy k) p n = Some (Inl BadAlignment)"
        using free_inside_block [OF inv, of n p i] pl top by auto
      with d lost show ?thesis by auto
    qed
  qed
qed

section \<open>Start-up\<close>

lemma prefill_ok:
  assumes h: "heap_ok checks b0 \<lparr>ka_buddy = b, ka_slab = s, ka_initialized = True\<rparr> H {} {}" and c: "ci < NUM_CLASSES"
  shows "\<exists>b' s' H'. prefill ci (b, s) = Some (b', s') \<and> heap_ok checks b0 \<lparr>ka_buddy = b', ka_slab = s', ka_initialized = True\<rparr> H' {} {} \<and>
    (H' = H \<or> (\<exists>i. H' = insert (0, i) H))"
proof -
  let ?k = "\<lparr>ka_buddy = b, ka_slab = s, ka_initialized = True\<rparr>"
  consider e2 where "allocate_page b = Some (Inl e2)" | (pg) page b' where "allocate_page b = Some (Inr (page, b'))"
    using pa.alloc_cases [OF heap_okD(8) [OF h], of 0] by (auto simp: allocate_page_def MAX_ORDER_def)
  then show ?thesis
  proof cases
    case 1
    then show ?thesis using h by (auto simp: prefill_def)
  next
    case pg
    from grow_step_ok [OF h _ c, of page b'] pg obtain ok s' i where "add_slab_page s ci page = Some (ok, s')"
      "heap_ok checks b0 (?k\<lparr>ka_buddy := b', ka_slab := s'\<rparr>) (insert (0, i) H) {} {}" by auto
    then show ?thesis using pg by (auto simp: prefill_def)
  qed
qed

text \<open>At most one page per class is taken.\<close>

definition page_blocks :: "nat \<Rightarrow> (nat \<times> nat) set \<Rightarrow> bool" where
  "page_blocks c H \<longleftrightarrow> (\<exists>I. H = Pair 0 ` I \<and> finite I \<and> card I \<le> c)"

lemma page_blocks_step: "page_blocks c H \<Longrightarrow> H' = H \<or> (\<exists>i. H' = insert (0, i) H) \<Longrightarrow> page_blocks (Suc c) H'"
proof -
  assume "page_blocks c H" and st: "H' = H \<or> (\<exists>i. H' = insert (0, i) H)"
  then obtain I where I: "H = Pair 0 ` I" "finite I" "card I \<le> c" by (auto simp: page_blocks_def)
  from st show ?thesis
  proof
    assume "\<exists>i. H' = insert (0, i) H"
    then obtain i where "H' = Pair 0 ` insert i I" using I(1) by auto
    then show ?thesis unfolding page_blocks_def using I(2,3) card_insert_le_m1 [of "Suc c" I i] by (intro exI [of _ "insert i I"]) simp
  qed (use I in \<open>auto simp: page_blocks_def intro: le_SucI\<close>)
qed

lemma pages_page_blocks: "page_blocks c H \<Longrightarrow> card (pages H) \<le> c \<and> finite (pages H)"
proof -
  assume "page_blocks c H"
  then obtain I where I: "H = Pair 0 ` I" "finite I" "card I \<le> c" by (auto simp: page_blocks_def)
  have "pages H = I" unfolding I(1) pages_def by (auto simp: blk_def)
  then show ?thesis using I by simp
qed

lemma prefill_all_ok:
  "heap_ok checks b0 \<lparr>ka_buddy = b, ka_slab = s, ka_initialized = True\<rparr> H {} {} \<Longrightarrow> \<forall>c \<in> set cs. c < NUM_CLASSES \<Longrightarrow> page_blocks n H \<Longrightarrow>
    \<exists>b' s' H'. mfold prefill cs (b, s) = Some (b', s') \<and> heap_ok checks b0 \<lparr>ka_buddy = b', ka_slab = s', ka_initialized = True\<rparr> H' {} {} \<and>
      page_blocks (n + length cs) H'"
proof (induction cs arbitrary: b s H n)
  case (Cons c cs)
  then have "c < NUM_CLASSES" by simp
  from prefill_ok [OF Cons.prems(1) this] obtain b' s' H' where pf: "prefill c (b, s) = Some (b', s')"
    "heap_ok checks b0 \<lparr>ka_buddy = b', ka_slab = s', ka_initialized = True\<rparr> H' {} {}" "H' = H \<or> (\<exists>i. H' = insert (0, i) H)" by blast
  from pf(1,2) page_blocks_step [OF Cons.prems(3) pf(3)] show ?case using Cons.IH [of b' s' H' "Suc n"] Cons.prems(2) by simp
qed auto

lemma ka_init_ok:
  assumes "PAGE_SIZE_4K dvd base" "sz div PAGE_SIZE_4K \<le> max_pages" "base + sz < 2 ^ 64"
  shows "\<exists>b0 k H. buddy_boot max_pages base sz = Some b0 \<and> ka_init (ka_new max_pages st) base sz = Some k \<and> heap_ok checks b0 k H {} {} \<and>
    bd_base b0 = base \<and> free_set b0 = {..<sz div PAGE_SIZE_4K} \<and> page_blocks 8 H"
proof -
  from buddy_boot_spec [OF assms] obtain b0 where b0: "buddy_boot max_pages base sz = Some b0" "buddy_inv b0"
    "free_set b0 = {..<sz div PAGE_SIZE_4K}" "alloc_set b0 = {}" "bd_base b0 = base" by blast
  have "slab_state (slab_new st) {}" using slab_inv_new(1) slab_inv_new(2) by (auto simp: slab_state_def slab_held_def)
  moreover have "slab_pages (slab_new st) = {}" using slab_inv_new(2) by (simp add: slab_pages_def)
  moreover have "holds b0 b0 {}" using buddy_run_holds [OF run_start b0(2,4)] .
  ultimately have h0: "heap_ok checks b0 \<lparr>ka_buddy = b0, ka_slab = slab_new st, ka_initialized = True\<rparr> {} {} {}"
    by (intro heap_okI) (simp_all add: apart_def)
  have "page_blocks 0 {}" "\<forall>c \<in> set [0..<length SIZE_CLASSES]. c < NUM_CLASSES" "0 + length [0..<length SIZE_CLASSES] = 8"
    by (simp_all add: page_blocks_def NUM_CLASSES_def) (simp add: SIZE_CLASSES_def)
  from prefill_all_ok [OF h0 this(2,1), unfolded this(3)] obtain b' s' H' where
    "mfold prefill [0..<length SIZE_CLASSES] (b0, slab_new st) = Some (b', s')"
    "heap_ok checks b0 \<lparr>ka_buddy = b', ka_slab = s', ka_initialized = True\<rparr> H' {} {}" "page_blocks 8 H'" by blast
  moreover obtain b1 where "buddy_init (buddy_new max_pages) base sz = Some b1" "add_free_region b1 base sz = Some b0"
    using b0(1) unfolding buddy_boot_def bind_eq_Some_conv by blast
  ultimately show ?thesis using b0 by (auto simp: ka_init_def ka_new_def)
qed

section \<open>Programs\<close>

text \<open>
  The states that a program can bring the allocator to: it is initialised with a range of memory, and
  every layout is requested and released in any order, each release naming a live allocation.
\<close>

inductive heap_run :: "bool \<Rightarrow> nat \<Rightarrow> nat \<Rightarrow> nat \<Rightarrow> slab_store \<Rightarrow> kernel_allocator \<Rightarrow> (nat \<times> nat \<times> nat) set \<Rightarrow> bool"
  for checks :: bool and max_pages base sz :: nat and st :: slab_store where
  hrun_init: "ka_init (ka_new max_pages st) base sz = Some k \<Longrightarrow> heap_run checks max_pages base sz st k {}"
| hrun_alloc: "heap_run checks max_pages base sz st k L \<Longrightarrow> layout_ok s al \<Longrightarrow> ka_alloc checks k s al = Some (p, k') \<Longrightarrow>
    heap_run checks max_pages base sz st k' (if p = 0 then L else insert (p, s, al) L)"
| hrun_dealloc: "heap_run checks max_pages base sz st k L \<Longrightarrow> (p, s, al) \<in> L \<Longrightarrow> ka_dealloc checks k p s al = Some k' \<Longrightarrow>
    heap_run checks max_pages base sz st k' (L - {(p, s, al)})"

definition layout_of :: "allocation \<Rightarrow> nat \<times> nat \<times> nat" where
  "layout_of = (\<lambda>(p, s, al, w). (p, s, al))"

lemma layout_of_inj: "heap_ok checks b0 k H S L \<Longrightarrow> inj_on layout_of L"
proof (rule inj_onI)
  fix l m assume h: "heap_ok checks b0 k H S L" and lm: "l \<in> L" "m \<in> L" "layout_of l = layout_of m"
  have "fst l = fst m" using lm(3) by (auto simp: layout_of_def split: prod.splits)
  then show "l = m" using heap_okD(7) [OF h lm(1,2)] footprint_nonempty [OF heap_okD(6) [OF h lm(1)] h]
    footprint_nonempty [OF heap_okD(6) [OF h lm(2)] h] by (metis IntI empty_iff)
qed

lemma heap_run_ok:
  assumes b0: "buddy_boot max_pages base sz = Some b0" and dom: "PAGE_SIZE_4K dvd base" "sz div PAGE_SIZE_4K \<le> max_pages" "base + sz < 2 ^ 64" "0 < base"
  shows "heap_run checks max_pages base sz st k L \<Longrightarrow> \<exists>H S M. heap_ok checks b0 k H S M \<and> L = layout_of ` M"
proof (induction rule: heap_run.induct)
  case (hrun_init k)
  then show ?case using ka_init_ok [OF dom(1-3), of st checks] b0 by auto
next
  case (hrun_alloc k L s al p k')
  then obtain H S M where h: "heap_ok checks b0 k H S M" "L = layout_of ` M" by blast
  have "0 < bd_base b0" using ka_init_ok [OF dom(1-3), of st checks] b0 dom(4) by auto
  from ka_alloc_ok [OF h(1) hrun_alloc(2) this] hrun_alloc(3) obtain H' S' w where
    "heap_ok checks b0 k' H' S' (if p = 0 then M else insert (p, s, al, w) M)" by auto
  moreover have "(if p = 0 then L else insert (p, s, al) L) = layout_of ` (if p = 0 then M else insert (p, s, al, w) M)"
    using h(2) by (simp add: layout_of_def)
  ultimately show ?case by blast
next
  case (hrun_dealloc k L p s al k')
  then obtain H S M where h: "heap_ok checks b0 k H S M" "L = layout_of ` M" by blast
  then obtain w where w: "(p, s, al, w) \<in> M" using hrun_dealloc(2) by (auto simp: layout_of_def)
  have "0 < bd_base b0" using ka_init_ok [OF dom(1-3), of st checks] b0 dom(4) by auto
  from ka_dealloc_ok [OF h(1) w this] hrun_dealloc(3) obtain H' S' where h': "heap_ok checks b0 k' H' S' (M - {(p, s, al, w)})" by auto
  have "layout_of ` (M - {(p, s, al, w)}) = layout_of ` M - {(p, s, al)}"
    using inj_on_image_set_diff [OF layout_of_inj [OF h(1)], of M "{(p, s, al, w)}"] w by (simp add: layout_of_def)
  with h' h(2) show ?case by blast
qed

lemma footprint_in_memory:
  assumes h: "heap_ok checks b0 k H S M" and l: "(p, s, al, w) \<in> M" and fs: "free_set b0 = {..<t}"
  shows "bd_base b0 \<le> p \<and> p + s \<le> bd_base b0 + t * PAGE_SIZE_4K \<and> {p..<p + s} \<subseteq> footprint (ka_buddy k) (p, s, al, w) \<and> al dvd p"
proof -
  have blk_end: "bd_base b0 \<le> block_addr (ka_buddy k) n i \<and> block_addr (ka_buddy k) n i + 2 ^ n * PAGE_SIZE_4K \<le> bd_base b0 + t * PAGE_SIZE_4K"
    if ni: "(n, i) \<in> H" for n i
  proof -
    have "blk n i \<subseteq> {..<t}" using heap_okD(2) [OF h] blk_subset_pages [OF ni] fs by (auto simp: holds_def)
    then have "(i * 2 ^ n + 2 ^ n) * PAGE_SIZE_4K \<le> t * PAGE_SIZE_4K" unfolding blk_subset_mult by (rule mult_le_mono1)
    then show ?thesis using heap_okD(4) [OF h] by (simp add: block_addr_def add_mult_distrib)
  qed
  note pl = heap_okD(6) [OF h l]
  show ?thesis
  proof (cases w)
    case (InSlab c)
    with pl have c: "al dvd p" "actual_size s = Some c" "(p, c) \<in> S" by simp_all
    have "s \<le> c" using actual_sizeD [OF c(2)] size_class_indexD by blast
    from sl.object_in_page [OF heap_okD(3) [OF h] c(3)] obtain pg where pg: "pg \<in> slab_pages (ka_slab k)" "pg + 16 \<le> p" "p + c \<le> pg + 4096" by blast
    from heap_okD(5) [OF h pg(1)] obtain j where "(0, j) \<in> H" "pg = block_addr (ka_buddy k) 0 j" by blast
    with blk_end [of 0 j] pg(2,3) \<open>s \<le> c\<close> c(1) InSlab show ?thesis by (auto simp: PAGE_SIZE_4K_def)
  next
    case (InBlock n i)
    then show ?thesis using pl blk_end [of n i] by (auto simp: block_bytes_def)
  qed
qed

text \<open>
  C2. The heap of the kernel is safe. The global allocator is initialised with a range of memory and
  then serves any program of allocations with valid layouts and deallocations of live ones. In
  every state: each live allocation is aligned as requested and lies in the range, different ones do
  not overlap, and no further request or release panics, in any build profile.
\<close>

theorem global_allocator_safe:
  assumes "PAGE_SIZE_4K dvd base" "sz div PAGE_SIZE_4K \<le> max_pages" "base + sz < 2 ^ 64" "0 < base"
    and run: "heap_run checks max_pages base sz st k L"
  shows "(\<forall>(p, s, al) \<in> L. al dvd p \<and> base \<le> p \<and> p + s \<le> base + sz) \<and>
    (\<forall>(p, s, al) \<in> L. \<forall>(q, t, al') \<in> L. (p, s, al) \<noteq> (q, t, al') \<longrightarrow> {p..<p + s} \<inter> {q..<q + t} = {}) \<and>
    (\<forall>s al. layout_ok s al \<longrightarrow> ka_alloc checks k s al \<noteq> None) \<and>
    (\<forall>(p, s, al) \<in> L. ka_dealloc checks k p s al \<noteq> None)"
proof -
  from ka_init_ok [OF assms(1-3), of st checks] obtain b0 where b0: "buddy_boot max_pages base sz = Some b0" "bd_base b0 = base"
    "free_set b0 = {..<sz div PAGE_SIZE_4K}" by blast
  from heap_run_ok [OF b0(1) assms(1-4) run] obtain H S M where h: "heap_ok checks b0 k H S M" and L: "L = layout_of ` M" by blast
  have base: "0 < bd_base b0" using b0(2) assms(4) by simp
  have mem: "bd_base b0 \<le> p \<and> p + s \<le> base + sz \<and> {p..<p + s} \<subseteq> footprint (ka_buddy k) (p, s, al, w) \<and> al dvd p" if "(p, s, al, w) \<in> M" for p s al w
    using footprint_in_memory [OF h that b0(3)] b0(2) div_times_less_eq_dividend [of sz PAGE_SIZE_4K] by linarith
  have one: "al dvd p \<and> base \<le> p \<and> p + s \<le> base + sz" "ka_dealloc checks k p s al \<noteq> None" if "(p, s, al) \<in> L" for p s al
    using that mem b0(2) ka_dealloc_ok [OF h _ base] unfolding L layout_of_def by fastforce+
  have two: "{p..<p + s} \<inter> {q..<q + t} = {}" if "(p, s, al) \<in> L" "(q, t, al') \<in> L" "(p, s, al) \<noteq> (q, t, al')" for p s al q t al'
  proof -
    from that obtain w v where m: "(p, s, al, w) \<in> M" "(q, t, al', v) \<in> M" unfolding L layout_of_def by auto
    then have "footprint (ka_buddy k) (p, s, al, w) \<inter> footprint (ka_buddy k) (q, t, al', v) = {}"
      using heap_okD(7) [OF h m] that(3) by blast
    then show ?thesis using mem [OF m(1)] mem [OF m(2)] by blast
  qed
  have "ka_alloc checks k s al \<noteq> None" if "layout_ok s al" for s al
    using ka_alloc_ok [OF h that base] by auto
  with one two show ?thesis by blast
qed

text \<open>In a machine of sixteen pages a page can be allocated after start-up.\<close>

lemma first_page:
  "\<exists>k p k'. ka_init (ka_new 16 st) 4096 65536 = Some k \<and> ka_alloc checks k 4096 4096 = Some (p, k') \<and> p \<noteq> 0"
proof -
  from ka_init_ok [of 4096 65536 16 st checks] obtain b0 k H where b0: "bd_base b0 = 4096" "free_set b0 = {..<16}"
    and k: "ka_init (ka_new 16 st) 4096 65536 = Some k" "heap_ok checks b0 k H {} {}" "page_blocks 8 H" by (auto simp: PAGE_SIZE_4K_def)
  have un: "free_set (ka_buddy k) \<union> pages H = {..<16}" using heap_okD(2) [OF k(2)] unfolding holds_def b0(2) by blast
  have "free_set (ka_buddy k) \<noteq> {}"
  proof
    assume "free_set (ka_buddy k) = {}"
    then have "card (pages H) = 16" using un by simp
    then show False using pages_page_blocks [OF k(3)] by simp
  qed
  then obtain i where "blk 0 i \<subseteq> free_set (ka_buddy k)" by (auto simp: blk_def)
  then obtain addr b' where al: "allocate (ka_buddy k) 0 = Some (Inr (addr, b'))"
    using pa.alloc_cases [OF heap_okD(8) [OF k(2)], of 0] by (auto simp: MAX_ORDER_def)
  have "buddy_order checks 4096 4096 = Some 0" by (simp add: buddy_order_def PAGE_SIZE_4K_def next_power_of_two_def trailing_zeros_pow [of 0, simplified])
  then have "ka_alloc checks k 4096 4096 = Some (addr, k\<lparr>ka_buddy := b'\<rparr>)"
    using al heap_okD(1) [OF k(2)] by (simp add: ka_alloc_def slab_layout_def try_buddy_alloc_def PAGE_SIZE_4K_def)
  moreover have "addr \<noteq> 0" using block_step_ok [OF k(2) al] heap_okD(4) b0(1) by (fastforce simp: block_addr_def)
  ultimately show ?thesis using k(1) by blast
qed

lemma layout_page: "layout_ok 4096 4096"
  using is_power_of_two_iff [of 4096] by (auto simp: layout_ok_def intro: exI [of _ 12])

theorem global_allocator_safe_witness:
  "\<forall>st. \<exists>k p. heap_run True 16 4096 65536 st k {(p, 4096, 4096)} \<and> 4096 dvd p \<and> p + 4096 \<le> 4096 + 65536"
proof
  fix st
  from first_page [of st True] obtain k p k' where k: "ka_init (ka_new 16 st) 4096 65536 = Some k" "ka_alloc True k 4096 4096 = Some (p, k')" "p \<noteq> 0" by blast
  have r: "heap_run True 16 4096 65536 st k' {(p, 4096, 4096)}"
    using hrun_alloc [OF hrun_init [OF k(1)] layout_page k(2)] k(3) by simp
  from global_allocator_safe [OF _ _ _ _ this] r
  show "\<exists>k p. heap_run True 16 4096 65536 st k {(p, 4096, 4096)} \<and> 4096 dvd p \<and> p + 4096 \<le> 4096 + 65536"
    by (auto simp: PAGE_SIZE_4K_def)
qed

section \<open>Memory that is not given back\<close>

lemma pow2_dvd: "is_power_of_two a \<Longrightarrow> a \<le> 2 ^ n * PAGE_SIZE_4K \<Longrightarrow> a dvd 2 ^ n * PAGE_SIZE_4K"
proof -
  assume a: "is_power_of_two a" "a \<le> 2 ^ n * PAGE_SIZE_4K"
  obtain k where k: "a = 2 ^ k" using a(1) by (auto simp: is_power_of_two_iff)
  have e: "2 ^ n * PAGE_SIZE_4K = 2 ^ (n + 12)" by (simp add: PAGE_SIZE_4K_def power_add)
  have "(2::nat) ^ k \<le> 2 ^ (n + 12)" using a(2) unfolding k e .
  then have "k \<le> n + 12" by (rule power_le_imp_le_exp [rotated]) simp
  then show ?thesis unfolding k e by (rule le_imp_power_dvd)
qed

text \<open>
  Over-aligned allocations leak when the memory does not start at a multiple of the alignment.
  Such a request is given a pointer behind the start of its block; the release passes that pointer
  to the buddy allocator, which refuses it, and the refusal is ignored: the state does not change
  and the page of the released pointer stays allocated.
\<close>

theorem overaligned_release_leaks:
  assumes dom: "PAGE_SIZE_4K dvd base" "sz div PAGE_SIZE_4K \<le> max_pages" "base + sz < 2 ^ 64" "0 < base"
    and run: "heap_run checks max_pages base sz st k L" and lay: "layout_ok s al" "PAGE_SIZE_4K < al" "\<not> al dvd base"
    and a: "ka_alloc checks k s al = Some (p, k')" "p \<noteq> 0"
  shows "ka_dealloc checks k' p s al = Some k' \<and> page_of (ka_buddy k') p \<in> alloc_set (ka_buddy k')"
proof -
  from ka_init_ok [OF dom(1-3), of st checks] obtain b0 where b0: "buddy_boot max_pages base sz = Some b0" "bd_base b0 = base" by blast
  from heap_run_ok [OF b0(1) dom run] obtain H S M where h: "heap_ok checks b0 k H S M" by blast
  have base: "0 < bd_base b0" using b0(2) dom(4) by simp
  have ns: "\<not> slab_layout s al" using lay(2) by (auto simp: slab_layout_def PAGE_SIZE_4K_def max_def split: if_splits)
  then have "ka_alloc checks k s al = try_buddy_alloc checks k s al" using heap_okD(1) [OF h] by (simp add: ka_alloc_def)
  with try_buddy_alloc_ok [OF h lay(1) base] a obtain n i where h': "heap_ok checks b0 k' (insert (n, i) H) S (insert (p, s, al, InBlock n i) M)" by auto
  let ?b = "ka_buddy k'"
  note pl = heap_okD(6) [OF h', of "(p, s, al, InBlock n i)", simplified] and top = block_top [OF h', of n i, simplified]
  from buddy_order_spec [of s al checks] lay(1,2) pl have "al \<le> 2 ^ n * PAGE_SIZE_4K" by (auto simp: layout_ok_def request_def)
  then have "al dvd 2 ^ n * PAGE_SIZE_4K" using pow2_dvd lay(1) by (simp add: layout_ok_def)
  then have "al dvd i * 2 ^ n * PAGE_SIZE_4K" by (metis dvd_mult mult.assoc)
  then have "p \<noteq> block_addr ?b n i"
    using pl lay(3) heap_okD(4) [OF h'] b0(2) unfolding block_addr_def by (metis dvd_add_left_iff)
  then have inside: "block_addr ?b n i < p" "p < block_addr ?b n i + 2 ^ n * PAGE_SIZE_4K" using pl by linarith+
  have p64: "p < 2 ^ 64" using inside(2) top(2,3) by simp
  have "free ?b p n = Some (Inl BadAlignment)" using free_inside_block [OF heap_okD(8) [OF h'] top(1) _ inside] pl by simp
  then have "ka_dealloc checks k' p s al = Some k'"
    using ns lay(2) pl a(2) heap_okD(1) [OF h'] align_down_page [OF _ p64] by (simp add: ka_dealloc_def)
  moreover have "page_of ?b p \<in> blk n i" using block_bytes_page [of p ?b n i] inside by (simp add: block_bytes_def)
  moreover have "blk n i \<subseteq> alloc_set ?b" using heap_okD(2) [OF h'] blk_subset_pages [of n i "insert (n, i) H"] by (simp add: holds_def)
  ultimately show ?thesis by blast
qed

lemma free_quad:
  "\<exists>k p k'. ka_init (ka_new 64 st) 4096 262144 = Some k \<and> ka_alloc checks k 4096 8192 = Some (p, k') \<and> p \<noteq> 0"
proof -
  from ka_init_ok [of 4096 262144 64 st checks] obtain b0 k H where b0: "bd_base b0 = 4096" "free_set b0 = {..<64}"
    and k: "ka_init (ka_new 64 st) 4096 262144 = Some k" "heap_ok checks b0 k H {} {}" "page_blocks 8 H" by (auto simp: PAGE_SIZE_4K_def)
  have un: "free_set (ka_buddy k) \<union> pages H = {..<64}" using heap_okD(2) [OF k(2)] unfolding holds_def b0(2) by blast
  have "card ((\<lambda>p. p div 4) ` pages H) \<le> 8" using pages_page_blocks [OF k(3)] card_image_le [of "pages H" "\<lambda>p. p div 4"] by linarith
  then have "\<not> {..<16} \<subseteq> (\<lambda>p. p div 4) ` pages H" using pages_page_blocks [OF k(3)] card_mono [of "(\<lambda>p. p div 4) ` pages H" "{..<16}"] by auto
  then obtain i where i: "i < 16" "i \<notin> (\<lambda>p. p div 4) ` pages H" by auto
  have "blk 2 i \<subseteq> {..<64}" using i(1) by (auto simp: blk_def)
  then have "blk 2 i \<subseteq> free_set (ka_buddy k)" using un i(2) by (auto simp: blk_def)
  then obtain addr b' where al: "allocate (ka_buddy k) 2 = Some (Inr (addr, b'))"
    using pa.alloc_cases [OF heap_okD(8) [OF k(2)], of 2] by (auto simp: MAX_ORDER_def)
  have lay: "layout_ok 4096 8192" using is_power_of_two_iff [of 8192] by (auto simp: layout_ok_def intro: exI [of _ 13])
  have "bit_length 2 = 2" using bit_length_pow [of 1] by simp
  then have "buddy_order checks 4096 8192 = Some 2"
    using trailing_zeros_pow [of 2] by (simp add: buddy_order_def PAGE_SIZE_4K_def next_power_of_two_def)
  moreover have "ka_alloc checks k 4096 8192 = try_buddy_alloc checks k 4096 8192" using heap_okD(1) [OF k(2)] by (simp add: ka_alloc_def slab_layout_def)
  ultimately have "ka_alloc checks k 4096 8192 = do { ptr \<leftarrow> align_ptr checks addr 8192; Some (ptr, k\<lparr>ka_buddy := b'\<rparr>) }"
    using al by (simp add: try_buddy_alloc_def PAGE_SIZE_4K_def)
  moreover have "addr \<noteq> 0" using block_step_ok [OF k(2) al] heap_okD(4) b0(1) by (fastforce simp: block_addr_def)
  moreover obtain p where "align_ptr checks addr 8192 = Some p" "addr \<le> p"
  proof -
    from block_step_ok [OF k(2) al] obtain j where "addr = block_addr b' 2 j" "heap_ok checks b0 (k\<lparr>ka_buddy := b'\<rparr>) (insert (2, j) H) {} {}" by blast
    with block_top [OF this(2), of 2 j] have "addr + 8192 < 2 ^ 64" by (simp add: PAGE_SIZE_4K_def)
    from align_ptr_spec [OF _ this, of checks] lay that show thesis by (auto simp: layout_ok_def)
  qed
  ultimately show ?thesis using k(1) by auto
qed

theorem overaligned_release_leaks_witness:
  "\<forall>st. \<exists>k p k'. ka_init (ka_new 64 st) 4096 262144 = Some k \<and> ka_alloc True k 4096 8192 = Some (p, k') \<and> p \<noteq> 0 \<and>
    ka_dealloc True k' p 4096 8192 = Some k'"
proof
  fix st
  from free_quad [of st True] obtain k p k' where k: "ka_init (ka_new 64 st) 4096 262144 = Some k" "ka_alloc True k 4096 8192 = Some (p, k')" "p \<noteq> 0" by blast
  have lay: "layout_ok 4096 8192" using is_power_of_two_iff [of 8192] by (auto simp: layout_ok_def intro: exI [of _ 13])
  have "PAGE_SIZE_4K dvd 4096" "262144 div PAGE_SIZE_4K \<le> 64" "PAGE_SIZE_4K < 8192" "\<not> 8192 dvd (4096::nat)" by (simp_all add: PAGE_SIZE_4K_def)
  with overaligned_release_leaks [OF _ _ _ _ hrun_init [OF k(1)] lay _ _ k(2,3)] k
  show "\<exists>k p k'. ka_init (ka_new 64 st) 4096 262144 = Some k \<and> ka_alloc True k 4096 8192 = Some (p, k') \<and> p \<noteq> 0 \<and>
    ka_dealloc True k' p 4096 8192 = Some k'" by auto
qed

text \<open>
  A class with 256 pages cannot grow, and the page that was fetched for it is not returned: every
  further request of the class takes one page away for nothing before the buddy allocator is asked.\<close>

lemma full_class_loses_page:
  assumes "slab_allocate checks (ka_slab k) sz = Some (Inl SlabExhausted)" "size_class_index sz = Some ci"
    "slab_state (ka_slab k) S" "sc_count (sa_classes (ka_slab k) ! ci) = MAX_SLABS_PER_CLASS"
    "allocate_page (ka_buddy k) = Some (Inr (page, b'))"
  shows "try_slab_alloc checks k sz = Some (None, k\<lparr>ka_buddy := b'\<rparr>)"
proof -
  obtain fr where "slab_inv (ka_slab k) fr" using assms(3) by (auto simp: slab_state_def)
  from add_slab_page_full [OF this, of ci page] assms size_class_indexD [OF assms(2)]
  show ?thesis by (simp add: try_slab_alloc_def)
qed

end
