(* ===== verification/Tensor_Pool.thy ===== *)
theory Tensor_Pool
  imports Mem_Types
begin

text \<open>
  The tensor pool (\<open>kernel/src/mem/tensor.rs\<close>): bump allocation in an arena with a table of 4096
  reference-counted entries. Additions of sizes behave as the build profile says: with overflow
  checks they panic, without them (the release profile of the workspace) they wrap; the profile is
  the argument \<open>checks\<close> of the operations that add. Reference counts are 32-bit atomics that wrap.
\<close>

section \<open>The pool\<close>

definition TENSOR_ALIGNMENT :: nat where
  "TENSOR_ALIGNMENT = 64"

definition MAX_TENSOR_BUFFERS :: nat where
  "MAX_TENSOR_BUFFERS = 4096"

type_synonym tensor_handle = u32

record tensor_entry =
  te_offset :: nat
  te_size :: nat
  te_refcount :: u32
  te_active :: bool

record tensor_pool =
  tp_base :: phys_addr
  tp_capacity :: nat
  tp_bump_offset :: nat
  tp_entries :: "tensor_entry list"
  tp_active_count :: nat

definition entry_empty :: tensor_entry where
  "entry_empty = \<lparr>te_offset = 0, te_size = 0, te_refcount = 0, te_active = False\<rparr>"

definition pool_new :: tensor_pool where
  "pool_new = \<lparr>tp_base = 0, tp_capacity = 0, tp_bump_offset = 0, tp_entries = replicate MAX_TENSOR_BUFFERS entry_empty,
     tp_active_count = 0\<rparr>"

definition pool_init :: "tensor_pool \<Rightarrow> phys_addr \<Rightarrow> nat \<Rightarrow> tensor_pool" where
  "pool_init p base capacity = p\<lparr>tp_base := base, tp_capacity := capacity, tp_bump_offset := 0, tp_active_count := 0\<rparr>"

definition find_free_slot :: "tensor_pool \<Rightarrow> nat option" where
  "find_free_slot p = find (\<lambda>i. \<not> te_active (tp_entries p ! i)) [0..<MAX_TENSOR_BUFFERS]"

definition pool_allocate :: "bool \<Rightarrow> tensor_pool \<Rightarrow> nat \<Rightarrow> (mem_error, (tensor_handle \<times> phys_addr) \<times> tensor_pool) result option" where
  "pool_allocate checks p sz =
     (if sz = 0 then Some (Inl BadAlignment)
      else do {
        bumped \<leftarrow> usize_add checks (tp_bump_offset p) TENSOR_ALIGNMENT;
        below \<leftarrow> usize_sub checks bumped 1;
        let aligned_offset = align_down_usize below TENSOR_ALIGNMENT;
        end \<leftarrow> usize_add checks aligned_offset sz;
        if end > tp_capacity p then Some (Inl TensorPoolExhausted)
        else case find_free_slot p of
          None \<Rightarrow> Some (Inl TensorPoolExhausted)
        | Some slot \<Rightarrow> do {
            n \<leftarrow> usize_add checks (tp_active_count p) 1;
            addr \<leftarrow> usize_add checks (tp_base p) aligned_offset;
            Some (Inr ((of_nat slot, addr),
              p\<lparr>tp_entries := (tp_entries p)[slot := \<lparr>te_offset = aligned_offset, te_size = sz, te_refcount = 1, te_active = True\<rparr>],
                tp_bump_offset := end, tp_active_count := n\<rparr>)) } })"

definition get_entry :: "tensor_pool \<Rightarrow> tensor_handle \<Rightarrow> (mem_error, tensor_entry) result" where
  "get_entry p h =
     (if unat h \<ge> MAX_TENSOR_BUFFERS \<or> \<not> te_active (tp_entries p ! unat h) then Inl InvalidAddress
      else Inr (tp_entries p ! unat h))"

definition pool_retain :: "tensor_pool \<Rightarrow> tensor_handle \<Rightarrow> (mem_error, tensor_pool) result" where
  "pool_retain p h = (case get_entry p h of
     Inl e \<Rightarrow> Inl e
   | Inr e \<Rightarrow> Inr (p\<lparr>tp_entries := (tp_entries p)[unat h := e\<lparr>te_refcount := te_refcount e + 1\<rparr>]\<rparr>))"

definition pool_release :: "bool \<Rightarrow> tensor_pool \<Rightarrow> tensor_handle \<Rightarrow> (mem_error, tensor_pool) result option" where
  "pool_release checks p h =
     (if unat h \<ge> MAX_TENSOR_BUFFERS \<or> \<not> te_active (tp_entries p ! unat h) then Some (Inl InvalidAddress)
      else let e = tp_entries p ! unat h; prev = te_refcount e; e1 = e\<lparr>te_refcount := prev - 1\<rparr> in
        if prev = 1 then do {
          n \<leftarrow> usize_sub checks (tp_active_count p) 1;
          Some (Inr (p\<lparr>tp_entries := (tp_entries p)[unat h := e1\<lparr>te_active := False\<rparr>], tp_active_count := n\<rparr>)) }
        else Some (Inr (p\<lparr>tp_entries := (tp_entries p)[unat h := e1]\<rparr>)))"

definition pool_address :: "bool \<Rightarrow> tensor_pool \<Rightarrow> tensor_handle \<Rightarrow> (mem_error, phys_addr) result option" where
  "pool_address checks p h = (case get_entry p h of
     Inl e \<Rightarrow> Some (Inl e) | Inr e \<Rightarrow> map_option Inr (usize_add checks (tp_base p) (te_offset e)))"

definition pool_size :: "tensor_pool \<Rightarrow> tensor_handle \<Rightarrow> (mem_error, nat) result" where
  "pool_size p h = map_sum id te_size (get_entry p h)"

definition pool_refcount :: "tensor_pool \<Rightarrow> tensor_handle \<Rightarrow> (mem_error, u32) result" where
  "pool_refcount p h = map_sum id te_refcount (get_entry p h)"

definition pool_reset :: "tensor_pool \<Rightarrow> tensor_pool" where
  "pool_reset p = p\<lparr>tp_bump_offset := 0, tp_active_count := 0,
     tp_entries := map (\<lambda>e. e\<lparr>te_active := False, te_refcount := 0\<rparr>) (tp_entries p)\<rparr>"

definition pool_remaining :: "tensor_pool \<Rightarrow> nat" where
  "pool_remaining p = tp_capacity p - tp_bump_offset p"

section \<open>Live buffers\<close>

definition buffer_bytes :: "tensor_pool \<Rightarrow> nat \<Rightarrow> nat set" where
  "buffer_bytes p i = (let e = tp_entries p ! i in {tp_base p + te_offset e..<tp_base p + te_offset e + te_size e})"

definition live_slots :: "tensor_pool \<Rightarrow> nat set" where
  "live_slots p = {i. i < MAX_TENSOR_BUFFERS \<and> te_active (tp_entries p ! i)}"

definition pool_inv :: "tensor_pool \<Rightarrow> bool" where
  [inv_defs]: "pool_inv p \<longleftrightarrow> length (tp_entries p) = MAX_TENSOR_BUFFERS \<and> tp_base p + tp_capacity p + 64 < 2 ^ 64 \<and>
     tp_bump_offset p \<le> tp_capacity p \<and> tp_active_count p = card (live_slots p) \<and>
     (\<forall>i \<in> live_slots p. let e = tp_entries p ! i in
        64 dvd te_offset e \<and> 0 < te_size e \<and> te_offset e + te_size e \<le> tp_bump_offset p) \<and>
     (\<forall>i \<in> live_slots p. \<forall>j \<in> live_slots p. i \<noteq> j \<longrightarrow> buffer_bytes p i \<inter> buffer_bytes p j = {})"

lemma finite_live [simp]: "finite (live_slots p)"
  by (simp add: live_slots_def)

lemma live_init: "live_slots (pool_init pool_new base capacity) = {}"
  by (auto simp: live_slots_def pool_init_def pool_new_def entry_empty_def)

lemma pool_inv_init: "base + capacity + 64 < 2 ^ 64 \<Longrightarrow> pool_inv (pool_init pool_new base capacity)"
  by (simp add: pool_inv_def live_init) (simp add: pool_init_def pool_new_def)

lemma live_update:
  "length (tp_entries p) = MAX_TENSOR_BUFFERS \<Longrightarrow> i < MAX_TENSOR_BUFFERS \<Longrightarrow>
     live_slots (p\<lparr>tp_entries := (tp_entries p)[i := e]\<rparr>) = (if te_active e then insert i (live_slots p) else live_slots p - {i})"
  by (auto simp: live_slots_def nth_list_update)

lemma live_more [simp]:
  "live_slots (p\<lparr>tp_bump_offset := b\<rparr>) = live_slots p" "live_slots (p\<lparr>tp_active_count := n\<rparr>) = live_slots p"
  by (simp_all add: live_slots_def)

section \<open>Allocation\<close>

definition aligned_bump :: "tensor_pool \<Rightarrow> nat" where
  "aligned_bump p = (tp_bump_offset p + 63) div 64 * 64"

lemma aligned_bump_bounds: "tp_bump_offset p \<le> aligned_bump p" "aligned_bump p < tp_bump_offset p + 64" "64 dvd aligned_bump p"
  unfolding aligned_bump_def by linarith+ simp

lemma align_down_bump:
  "tp_bump_offset p + 64 < 2 ^ 64 \<Longrightarrow> align_down_usize (tp_bump_offset p + TENSOR_ALIGNMENT - 1) TENSOR_ALIGNMENT = aligned_bump p"
  using align_down_usize_eq [of "tp_bump_offset p + 63" 6]
  by (simp add: TENSOR_ALIGNMENT_def aligned_bump_def minus_mod_eq_div_mult add.commute)

lemma find_free_slot_None: "find_free_slot p = None \<longleftrightarrow> live_slots p = {..<MAX_TENSOR_BUFFERS}"
  by (auto simp: find_free_slot_def find_None_iff live_slots_def)

lemma find_free_slot_Some:
  "find_free_slot p = Some i \<Longrightarrow> i < MAX_TENSOR_BUFFERS \<and> i \<notin> live_slots p \<and> (\<forall>j < i. j \<in> live_slots p)"
  by (auto simp: find_free_slot_def find_Some_iff live_slots_def)

definition fresh_entry :: "tensor_pool \<Rightarrow> nat \<Rightarrow> tensor_entry" where
  "fresh_entry p sz = \<lparr>te_offset = aligned_bump p, te_size = sz, te_refcount = 1, te_active = True\<rparr>"

definition pool_bounds :: "tensor_pool \<Rightarrow> bool" where
  "pool_bounds p \<longleftrightarrow> tp_base p + tp_capacity p + 64 < 2 ^ 64 \<and> tp_bump_offset p \<le> tp_capacity p \<and>
     tp_active_count p \<le> MAX_TENSOR_BUFFERS"

lemma pool_inv_bounds: "pool_inv p \<Longrightarrow> pool_bounds p"
  using card_mono [of "{..<MAX_TENSOR_BUFFERS}" "live_slots p"] by (auto simp: pool_inv_def pool_bounds_def live_slots_def)

text \<open>Every branch of \<open>allocate\<close> when the sizes do not reach \<open>2 ^ 64\<close>; then no profile panics.\<close>

lemma pool_allocate_eq:
  assumes "pool_bounds p" "tp_capacity p + 64 + sz < 2 ^ 64"
  shows "pool_allocate checks p sz = Some (
    if sz = 0 then Inl BadAlignment
    else if aligned_bump p + sz > tp_capacity p then Inl TensorPoolExhausted
    else case find_free_slot p of None \<Rightarrow> Inl TensorPoolExhausted
    | Some slot \<Rightarrow> Inr ((of_nat slot, tp_base p + aligned_bump p),
        p\<lparr>tp_entries := (tp_entries p)[slot := fresh_entry p sz], tp_bump_offset := aligned_bump p + sz,
          tp_active_count := tp_active_count p + 1\<rparr>))"
proof -
  have b: "tp_bump_offset p + 64 < 2 ^ 64" and c: "tp_bump_offset p \<le> tp_capacity p"
    and d: "tp_base p + tp_capacity p + 64 < 2 ^ 64"
    using assms by (auto simp: pool_bounds_def)
  have ad: "align_down_usize (tp_bump_offset p + TENSOR_ALIGNMENT - 1) TENSOR_ALIGNMENT = aligned_bump p"
    by (rule align_down_bump [OF b])
  have e1: "usize_add checks (tp_bump_offset p) TENSOR_ALIGNMENT = Some (tp_bump_offset p + TENSOR_ALIGNMENT)"
    using b by (simp add: TENSOR_ALIGNMENT_def)
  have e2: "usize_sub checks (tp_bump_offset p + TENSOR_ALIGNMENT) 1 = Some (tp_bump_offset p + TENSOR_ALIGNMENT - 1)"
    by (simp add: TENSOR_ALIGNMENT_def)
  have e3: "usize_add checks (aligned_bump p) sz = Some (aligned_bump p + sz)"
    using aligned_bump_bounds(2) [of p] c assms(2) by simp
  have e4: "usize_add checks (tp_base p) (aligned_bump p) = Some (tp_base p + aligned_bump p)"
    using aligned_bump_bounds(2) [of p] c d by simp
  have e5: "usize_add checks (tp_active_count p) 1 = Some (tp_active_count p + 1)"
    using assms(1) by (simp add: pool_bounds_def MAX_TENSOR_BUFFERS_def)
  show ?thesis
    unfolding pool_allocate_def e1 bind.bind_lunit e2 Let_def ad e3 e4 e5 fresh_entry_def by (simp split: option.split)
qed

text \<open>Live buffers lie below the bump pointer, so a buffer placed above it overlaps none of them.\<close>

lemma pool_inv_place:
  assumes "pool_inv p" "i < MAX_TENSOR_BUFFERS" "i \<notin> live_slots p" "0 < sz" "aligned_bump p + sz \<le> tp_capacity p"
  shows "pool_inv (p\<lparr>tp_entries := (tp_entries p)[i := fresh_entry p sz], tp_bump_offset := aligned_bump p + sz,
    tp_active_count := tp_active_count p + 1\<rparr>)" (is "pool_inv ?q")
proof -
  have len: "length (tp_entries p) = MAX_TENSOR_BUFFERS" using assms(1) by (simp add: pool_inv_def)
  have lv: "live_slots ?q = insert i (live_slots p)" using assms(2,3) len
    by (auto simp: live_slots_def nth_list_update fresh_entry_def)
  have old: "tp_entries ?q ! j = tp_entries p ! j" if "j \<in> live_slots p" for j using that assms(3) by (cases "i = j") auto
  have new: "tp_entries ?q ! i = fresh_entry p sz" using assms(2) len by simp
  have bb: "buffer_bytes ?q j = buffer_bytes p j" if "j \<in> live_slots p" for j using old [OF that] by (simp add: buffer_bytes_def)
  have bn: "buffer_bytes ?q i = {tp_base p + aligned_bump p..<tp_base p + aligned_bump p + sz}"
    using new by (simp add: buffer_bytes_def fresh_entry_def)
  have below: "buffer_bytes p j \<subseteq> {..<tp_base p + tp_bump_offset p}" if "j \<in> live_slots p" for j
    using assms(1) that by (auto simp: pool_inv_def buffer_bytes_def Let_def)
  have disj: "buffer_bytes p j \<inter> buffer_bytes ?q i = {}" if "j \<in> live_slots p" for j
    using below [OF that] aligned_bump_bounds(1) [of p] unfolding bn by force
  have up: "tp_bump_offset p \<le> aligned_bump p + sz" using aligned_bump_bounds(1) [of p] by simp
  have ent: "\<forall>j \<in> live_slots ?q. let e = tp_entries ?q ! j in 64 dvd te_offset e \<and> 0 < te_size e \<and> te_offset e + te_size e \<le> tp_bump_offset ?q"
    unfolding lv using assms(1,4) old new up aligned_bump_bounds(3) [of p]
    by (auto simp: pool_inv_def Let_def fresh_entry_def dest!: bspec)
  have "\<forall>j \<in> live_slots ?q. \<forall>k \<in> live_slots ?q. j \<noteq> k \<longrightarrow> buffer_bytes ?q j \<inter> buffer_bytes ?q k = {}"
    unfolding lv using assms(1) bb disj by (auto simp: pool_inv_def)
  with ent show ?thesis using assms lv len by (simp add: pool_inv_def)
qed

section \<open>Reference counts\<close>

lemma live_index: "i \<in> live_slots p \<Longrightarrow> i < MAX_TENSOR_BUFFERS" "i \<in> live_slots p \<Longrightarrow> te_active (tp_entries p ! i)"
  by (simp_all add: live_slots_def)

lemma get_entry_eq: "get_entry p h = (if unat h \<in> live_slots p then Inr (tp_entries p ! unat h) else Inl InvalidAddress)"
  by (simp add: get_entry_def live_slots_def)

lemma pool_retain_eq: "pool_retain p h = (if unat h \<in> live_slots p
    then Inr (p\<lparr>tp_entries := (tp_entries p)[unat h := (tp_entries p ! unat h)\<lparr>te_refcount := te_refcount (tp_entries p ! unat h) + 1\<rparr>]\<rparr>)
    else Inl InvalidAddress)"
  by (simp add: pool_retain_def get_entry_eq)

text \<open>A change of the reference count alone keeps the layout of the pool.\<close>

lemma pool_inv_recount:
  assumes "pool_inv p" "i \<in> live_slots p"
  shows "pool_inv (p\<lparr>tp_entries := (tp_entries p)[i := (tp_entries p ! i)\<lparr>te_refcount := n\<rparr>]\<rparr>)" (is "pool_inv ?q")
    and "live_slots (p\<lparr>tp_entries := (tp_entries p)[i := (tp_entries p ! i)\<lparr>te_refcount := n\<rparr>]\<rparr>) = live_slots p"
proof -
  have len: "length (tp_entries p) = MAX_TENSOR_BUFFERS" using assms(1) by (simp add: pool_inv_def)
  show lv: "live_slots ?q = live_slots p"
    using live_index [OF assms(2)] len assms(2) by (simp add: live_update insert_absorb)
  have e: "te_offset (tp_entries ?q ! j) = te_offset (tp_entries p ! j) \<and> te_size (tp_entries ?q ! j) = te_size (tp_entries p ! j)" for j
    using live_index [OF assms(2)] len by (cases "j = i") auto
  have "buffer_bytes ?q j = buffer_bytes p j" for j
    using e [of j] by (simp add: buffer_bytes_def Let_def)
  then show "pool_inv ?q"
    using assms(1) e unfolding pool_inv_def lv Let_def by simp
qed

lemma pool_inv_drop:
  assumes "pool_inv p" "i \<in> live_slots p" "\<not> te_active e"
  shows "pool_inv (p\<lparr>tp_entries := (tp_entries p)[i := e], tp_active_count := tp_active_count p - 1\<rparr>)" (is "pool_inv ?q")
    and "live_slots (p\<lparr>tp_entries := (tp_entries p)[i := e], tp_active_count := tp_active_count p - 1\<rparr>) = live_slots p - {i}"
proof -
  have len: "length (tp_entries p) = MAX_TENSOR_BUFFERS" using assms(1) by (simp add: pool_inv_def)
  show lv: "live_slots ?q = live_slots p - {i}"
    using live_index [OF assms(2)] len assms(3) by (simp add: live_update)
  have e: "tp_entries ?q ! j = tp_entries p ! j" if "j \<noteq> i" for j using that by simp
  then have b: "buffer_bytes ?q j = buffer_bytes p j" if "j \<noteq> i" for j
    using that by (simp add: buffer_bytes_def)
  have c: "tp_active_count ?q = card (live_slots ?q)"
    unfolding lv using assms(1,2) by (simp add: pool_inv_def)
  have "\<forall>j \<in> live_slots ?q. let e = tp_entries ?q ! j in 64 dvd te_offset e \<and> 0 < te_size e \<and> te_offset e + te_size e \<le> tp_bump_offset ?q"
    unfolding lv using assms(1) e by (auto simp: pool_inv_def)
  moreover have "\<forall>j \<in> live_slots ?q. \<forall>k \<in> live_slots ?q. j \<noteq> k \<longrightarrow> buffer_bytes ?q j \<inter> buffer_bytes ?q k = {}"
    unfolding lv using assms(1) b by (auto simp: pool_inv_def)
  ultimately show "pool_inv ?q" using c assms(1) by (simp add: pool_inv_def)
qed

lemma pool_inv_reset: "pool_inv p \<Longrightarrow> pool_inv (pool_reset p)" "length (tp_entries p) = MAX_TENSOR_BUFFERS \<Longrightarrow> live_slots (pool_reset p) = {}"
proof -
  have lv: "live_slots (pool_reset p) = {}" if "length (tp_entries p) = MAX_TENSOR_BUFFERS"
    using that by (auto simp: live_slots_def pool_reset_def)
  then show "length (tp_entries p) = MAX_TENSOR_BUFFERS \<Longrightarrow> live_slots (pool_reset p) = {}" .
  show "pool_inv (pool_reset p)" if "pool_inv p"
    using that lv unfolding pool_inv_def by (simp add: pool_reset_def)
qed

text \<open>
  Calls on the pool, with the references that the callers hold on each slot counted beside it: an
  allocation gives the caller one, a retain one more, a release takes one back and a reset all.
\<close>

datatype pool_op = PAlloc nat | PRetain tensor_handle | PRelease tensor_handle | PReset

fun pool_step :: "bool \<Rightarrow> pool_op \<Rightarrow> tensor_pool \<times> (nat \<Rightarrow> nat) \<Rightarrow> (tensor_pool \<times> (nat \<Rightarrow> nat)) option" where
  "pool_step checks (PAlloc n) (p, refs) = do {
     r \<leftarrow> pool_allocate checks p n;
     Some (case r of Inl _ \<Rightarrow> (p, refs) | Inr ((h, _), q) \<Rightarrow> (q, refs(unat h := 1))) }"
| "pool_step checks (PRetain h) (p, refs) =
     Some (case pool_retain p h of Inl _ \<Rightarrow> (p, refs) | Inr q \<Rightarrow> (q, refs(unat h := refs (unat h) + 1)))"
| "pool_step checks (PRelease h) (p, refs) = do {
     r \<leftarrow> pool_release checks p h;
     Some (case r of Inl _ \<Rightarrow> (p, refs) | Inr q \<Rightarrow> (q, refs(unat h := refs (unat h) - 1))) }"
| "pool_step checks PReset (p, refs) = Some (pool_reset p, \<lambda>_. 0)"

fun op_fits :: "nat \<Rightarrow> pool_op \<Rightarrow> bool" where
  "op_fits cap (PAlloc n) \<longleftrightarrow> cap + 64 + n < 2 ^ 64"
| "op_fits cap _ \<longleftrightarrow> True"

definition arena :: "tensor_pool \<Rightarrow> nat \<times> nat" where
  [simp]: "arena p = (tp_base p, tp_capacity p)"

definition counted :: "nat \<Rightarrow> tensor_pool \<times> (nat \<Rightarrow> nat) \<Rightarrow> bool" where
  "counted n = (\<lambda>(p, refs). pool_inv p \<and> (\<forall>i. 0 < refs i \<longleftrightarrow> i \<in> live_slots p) \<and>
     (\<forall>i \<in> live_slots p. te_refcount (tp_entries p ! i) = of_nat (refs i)) \<and> (\<forall>i. refs i \<le> n))"

lemma countedI:
  "pool_inv p \<Longrightarrow> (\<And>i. 0 < refs i \<longleftrightarrow> i \<in> live_slots p) \<Longrightarrow> (\<And>i. i \<in> live_slots p \<Longrightarrow> te_refcount (tp_entries p ! i) = of_nat (refs i)) \<Longrightarrow>
   (\<And>i. refs i \<le> n) \<Longrightarrow> counted n (p, refs)"
  by (simp add: counted_def)

lemma countedD:
  assumes "counted n (p, refs)"
  shows "pool_inv p" "0 < refs i \<longleftrightarrow> i \<in> live_slots p" "i \<in> live_slots p \<Longrightarrow> te_refcount (tp_entries p ! i) = of_nat (refs i)"
    "refs i \<le> n" "length (tp_entries p) = MAX_TENSOR_BUFFERS"
  using assms by (auto simp: counted_def pool_inv_def)

lemma counted_mono: "counted n s \<Longrightarrow> n \<le> m \<Longrightarrow> counted m s"
  unfolding counted_def by (auto intro: le_trans)

lemma unat_slot: "i < MAX_TENSOR_BUFFERS \<Longrightarrow> unat (of_nat i :: u32) = i"
  by (simp add: unat_of_nat MAX_TENSOR_BUFFERS_def)

lemma counted_alloc:
  assumes "counted n (p, refs)" "tp_capacity p + 64 + sz < 2 ^ 64"
  shows "\<exists>s. pool_step checks (PAlloc sz) (p, refs) = Some s \<and> counted (Suc n) s \<and> arena (fst s) = arena p"
proof (cases "sz = 0 \<or> tp_capacity p < aligned_bump p + sz \<or> find_free_slot p = None")
  case True
  then show ?thesis using counted_mono [OF assms(1), of "Suc n"] 
    by (auto simp: pool_allocate_eq [OF pool_inv_bounds [OF countedD(1) [OF assms(1)]] assms(2)])
next
  case False
  then obtain i where i: "find_free_slot p = Some i" and sz: "0 < sz" "aligned_bump p + sz \<le> tp_capacity p" by auto
  note fs = find_free_slot_Some [OF i]
  let ?q = "p\<lparr>tp_entries := (tp_entries p)[i := fresh_entry p sz], tp_bump_offset := aligned_bump p + sz,
    tp_active_count := tp_active_count p + 1\<rparr>"
  have st: "pool_step checks (PAlloc sz) (p, refs) = Some (?q, refs(i := 1))"
    using i sz fs by (simp add: pool_allocate_eq [OF pool_inv_bounds [OF countedD(1) [OF assms(1)]] assms(2)] unat_slot)
  have lv: "live_slots ?q = insert i (live_slots p)" using fs countedD(5) [OF assms(1)]
    by (auto simp: live_slots_def nth_list_update fresh_entry_def)
  have "counted (Suc n) (?q, refs(i := 1))"
  proof (rule countedI)
    show "pool_inv ?q" using pool_inv_place [OF countedD(1) [OF assms(1)] _ _ sz] fs by blast
    show "0 < (refs(i := 1)) j \<longleftrightarrow> j \<in> live_slots ?q" for j
      unfolding lv using countedD(2) [OF assms(1), of j] by simp
    show "te_refcount (tp_entries ?q ! j) = of_nat ((refs(i := 1)) j)" if "j \<in> live_slots ?q" for j
      using that countedD(3) [OF assms(1), of j] countedD(5) [OF assms(1)] fs unfolding lv by (auto simp: fresh_entry_def)
    show "(refs(i := 1)) j \<le> Suc n" for j using countedD(4) [OF assms(1), of j] by simp
  qed
  then show ?thesis using st by simp
qed

lemma counted_retain:
  assumes "counted n (p, refs)"
  shows "\<exists>s. pool_step checks (PRetain h) (p, refs) = Some s \<and> counted (Suc n) s \<and> arena (fst s) = arena p"
proof (cases "unat h \<in> live_slots p")
  case True
  let ?e = "(tp_entries p ! unat h)\<lparr>te_refcount := te_refcount (tp_entries p ! unat h) + 1\<rparr>"
  let ?q = "p\<lparr>tp_entries := (tp_entries p)[unat h := ?e]\<rparr>"
  note ri = pool_inv_recount [OF countedD(1) [OF assms] True]
  have "counted (Suc n) (?q, refs(unat h := refs (unat h) + 1))"
  proof (rule countedI)
    show "0 < (refs(unat h := refs (unat h) + 1)) j \<longleftrightarrow> j \<in> live_slots ?q" for j
      unfolding ri(2) using countedD(2) [OF assms, of j] True by simp
    show "te_refcount (tp_entries ?q ! j) = of_nat ((refs(unat h := refs (unat h) + 1)) j)" if "j \<in> live_slots ?q" for j
      using that countedD(3) [OF assms, of j] countedD(5) [OF assms] live_index(1) unfolding ri(2) by (cases "j = unat h") auto
    show "(refs(unat h := refs (unat h) + 1)) j \<le> Suc n" for j using countedD(4) [OF assms, of j] by auto
  qed (rule ri(1))
  then show ?thesis using True by (simp add: pool_retain_eq)
next
  case False
  then show ?thesis using counted_mono [OF assms, of "Suc n"] by (simp add: pool_retain_eq)
qed

lemma count_one:
  assumes "k < 2 ^ 32"
  shows "(of_nat k :: u32) = 1 \<longleftrightarrow> k = 1"
proof -
  have "unat (of_nat k :: u32) = k" using assms by (simp add: unat_of_nat take_bit_nat_eq_self)
  then show ?thesis by (metis of_nat_1 unat_1)
qed

lemma pool_release_eq:
  assumes "counted n (p, refs)" "n < 2 ^ 32"
  shows "pool_release checks p h = Some (
    if unat h \<notin> live_slots p then Inl InvalidAddress
    else let e = tp_entries p ! unat h in
      if refs (unat h) = 1 then Inr (p\<lparr>tp_entries := (tp_entries p)[unat h := e\<lparr>te_refcount := te_refcount e - 1, te_active := False\<rparr>],
        tp_active_count := tp_active_count p - 1\<rparr>)
      else Inr (p\<lparr>tp_entries := (tp_entries p)[unat h := e\<lparr>te_refcount := te_refcount e - 1\<rparr>]\<rparr>))"
proof (cases "unat h \<in> live_slots p")
  case True
  then have "card (live_slots p) > 0" by (auto simp: card_gt_0_iff)
  then have a: "usize_sub checks (tp_active_count p) 1 = Some (tp_active_count p - 1)"
    using countedD(1) [OF assms(1)] by (simp add: pool_inv_def)
  have "refs (unat h) < 2 ^ 32" using countedD(4) [OF assms(1), of "unat h"] assms(2) by simp
  then have one: "te_refcount (tp_entries p ! unat h) = 1 \<longleftrightarrow> refs (unat h) = 1"
    unfolding countedD(3) [OF assms(1) True] by (rule count_one)
  show ?thesis
    unfolding pool_release_def Let_def a one using True by (simp add: live_slots_def)
qed (auto simp: pool_release_def live_slots_def)

lemma counted_release:
  assumes "counted n (p, refs)" "n < 2 ^ 32"
  shows "\<exists>s. pool_step checks (PRelease h) (p, refs) = Some s \<and> counted (Suc n) s \<and> arena (fst s) = arena p"
proof -
  note [simp] = pool_release_eq [OF assms] Let_def
  let ?e = "tp_entries p ! unat h" and ?r = "refs(unat h := refs (unat h) - 1)"
  have le: "?r j \<le> Suc n" for j using countedD(4) [OF assms(1), of j] by auto
  consider "unat h \<notin> live_slots p" | (last) "unat h \<in> live_slots p" "refs (unat h) = 1" | (more) "unat h \<in> live_slots p" "refs (unat h) \<noteq> 1" by blast
  then show ?thesis
  proof cases
    case 1
    then show ?thesis using counted_mono [OF assms(1), of "Suc n"] by simp
  next
    case last
    let ?e' = "?e\<lparr>te_refcount := te_refcount ?e - 1, te_active := False\<rparr>"
    let ?q = "p\<lparr>tp_entries := (tp_entries p)[unat h := ?e'], tp_active_count := tp_active_count p - 1\<rparr>"
    have na: "\<not> te_active ?e'" by simp
    note di = pool_inv_drop [OF countedD(1) [OF assms(1)] last(1) na]
    have "counted (Suc n) (?q, ?r)"
    proof (rule countedI)
      show "0 < ?r j \<longleftrightarrow> j \<in> live_slots ?q" for j unfolding di(2) using countedD(2) [OF assms(1), of j] last by simp
      show "te_refcount (tp_entries ?q ! j) = of_nat (?r j)" if "j \<in> live_slots ?q" for j
        using that countedD(3) [OF assms(1), of j] unfolding di(2) by simp
    qed (rule di(1), rule le)
    then show ?thesis using last by simp
  next
    case more
    let ?q = "p\<lparr>tp_entries := (tp_entries p)[unat h := ?e\<lparr>te_refcount := te_refcount ?e - 1\<rparr>]\<rparr>"
    note ri = pool_inv_recount [OF countedD(1) [OF assms(1)] more(1)]
    have two: "refs (unat h) \<ge> 2" using countedD(2) [OF assms(1), of "unat h"] more by linarith
    have "counted (Suc n) (?q, ?r)"
    proof (rule countedI)
      show "0 < ?r j \<longleftrightarrow> j \<in> live_slots ?q" for j unfolding ri(2) using countedD(2) [OF assms(1), of j] more two by auto
      show "te_refcount (tp_entries ?q ! j) = of_nat (?r j)" if "j \<in> live_slots ?q" for j
        using that countedD(3) [OF assms(1), of j] countedD(5) [OF assms(1)] live_index(1) two
        unfolding ri(2) by (cases "j = unat h") (auto simp: of_nat_diff)
    qed (rule ri(1), rule le)
    then show ?thesis using more by simp
  qed
qed

lemma counted_step:
  assumes "counted n s" "n < 2 ^ 32" "op_fits (tp_capacity (fst s)) op"
  shows "\<exists>s'. pool_step checks op s = Some s' \<and> counted (Suc n) s' \<and> arena (fst s') = arena (fst s)"
proof -
  obtain p refs where s: "s = (p, refs)" by (cases s)
  show ?thesis
  proof (cases op)
    case PReset
    then show ?thesis using assms pool_inv_reset(1) [of p] pool_inv_reset(2) [of p] countedD(5) [of n p refs]
      unfolding s by (simp add: counted_def) (simp add: pool_reset_def)
  qed (use assms counted_alloc counted_retain counted_release in \<open>auto simp: s\<close>)
qed

lemma counted_run:
  "counted n s \<Longrightarrow> n + length ops \<le> 2 ^ 32 \<Longrightarrow> \<forall>op \<in> set ops. op_fits (tp_capacity (fst s)) op \<Longrightarrow>
     \<exists>s'. mfold (pool_step checks) ops s = Some s' \<and> counted (n + length ops) s' \<and> arena (fst s') = arena (fst s)"
proof (induction ops arbitrary: n s)
  case (Cons op ops)
  then obtain s1 where s1: "pool_step checks op s = Some s1" "counted (Suc n) s1" "arena (fst s1) = arena (fst s)"
    using counted_step [of n s op checks] by auto
  then show ?case using Cons.IH [OF s1(2)] Cons.prems by auto
qed simp



section \<open>Where the sizes wrap\<close>

lemma free_slot_exists:
  assumes "card (live_slots p) < MAX_TENSOR_BUFFERS"
  obtains i where "find_free_slot p = Some i" "i < MAX_TENSOR_BUFFERS" "i \<notin> live_slots p"
proof -
  have "live_slots p \<noteq> {..<MAX_TENSOR_BUFFERS}" using assms by (metis card_lessThan less_irrefl)
  then obtain i where "find_free_slot p = Some i" using find_free_slot_None [of p] by (cases "find_free_slot p") auto
  then show thesis using that find_free_slot_Some [of p i] by blast
qed

text \<open>Without overflow checks a size that wraps the end of the buffer to 0 is accepted.\<close>

lemma pool_allocate_wraps:
  assumes "pool_inv p" "0 < aligned_bump p" "card (live_slots p) < MAX_TENSOR_BUFFERS"
  shows "\<exists>i. i < MAX_TENSOR_BUFFERS \<and> i \<notin> live_slots p \<and>
    pool_allocate False p (2 ^ 64 - aligned_bump p) = Some (Inr ((of_nat i, tp_base p + aligned_bump p),
       p\<lparr>tp_entries := (tp_entries p)[i := fresh_entry p (2 ^ 64 - aligned_bump p)], tp_bump_offset := 0,
         tp_active_count := tp_active_count p + 1\<rparr>)) \<and>
    pool_allocate True p (2 ^ 64 - aligned_bump p) = None"
proof -
  have b: "tp_bump_offset p + 64 < 2 ^ 64" and c: "aligned_bump p < tp_capacity p + 64"
    and d: "tp_base p + tp_capacity p + 64 < 2 ^ 64"
    using assms(1) aligned_bump_bounds(2) [of p] by (auto simp: pool_inv_def)
  obtain i where i: "find_free_slot p = Some i" "i < MAX_TENSOR_BUFFERS" "i \<notin> live_slots p"
    using free_slot_exists [OF assms(3)] .
  have e1: "usize_add checks (tp_bump_offset p) TENSOR_ALIGNMENT = Some (tp_bump_offset p + TENSOR_ALIGNMENT)" for checks
    using b by (simp add: TENSOR_ALIGNMENT_def)
  have e2: "usize_sub checks (tp_bump_offset p + TENSOR_ALIGNMENT) 1 = Some (tp_bump_offset p + TENSOR_ALIGNMENT - 1)" for checks
    by (simp add: TENSOR_ALIGNMENT_def)
  have e3: "usize_add checks (aligned_bump p) (2 ^ 64 - aligned_bump p) = (if checks then None else Some 0)" for checks
    using c d by (simp add: prof_add_def)
  have e4: "usize_add checks (tp_base p) (aligned_bump p) = Some (tp_base p + aligned_bump p)" for checks
    using c d by simp
  have e5: "usize_add checks (tp_active_count p) 1 = Some (tp_active_count p + 1)" for checks
    using assms(1,3) by (simp add: pool_inv_def MAX_TENSOR_BUFFERS_def)
  have nz: "2 ^ 64 - aligned_bump p \<noteq> 0" using c d by simp
  show ?thesis
    by (rule exI [of _ i]) (unfold pool_allocate_def e1 bind.bind_lunit e2 Let_def align_down_bump [OF b] e3 e4 e5 fresh_entry_def i(1),
      use nz i in simp)
qed

text \<open>
  C39. Without overflow checks, as in the release profile, one huge request breaks the pool. In any
  pool whose arena has been used, a request of 2 to the 64 minus the aligned bump offset is
  granted and sets the bump offset back to 0, so that the next request is given the start of the
  arena although a live buffer lies there. With overflow checks the same request panics.
\<close>

theorem tensor_alloc_wraps_and_overlaps:
  assumes "pool_inv p" "i \<in> live_slots p" "te_offset (tp_entries p ! i) = 0" "card (live_slots p) + 2 \<le> MAX_TENSOR_BUFFERS"
    "0 < sz" "sz \<le> tp_capacity p" "tp_capacity p + 64 + sz < 2 ^ 64"
  shows "\<exists>huge h a q h' q'. pool_allocate False p huge = Some (Inr ((h, a), q)) \<and> pool_remaining p < huge \<and>
    pool_allocate False q sz = Some (Inr ((h', tp_base p), q')) \<and> i \<in> live_slots q' \<and> unat h' \<in> live_slots q' \<and> unat h' \<noteq> i \<and>
    tp_base p \<in> buffer_bytes q' i \<inter> buffer_bytes q' (unat h') \<and> pool_allocate True p huge = None"
proof -
  have e: "0 < te_size (tp_entries p ! i)" "te_size (tp_entries p ! i) \<le> tp_bump_offset p" and len: "length (tp_entries p) = MAX_TENSOR_BUFFERS"
    and cap: "tp_base p + tp_capacity p + 64 < 2 ^ 64" "tp_bump_offset p \<le> tp_capacity p"
    using assms(1-3) by (auto simp: pool_inv_def Let_def)
  have pos: "0 < aligned_bump p" using e aligned_bump_bounds(1) [of p] by linarith
  let ?huge = "2 ^ 64 - aligned_bump p"
  have lt: "card (live_slots p) < MAX_TENSOR_BUFFERS" using assms(4) by simp
  obtain j q where j: "j < MAX_TENSOR_BUFFERS" "j \<notin> live_slots p" and w: "pool_allocate True p ?huge = None"
    and wq: "pool_allocate False p ?huge = Some (Inr ((of_nat j, tp_base p + aligned_bump p), q))"
    and q: "q = p\<lparr>tp_entries := (tp_entries p)[j := fresh_entry p ?huge], tp_bump_offset := 0, tp_active_count := tp_active_count p + 1\<rparr>"
    using pool_allocate_wraps [OF assms(1) pos lt] by blast
  have lq: "live_slots q = insert j (live_slots p)" unfolding q using j len by (simp add: live_update fresh_entry_def)
  have "card (live_slots q) < MAX_TENSOR_BUFFERS" unfolding lq using assms(4) j(2) by simp
  then obtain k where k: "find_free_slot q = Some k" "k < MAX_TENSOR_BUFFERS" "k \<notin> live_slots q" using free_slot_exists by blast
  have bq: "pool_bounds q" unfolding q using cap assms(1,4) by (simp add: pool_bounds_def pool_inv_def)
  have aq: "aligned_bump q = 0" "tp_capacity q = tp_capacity p" "tp_base q = tp_base p" by (simp_all add: q aligned_bump_def)
  define q' where "q' = q\<lparr>tp_entries := (tp_entries q)[k := fresh_entry q sz], tp_bump_offset := 0 + sz, tp_active_count := tp_active_count q + 1\<rparr>"
  have al: "pool_allocate False q sz = Some (Inr ((of_nat k, tp_base p), q'))"
    using pool_allocate_eq [OF bq, of sz False] assms(5-7) k(1) by (simp add: aq q'_def)
  have lenq: "length (tp_entries q) = MAX_TENSOR_BUFFERS" using len by (simp add: q)
  have lq': "live_slots q' = insert k (live_slots q)" unfolding q'_def using k(2) lenq by (simp add: live_update fresh_entry_def)
  have "i \<noteq> j" "i \<noteq> k" using assms(2) j(2) k(3) lq by blast+
  then have ei: "tp_entries q' ! i = tp_entries p ! i" by (simp add: q'_def q)
  have ek: "tp_entries q' ! k = fresh_entry q sz" using k(2) len by (simp add: q'_def q)
  have b: "tp_base p \<in> buffer_bytes q' i" "tp_base p \<in> buffer_bytes q' k"
    using e(1) assms(3,5) ei ek by (simp_all add: buffer_bytes_def fresh_entry_def aq) (simp_all add: q'_def aq)
  have "pool_remaining p < ?huge" using cap aligned_bump_bounds(2) [of p] assms(7) by (simp add: pool_remaining_def)
  moreover have "i \<in> live_slots q'" "k \<in> live_slots q'" "k \<noteq> i" using assms(2) k(3) lq lq' by blast+
  ultimately show ?thesis using wq w al b unat_slot [OF k(2)] by fastforce
qed

definition used_pool :: tensor_pool where
  "used_pool = (pool_init pool_new 4096 1024)\<lparr>tp_entries := (replicate MAX_TENSOR_BUFFERS entry_empty)[0 := fresh_entry pool_new 64],
     tp_bump_offset := 64, tp_active_count := 1\<rparr>"

lemma used_pool_live: "live_slots used_pool = {0}" "tp_entries used_pool ! 0 = fresh_entry pool_new 64"
  by (auto simp: live_slots_def used_pool_def nth_list_update entry_empty_def MAX_TENSOR_BUFFERS_def fresh_entry_def split: if_splits)

lemma used_pool_inv: "pool_inv used_pool"
  unfolding pool_inv_def used_pool_live
  by (simp add: used_pool_live(2)) (simp add: used_pool_def pool_init_def fresh_entry_def aligned_bump_def pool_new_def)

theorem tensor_alloc_wraps_and_overlaps_witness:
  "\<exists>huge h a q h' q'. pool_allocate False used_pool huge = Some (Inr ((h, a), q)) \<and> pool_remaining used_pool < huge \<and>
    pool_allocate False q 64 = Some (Inr ((h', tp_base used_pool), q')) \<and> 0 \<in> live_slots q' \<and> unat h' \<noteq> 0"
proof -
  have "tp_capacity used_pool = 1024" by (simp add: used_pool_def pool_init_def)
  then show ?thesis
    using tensor_alloc_wraps_and_overlaps [OF used_pool_inv, of 0 64]
    by (fastforce simp: used_pool_live fresh_entry_def aligned_bump_def pool_new_def MAX_TENSOR_BUFFERS_def)
qed

text \<open>
  Initialising a pool again does not clear the table: a slot that was live stays live while the
  count restarts at 0, and its last release takes the count below 0.\<close>

lemma init_keeps_live_slots:
  assumes "unat h \<in> live_slots p" "te_refcount (tp_entries p ! unat h) = 1"
  shows "unat h \<in> live_slots (pool_init p base capacity)" "pool_release True (pool_init p base capacity) h = None"
    "\<exists>q. pool_release False (pool_init p base capacity) h = Some (Inr q) \<and> tp_active_count q = 2 ^ 64 - 1"
  using assms by (simp_all add: live_slots_def pool_init_def pool_release_def Let_def prof_sub_def)

end
