(* ===== verification/Capability.thy ===== *)
theory Capability
  imports Prelude
begin

text \<open>
  The capability registry (\<open>security/src/capability.rs\<close>): capabilities in an array of slots, ids
  from a 64-bit counter, and a bitmap of revoked ids taken modulo 4096. Arrays of a length fixed
  by their type and indexed modulo that length are read with \<open>!\<close>. \<open>revoke\<close> calls itself for the
  children it collected; the model gives it fuel, and \<open>revoke_enough_fuel\<close> shows that one more
  than the number of live capabilities always suffices.
\<close>

section \<open>The model\<close>

type_synonym cap_id = u64

definition MAX_CAPS_PER_TASK :: nat where
  "MAX_CAPS_PER_TASK = 256"

definition MAX_TOTAL_CAPS :: nat where
  "MAX_TOTAL_CAPS = 4096"

definition REVOKED_BITMAP_SIZE :: nat where
  "REVOKED_BITMAP_SIZE = 4096"

datatype resource_type = TensorBuffer | OnnxModel | IpcEndpoint | GpuDevice | NetworkSocket
  | SystemConfig | SystemControl | Device

definition resource_type_from_u8 :: "u8 \<Rightarrow> resource_type option" where
  "resource_type_from_u8 v =
     (if v = 0 then Some TensorBuffer else if v = 1 then Some OnnxModel
      else if v = 2 then Some IpcEndpoint else if v = 3 then Some GpuDevice
      else if v = 4 then Some NetworkSocket else if v = 5 then Some SystemConfig
      else if v = 6 then Some SystemControl else if v = 7 then Some Device else None)"

fun resource_type_code :: "resource_type \<Rightarrow> u8" where
  "resource_type_code TensorBuffer = 0"
| "resource_type_code OnnxModel = 1"
| "resource_type_code IpcEndpoint = 2"
| "resource_type_code GpuDevice = 3"
| "resource_type_code NetworkSocket = 4"
| "resource_type_code SystemConfig = 5"
| "resource_type_code SystemControl = 6"
| "resource_type_code Device = 7"

datatype peripheral_capability = I2c | Spi | Gpio | Uart | Camera | Audio

fun peripheral_code :: "peripheral_capability \<Rightarrow> u8" where
  "peripheral_code I2c = 0x10"
| "peripheral_code Spi = 0x11"
| "peripheral_code Gpio = 0x12"
| "peripheral_code Uart = 0x13"
| "peripheral_code Camera = 0x14"
| "peripheral_code Audio = 0x15"

definition peripheral_from_u8 :: "u8 \<Rightarrow> peripheral_capability option" where
  "peripheral_from_u8 v =
     (if v = 0x10 then Some I2c else if v = 0x11 then Some Spi else if v = 0x12 then Some Gpio
      else if v = 0x13 then Some Uart else if v = 0x14 then Some Camera
      else if v = 0x15 then Some Audio else None)"

definition encode_instance_id :: "peripheral_capability \<Rightarrow> u8 \<Rightarrow> u64" where
  "encode_instance_id p i = push_bit 8 (ucast (peripheral_code p)) OR ucast i"

definition decode_instance_id :: "u64 \<Rightarrow> (peripheral_capability \<times> u8) option" where
  "decode_instance_id w =
     (let subtype = ucast (drop_bit 8 w AND 0xFF); i = ucast (w AND 0xFF) in
      map_option (\<lambda>p. (p, i)) (peripheral_from_u8 subtype))"

record resource_ref =
  rr_type :: resource_type
  rr_instance :: u64

definition peripheral_resource_ref :: "peripheral_capability \<Rightarrow> u8 \<Rightarrow> resource_ref" where
  "peripheral_resource_ref p i = \<lparr>rr_type = Device, rr_instance = encode_instance_id p i\<rparr>"

type_synonym permissions = u32

definition PERM_GRANT :: permissions where
  "PERM_GRANT = 8"

definition PERM_ALL :: permissions where
  "PERM_ALL = 15"

definition perm_from_bits :: "u32 \<Rightarrow> permissions" where
  "perm_from_bits bits = bits AND 15"

definition perm_contains :: "permissions \<Rightarrow> permissions \<Rightarrow> bool" where
  "perm_contains p q \<longleftrightarrow> p AND q = q"

definition perm_intersect :: "permissions \<Rightarrow> permissions \<Rightarrow> permissions" where
  "perm_intersect p q = p AND q"

definition perm_union :: "permissions \<Rightarrow> permissions \<Rightarrow> permissions" where
  "perm_union p q = p OR q"

definition perm_is_subset_of :: "permissions \<Rightarrow> permissions \<Rightarrow> bool" where
  "perm_is_subset_of p q \<longleftrightarrow> p AND NOT q = 0"

record capability =
  cap_id :: cap_id
  cap_resource :: resource_ref
  cap_permissions :: permissions
  cap_expires :: u64
  cap_owner :: u64
  cap_parent :: cap_id

datatype cap_error = NotFound | Expired | WrongResource | InsufficientPermissions
  | DelegationExceedsPermissions | Revoked | TooManyCaps | SystemLimitReached | InvalidId

definition is_expired :: "capability \<Rightarrow> u64 \<Rightarrow> bool" where
  "is_expired c now \<longleftrightarrow> cap_expires c \<noteq> 0 \<and> cap_expires c \<le> now"

definition cap_check :: "capability \<Rightarrow> resource_ref \<Rightarrow> permissions \<Rightarrow> u64 \<Rightarrow> (cap_error, unit) result" where
  "cap_check c resource required now =
     (if is_expired c now then Inl Expired
      else if cap_resource c \<noteq> resource then Inl WrongResource
      else if \<not> perm_contains (cap_permissions c) required then Inl InsufficientPermissions
      else Inr ())"

record cap_registry =
  reg_caps :: "capability option list"
  reg_next_id :: cap_id
  reg_revoked :: "u64 list"

definition reg_new :: cap_registry where
  "reg_new = \<lparr>reg_caps = replicate MAX_TOTAL_CAPS None, reg_next_id = 1,
     reg_revoked = replicate (REVOKED_BITMAP_SIZE div 64) 0\<rparr>"

definition find_cap :: "cap_registry \<Rightarrow> cap_id \<Rightarrow> capability option" where
  "find_cap r i = find (\<lambda>c. cap_id c = i) (flatten_opt (reg_caps r))"

definition revoked_idx :: "cap_id \<Rightarrow> nat" where
  "revoked_idx i = unat i mod REVOKED_BITMAP_SIZE"

definition is_revoked :: "cap_registry \<Rightarrow> cap_id \<Rightarrow> bool" where
  "is_revoked r i \<longleftrightarrow> reg_revoked r ! (revoked_idx i div 64) AND bm_mask (revoked_idx i) \<noteq> 0"

definition mark_revoked :: "cap_registry \<Rightarrow> cap_id \<Rightarrow> cap_registry" where
  "mark_revoked r i = (let w = revoked_idx i div 64 in
     r\<lparr>reg_revoked := (reg_revoked r)[w := reg_revoked r ! w OR bm_mask (revoked_idx i)]\<rparr>)"

definition count_for_task :: "cap_registry \<Rightarrow> u64 \<Rightarrow> nat" where
  "count_for_task r t = length (filter
     (\<lambda>s. case s of Some c \<Rightarrow> cap_owner c = t \<and> \<not> is_revoked r (cap_id c) | None \<Rightarrow> False) (reg_caps r))"

definition total_count :: "cap_registry \<Rightarrow> nat" where
  "total_count r = length (filter (\<lambda>s. s \<noteq> None) (reg_caps r))"

definition insert_cap :: "cap_registry \<Rightarrow> u64 \<Rightarrow> resource_ref \<Rightarrow> permissions \<Rightarrow> u64 \<Rightarrow> cap_id \<Rightarrow>
    (cap_error, cap_id \<times> cap_registry) result" where
  "insert_cap r owner resource perms expires parent =
     (if count_for_task r owner \<ge> MAX_CAPS_PER_TASK then Inl TooManyCaps
      else case position (\<lambda>s. s = None) (reg_caps r) of
        None \<Rightarrow> Inl SystemLimitReached
      | Some slot \<Rightarrow> (let i = reg_next_id r in
          Inr (i, r\<lparr>reg_next_id := i + 1,
            reg_caps := (reg_caps r)[slot := Some \<lparr>cap_id = i, cap_resource = resource,
              cap_permissions = perms, cap_expires = expires, cap_owner = owner,
              cap_parent = parent\<rparr>]\<rparr>)))"

definition create :: "cap_registry \<Rightarrow> u64 \<Rightarrow> resource_ref \<Rightarrow> permissions \<Rightarrow> u64 \<Rightarrow>
    (cap_error, cap_id \<times> cap_registry) result" where
  "create r owner resource perms expires = insert_cap r owner resource perms expires 0"

definition effective_expires :: "capability \<Rightarrow> u64 \<Rightarrow> u64" where
  "effective_expires p new_expires =
     (if cap_expires p \<noteq> 0 \<and> (new_expires = 0 \<or> new_expires > cap_expires p)
      then cap_expires p else new_expires)"

definition delegate :: "cap_registry \<Rightarrow> cap_id \<Rightarrow> u64 \<Rightarrow> permissions \<Rightarrow> u64 \<Rightarrow> u64 \<Rightarrow>
    (cap_error, cap_id \<times> cap_registry) result" where
  "delegate r i to_task new_perms new_expires now =
     (case find_cap r i of
        None \<Rightarrow> Inl NotFound
      | Some p \<Rightarrow>
          if is_revoked r i then Inl Revoked
          else if is_expired p now then Inl Expired
          else if \<not> perm_contains (cap_permissions p) PERM_GRANT then Inl InsufficientPermissions
          else if \<not> perm_is_subset_of new_perms (cap_permissions p) then Inl DelegationExceedsPermissions
          else insert_cap r to_task (cap_resource p) new_perms (effective_expires p new_expires) i)"

text \<open>The loop that clears the first slot holding the id.\<close>

fun clear_slot :: "cap_id \<Rightarrow> capability option list \<Rightarrow> capability option list" where
  "clear_slot i [] = []"
| "clear_slot i (None # ss) = None # clear_slot i ss"
| "clear_slot i (Some c # ss) = (if cap_id c = i then None # ss else Some c # clear_slot i ss)"

text \<open>The first 64 children, in slot order.\<close>

definition collect_children :: "cap_registry \<Rightarrow> cap_id \<Rightarrow> cap_id list" where
  "collect_children r i =
     take 64 (map cap_id (filter (\<lambda>c. cap_parent c = i) (flatten_opt (reg_caps r))))"

fun revoke_fuel :: "nat \<Rightarrow> cap_id \<Rightarrow> cap_registry \<Rightarrow> (cap_error, cap_registry) result option" where
  "revoke_fuel 0 i r = None"
| "revoke_fuel (Suc n) i r =
     (if find_cap r i = None then Some (Inl NotFound)
      else let r1 = mark_revoked r i; r2 = r1\<lparr>reg_caps := clear_slot i (reg_caps r1)\<rparr> in
        map_option Inr (mfold (\<lambda>child r'. map_option (case_sum (\<lambda>_. r') id) (revoke_fuel n child r'))
          (collect_children r2 i) r2))"

definition revoke :: "cap_registry \<Rightarrow> cap_id \<Rightarrow> (cap_error, cap_registry) result option" where
  "revoke r i = revoke_fuel (Suc (total_count r)) i r"

definition lookup_cap :: "cap_registry \<Rightarrow> cap_id \<Rightarrow> u64 \<Rightarrow> (cap_error, capability) result" where
  "lookup_cap r i now =
     (if is_revoked r i then Inl Revoked
      else case find_cap r i of None \<Rightarrow> Inl NotFound
        | Some c \<Rightarrow> if is_expired c now then Inl Expired else Inr c)"

definition check_access :: "cap_registry \<Rightarrow> u64 \<Rightarrow> resource_ref \<Rightarrow> permissions \<Rightarrow> u64 \<Rightarrow>
    (cap_error, cap_id) result" where
  "check_access r t resource required now =
     (case find (\<lambda>c. cap_owner c = t \<and> \<not> is_revoked r (cap_id c) \<and>
         cap_check c resource required now = Inr ()) (flatten_opt (reg_caps r)) of
        Some c \<Rightarrow> Inr (cap_id c) | None \<Rightarrow> Inl InsufficientPermissions)"

definition list_for_task :: "cap_registry \<Rightarrow> u64 \<Rightarrow> nat \<Rightarrow> cap_id list" where
  "list_for_task r t buf_len = take buf_len (map cap_id (filter
     (\<lambda>c. cap_owner c = t \<and> \<not> is_revoked r (cap_id c)) (flatten_opt (reg_caps r))))"

section \<open>Live capabilities and descendants\<close>

definition caps :: "cap_registry \<Rightarrow> capability list" where
  "caps r = flatten_opt (reg_caps r)"

text \<open>The capabilities delegated, directly or through others, from id \<open>i\<close>.\<close>

inductive_set desc :: "capability set \<Rightarrow> cap_id \<Rightarrow> capability set" for S i where
  child: "c \<in> S \<Longrightarrow> cap_parent c = i \<Longrightarrow> c \<in> desc S i"
| step: "d \<in> desc S i \<Longrightarrow> c \<in> S \<Longrightarrow> cap_parent c = cap_id d \<Longrightarrow> c \<in> desc S i"

lemma desc_subset: "desc S i \<subseteq> S"
  by (auto elim: desc.cases)

lemma desc_mono: "S \<subseteq> T \<Longrightarrow> desc S i \<subseteq> desc T i"
  by (rule subsetI, erule desc.induct) (auto intro: desc.intros)

text \<open>A set of capabilities that contains every child of its members.\<close>

definition closed_in :: "capability set \<Rightarrow> capability set \<Rightarrow> bool" where
  "closed_in S U \<longleftrightarrow> (\<forall>d \<in> U. \<forall>c \<in> S. cap_parent c = cap_id d \<longrightarrow> c \<in> U)"

lemma closed_in_desc: "closed_in S (desc S i)"
  by (auto simp: closed_in_def intro: desc.step)

lemma closed_in_branch: "closed_in S (insert k (desc S (cap_id k)))"
  by (auto simp: closed_in_def intro: desc.intros)

lemma closed_in_Un: "closed_in S U \<Longrightarrow> closed_in S V \<Longrightarrow> closed_in S (U \<union> V)"
  by (auto simp: closed_in_def)

lemma desc_minus_closed:
  assumes "closed_in S U"
  shows "desc S i \<union> U = desc (S - U) i \<union> U"
proof -
  have "c \<in> desc (S - U) i \<union> U" if "c \<in> desc S i" for c
    using that
  proof induction
    case (child c)
    then show ?case by (auto intro: desc.child)
  next
    case (step d c)
    then show ?case using assms by (auto simp: closed_in_def intro: desc.step)
  qed
  moreover have "desc (S - U) i \<subseteq> desc S i" by (rule desc_mono) blast
  ultimately show ?thesis by blast
qed

lemma desc_in_closed:
  assumes "closed_in S U" "k \<in> U"
  shows "desc S (cap_id k) \<subseteq> U"
proof
  fix c assume "c \<in> desc S (cap_id k)"
  then show "c \<in> U" using assms by induction (auto simp: closed_in_def)
qed

lemma desc_remove_other:
  assumes "x \<notin> desc S i"
  shows "desc (S - {x}) i = desc S i"
proof
  show "desc (S - {x}) i \<subseteq> desc S i" by (rule desc_mono) blast
  have "c \<in> desc (S - {x}) i" if "c \<in> desc S i" for c
    using that
  proof induction
    case (child c)
    with assms show ?case by (metis DiffI desc.child singletonD)
  next
    case (step d c)
    with assms show ?case by (metis DiffI desc.step singletonD)
  qed
  then show "desc S i \<subseteq> desc (S - {x}) i" by blast
qed

lemma desc_branches: "desc S i = (\<Union>k \<in> {k \<in> S. cap_parent k = i}. insert k (desc S (cap_id k)))"
proof (intro set_eqI iffI)
  fix c assume "c \<in> desc S i"
  then show "c \<in> (\<Union>k \<in> {k \<in> S. cap_parent k = i}. insert k (desc S (cap_id k)))"
    by induction (auto intro: desc.intros)
next
  fix c assume "c \<in> (\<Union>k \<in> {k \<in> S. cap_parent k = i}. insert k (desc S (cap_id k)))"
  then obtain k where k: "k \<in> S" "cap_parent k = i" "c = k \<or> c \<in> desc S (cap_id k)" by blast
  then have k_in: "k \<in> desc S i" by (blast intro: desc.child)
  from k(3) show "c \<in> desc S i"
  proof
    assume "c \<in> desc S (cap_id k)"
    then show ?thesis using k_in by induction (auto intro: desc.step)
  qed (use k_in in simp)
qed

section \<open>The invariant\<close>

definition attenuates :: "capability \<Rightarrow> capability \<Rightarrow> bool" where
  "attenuates c p \<longleftrightarrow> cap_resource c = cap_resource p \<and>
     perm_is_subset_of (cap_permissions c) (cap_permissions p) \<and>
     (cap_expires p \<noteq> 0 \<longrightarrow> cap_expires c \<noteq> 0 \<and> cap_expires c \<le> cap_expires p)"

definition reg_inv :: "cap_registry \<Rightarrow> bool" where
  [inv_defs]: "reg_inv r \<longleftrightarrow> distinct (map cap_id (caps r)) \<and> 0 < reg_next_id r \<and>
     (\<forall>c \<in> set (caps r). cap_id c < reg_next_id r \<and> cap_parent c < cap_id c) \<and>
     (\<forall>c \<in> set (caps r). \<forall>p \<in> set (caps r). cap_parent c = cap_id p \<longrightarrow> attenuates c p) \<and>
     length (reg_revoked r) = REVOKED_BITMAP_SIZE div 64 \<and>
     (\<forall>t. count_for_task r t \<le> MAX_CAPS_PER_TASK)"

lemma flatten_clear_slot:
  "distinct (map cap_id (flatten_opt ss)) \<Longrightarrow>
     flatten_opt (clear_slot i ss) = filter (\<lambda>c. cap_id c \<noteq> i) (flatten_opt ss)"
proof (induction i ss rule: clear_slot.induct)
  case (3 i c ss)
  show ?case
  proof (cases "cap_id c = i")
    case True
    with 3(2) have "i \<notin> cap_id ` set (flatten_opt ss)" by simp
    then have "\<forall>d \<in> set (flatten_opt ss). cap_id d \<noteq> i" by (metis imageI)
    then have "filter (\<lambda>c. cap_id c \<noteq> i) (flatten_opt ss) = flatten_opt ss" by simp
    with True show ?thesis by simp
  next
    case False
    with 3 show ?thesis by simp
  qed
qed simp_all

lemma total_count_eq: "total_count r = length (caps r)"
  by (simp add: total_count_def caps_def flatten_opt_def)

lemma find_cap_Some_iff:
  assumes "distinct (map cap_id (caps r))"
  shows "find_cap r i = Some c \<longleftrightarrow> c \<in> set (caps r) \<and> cap_id c = i"
proof
  assume "find_cap r i = Some c"
  then show "c \<in> set (caps r) \<and> cap_id c = i"
    unfolding find_cap_def caps_def by (auto dest: find_SomeD)
next
  assume "c \<in> set (caps r) \<and> cap_id c = i"
  then show "find_cap r i = Some c"
    unfolding find_cap_def caps_def [symmetric]
    using assms by (intro find_unique) (auto simp: distinct_map inj_on_def)
qed

lemma find_cap_None_iff: "find_cap r i = None \<longleftrightarrow> (\<forall>c \<in> set (caps r). cap_id c \<noteq> i)"
  by (simp add: find_cap_def caps_def find_None_iff' del: set_flatten_opt)

section \<open>Revocation\<close>

definition branch :: "capability set \<Rightarrow> capability \<Rightarrow> capability set" where
  "branch S x = insert x (desc S (cap_id x))"

definition reg_wf :: "cap_registry \<Rightarrow> bool" where
  "reg_wf r \<longleftrightarrow> distinct (map cap_id (caps r)) \<and> (\<forall>c \<in> set (caps r). cap_parent c < cap_id c) \<and>
     length (reg_revoked r) = REVOKED_BITMAP_SIZE div 64"

text \<open>No capability has more children than \<open>revoke\<close> collects.\<close>

definition narrow :: "cap_registry \<Rightarrow> bool" where
  "narrow r \<longleftrightarrow> (\<forall>i. length (filter (\<lambda>c. cap_parent c = i) (caps r)) \<le> 64)"

text \<open>Registry \<open>r'\<close> is \<open>r\<close> without the capabilities \<open>U\<close>, whose ids are marked revoked.\<close>

definition pruned :: "cap_registry \<Rightarrow> capability set \<Rightarrow> cap_registry \<Rightarrow> bool" where
  "pruned r U r' \<longleftrightarrow> U \<subseteq> set (caps r) \<and> caps r' = filter (\<lambda>c. c \<notin> U) (caps r) \<and>
     reg_next_id r' = reg_next_id r \<and> length (reg_revoked r') = length (reg_revoked r) \<and>
     bm_bits (reg_revoked r') = bm_bits (reg_revoked r) \<union> revoked_idx ` cap_id ` U"

lemma pruned_refl: "pruned r {} r"
  by (simp add: pruned_def)

lemma pruned_trans: "pruned r U r1 \<Longrightarrow> pruned r1 V r2 \<Longrightarrow> pruned r (U \<union> V) r2"
  by (auto simp: pruned_def intro: filter_cong)

lemma pruned_set: "pruned r U r' \<Longrightarrow> set (caps r') = set (caps r) - U"
  by (auto simp: pruned_def)

lemma pruned_wf: "pruned r U r' \<Longrightarrow> reg_wf r \<Longrightarrow> reg_wf r'"
  by (auto simp: pruned_def reg_wf_def distinct_map_filter)

lemma pruned_length: "pruned r U r' \<Longrightarrow> length (caps r') \<le> length (caps r)"
  by (simp add: pruned_def)

lemma pruned_narrow:
  assumes "pruned r U r'" "narrow r"
  shows "narrow r'"
  unfolding narrow_def
proof
  fix i
  have "filter (\<lambda>c. cap_parent c = i) (caps r') =
      filter (\<lambda>c. c \<notin> U) (filter (\<lambda>c. cap_parent c = i) (caps r))"
    using assms(1) by (simp add: pruned_def conj_commute)
  then have "length (filter (\<lambda>c. cap_parent c = i) (caps r')) \<le>
      length (filter (\<lambda>c. cap_parent c = i) (caps r))" by (metis length_filter_le)
  with assms(2) show "length (filter (\<lambda>c. cap_parent c = i) (caps r')) \<le> 64"
    unfolding narrow_def by (meson order_trans)
qed

lemma revoked_idx_less: "revoked_idx i < REVOKED_BITMAP_SIZE"
  by (simp add: revoked_idx_def REVOKED_BITMAP_SIZE_def)

lemma is_revoked_iff: "length (reg_revoked r) = REVOKED_BITMAP_SIZE div 64 \<Longrightarrow>
    is_revoked r i \<longleftrightarrow> revoked_idx i \<in> bm_bits (reg_revoked r)"
  using revoked_idx_less [of i]
  by (simp add: is_revoked_def bm_bits_def and_bm_mask_neq_0 REVOKED_BITMAP_SIZE_def div64_less_iff)

lemma mark_revoked_bits:
  assumes "length (reg_revoked r) = REVOKED_BITMAP_SIZE div 64"
  shows "bm_bits (reg_revoked (mark_revoked r i)) = insert (revoked_idx i) (bm_bits (reg_revoked r))"
proof -
  have i: "revoked_idx i < 64 * length (reg_revoked r)"
    using revoked_idx_less [of i] assms by (simp add: REVOKED_BITMAP_SIZE_def)
  then have "bm_set (reg_revoked r) (revoked_idx i) = Some (reg_revoked (mark_revoked r i))"
    by (simp add: bm_set_def mark_revoked_def div64_less_iff Let_def)
  with bm_set_eq [OF i] show ?thesis by auto
qed

lemma mark_revoked_simps [simp]:
  "reg_caps (mark_revoked r i) = reg_caps r" "reg_next_id (mark_revoked r i) = reg_next_id r"
  "length (reg_revoked (mark_revoked r i)) = length (reg_revoked r)"
  by (simp_all add: mark_revoked_def Let_def)

lemma pruned_first:
  assumes "reg_wf r" "find_cap r i = Some x"
  shows "pruned r {x} ((mark_revoked r i)\<lparr>reg_caps := clear_slot i (reg_caps r)\<rparr>)"
proof -
  from assms have x: "x \<in> set (caps r)" "cap_id x = i" and d: "distinct (map cap_id (caps r))"
    by (auto simp: reg_wf_def find_cap_Some_iff)
  then have "filter (\<lambda>c. cap_id c \<noteq> i) (caps r) = filter (\<lambda>c. c \<notin> {x}) (caps r)"
    by (intro filter_cong) (auto simp: distinct_map inj_on_def)
  then show ?thesis
    using assms(1) x flatten_clear_slot [of "reg_caps r" i] d
    by (simp add: pruned_def caps_def mark_revoked_bits reg_wf_def del: set_flatten_opt)
qed

definition branches :: "capability set \<Rightarrow> cap_id set \<Rightarrow> capability set" where
  "branches S ks = (\<Union>k \<in> {k \<in> S. cap_id k \<in> ks}. branch S k)"

text \<open>What a call with enough fuel does.\<close>

definition revoke_result :: "nat \<Rightarrow> cap_id \<Rightarrow> cap_registry \<Rightarrow> bool" where
  "revoke_result n i r \<longleftrightarrow> (case find_cap r i of
     None \<Rightarrow> revoke_fuel n i r = Some (Inl NotFound)
   | Some x \<Rightarrow> \<exists>U r'. revoke_fuel n i r = Some (Inr r') \<and> pruned r U r' \<and> x \<in> U \<and>
       U \<subseteq> branch (set (caps r)) x \<and> (narrow r \<longrightarrow> U = branch (set (caps r)) x) \<and>
       U \<subseteq> insert x (branches (set (caps r)) (set (collect_children r i))))"

lemma branch_mono: "S \<subseteq> T \<Longrightarrow> branch S k \<subseteq> branch T k"
  unfolding branch_def by (intro insert_mono desc_mono)

lemma branches_step:
  assumes x: "x \<in> S" "cap_id x = k" "inj_on cap_id S" and B: "U = branch S x"
  shows "branches S (insert k ks) = U \<union> branches (S - U) ks"
proof -
  have cl: "closed_in S U" unfolding B branch_def by (rule closed_in_branch)
  have "branch S c \<subseteq> U \<union> branches (S - U) ks" if "c \<in> S" "cap_id c \<in> ks" for c
  proof (cases "c \<in> U")
    case True
    then show ?thesis using desc_in_closed [OF cl True] by (auto simp: branch_def)
  next
    case False
    have "desc S (cap_id c) \<subseteq> desc (S - U) (cap_id c) \<union> U"
      using desc_minus_closed [OF cl, of "cap_id c"] by blast
    with False that show ?thesis by (auto simp: branches_def branch_def)
  qed
  moreover have "branch (S - U) c \<subseteq> branch S c" for c by (rule branch_mono) blast
  ultimately have "branches S ks \<union> U = U \<union> branches (S - U) ks"
    unfolding branches_def by blast
  moreover have "branches S (insert k ks) = branches S ks \<union> U"
    using x unfolding branches_def B by (auto dest: inj_onD)
  ultimately show ?thesis by blast
qed

lemma revoke_loop:
  assumes IH: "\<And>i r. reg_wf r \<Longrightarrow> length (caps r) < n \<Longrightarrow> revoke_result n i r"
    and r: "reg_wf r" "length (caps r) < n"
  shows "\<exists>U r'. mfold (\<lambda>child r'. map_option (case_sum (\<lambda>_. r') id) (revoke_fuel n child r')) ks r = Some r' \<and>
    pruned r U r' \<and> U \<subseteq> branches (set (caps r)) (set ks) \<and>
    (narrow r \<longrightarrow> U = branches (set (caps r)) (set ks))"
  using r
proof (induction ks arbitrary: r)
  case Nil
  then show ?case using pruned_refl by (auto simp: branches_def)
next
  case (Cons k ks)
  let ?S = "set (caps r)"
  have inj: "inj_on cap_id ?S" using Cons.prems(1) by (simp add: reg_wf_def distinct_map)
  note res = IH [OF Cons.prems, of k, unfolded revoke_result_def]
  show ?case
  proof (cases "find_cap r k")
    case None
    then have "{c \<in> ?S. cap_id c \<in> set (k # ks)} = {c \<in> ?S. cap_id c \<in> set ks}"
      by (auto simp: find_cap_None_iff)
    with Cons.IH [OF Cons.prems] res None show ?thesis by (simp add: branches_def)
  next
    case (Some x)
    then have x: "x \<in> ?S" "cap_id x = k" using Cons.prems(1) by (auto simp: reg_wf_def find_cap_Some_iff)
    from res Some obtain U r1 where U: "revoke_fuel n k r = Some (Inr r1)" "pruned r U r1" "x \<in> U"
      "U \<subseteq> branch ?S x" "narrow r \<longrightarrow> U = branch ?S x" by auto
    have "length (caps r1) < n" using pruned_length [OF U(2)] Cons.prems(2) by simp
    with Cons.IH [OF pruned_wf [OF U(2) Cons.prems(1)]] obtain V r2 where
      V: "mfold (\<lambda>child r'. map_option (case_sum (\<lambda>_. r') id) (revoke_fuel n child r')) ks r1 = Some r2"
        "pruned r1 V r2" "V \<subseteq> branches (?S - U) (set ks)"
        "narrow r1 \<longrightarrow> V = branches (?S - U) (set ks)"
      unfolding pruned_set [OF U(2)] by blast
    have "branches (?S - U) (set ks) \<subseteq> branches ?S (set ks)"
      using branch_mono [of "?S - U" ?S] unfolding branches_def by blast
    moreover have "branches ?S (set ks) \<union> branch ?S x \<subseteq> branches ?S (set (k # ks))"
      using x unfolding branches_def by auto
    ultimately have "U \<union> V \<subseteq> branches ?S (set (k # ks))" using U(4) V(3) by blast
    moreover have "narrow r \<longrightarrow> U \<union> V = branches ?S (set (k # ks))"
      using branches_step [OF x inj] U(5) V(4) pruned_narrow [OF U(2)] by auto
    ultimately show ?thesis using U(1) V(1) pruned_trans [OF U(2) V(2)] by auto
  qed
qed

lemma desc_id_greater:
  assumes "\<forall>c \<in> S. cap_parent c < cap_id c" "c \<in> desc S i"
  shows "i < cap_id c"
  using assms(2) by induction (use assms(1) in \<open>auto intro: less_trans\<close>)

lemma collect_children_kids:
  assumes "reg_wf r" "k \<in> set (caps r)" "cap_id k \<in> set (collect_children r i)"
  shows "cap_parent k = i"
proof -
  from assms(3) obtain c where "c \<in> set (caps r)" "cap_parent c = i" "cap_id c = cap_id k"
    by (auto simp: collect_children_def caps_def dest!: in_set_takeD)
  moreover from assms(1) have "inj_on cap_id (set (caps r))" by (simp add: reg_wf_def distinct_map)
  ultimately show ?thesis using assms(2) by (metis inj_onD)
qed

lemma revoke_fuel_spec:
  "reg_wf r \<Longrightarrow> length (caps r) < n \<Longrightarrow> revoke_result n i r"
proof (induction n arbitrary: i r)
  case 0
  then show ?case by simp
next
  case (Suc n)
  let ?S = "set (caps r)" and ?r2 = "(mark_revoked r i)\<lparr>reg_caps := clear_slot i (reg_caps r)\<rparr>"
  show ?case
  proof (cases "find_cap r i")
    case None
    then show ?thesis by (simp add: revoke_result_def)
  next
    case (Some x)
    have x: "x \<in> ?S" "cap_id x = i" using Suc.prems(1) Some by (auto simp: reg_wf_def find_cap_Some_iff)
    have p: "pruned r {x} ?r2" by (rule pruned_first [OF Suc.prems(1) Some])
    note S2 = pruned_set [OF p] and wf2 = pruned_wf [OF p Suc.prems(1)]
    have "length (caps ?r2) < length (caps r)"
      using p x(1) by (auto simp: pruned_def intro!: length_filter_less)
    then have len: "length (caps ?r2) < n" using Suc.prems(2) by simp
    have d: "desc (?S - {x}) i = desc ?S i"
      using desc_id_greater [of ?S x i] Suc.prems(1) x(2)
      by (intro desc_remove_other) (auto simp: reg_wf_def)
    let ?ks = "collect_children ?r2 i"
    have ks: "{k \<in> ?S - {x}. cap_id k \<in> set ?ks} \<subseteq> {k \<in> ?S - {x}. cap_parent k = i}"
      unfolding S2 [symmetric] using collect_children_kids [OF wf2] by blast
    have ks_all: "{k \<in> ?S - {x}. cap_id k \<in> set ?ks} = {k \<in> ?S - {x}. cap_parent k = i}" if "narrow r"
    proof -
      have "?ks = map cap_id (filter (\<lambda>c. cap_parent c = i) (caps ?r2))"
        using pruned_narrow [OF p that] by (simp add: collect_children_def narrow_def caps_def)
      then have "{k \<in> ?S - {x}. cap_parent k = i} \<subseteq> {k \<in> ?S - {x}. cap_id k \<in> set ?ks}"
        by (auto simp flip: S2)
      with ks show ?thesis by blast
    qed
    from revoke_loop [OF Suc.IH wf2 len, of ?ks] obtain V r' where
      V: "mfold (\<lambda>child r'. map_option (case_sum (\<lambda>_. r') id) (revoke_fuel n child r')) ?ks ?r2 = Some r'"
        "pruned ?r2 V r'" "V \<subseteq> branches (?S - {x}) (set ?ks)"
        "narrow ?r2 \<longrightarrow> V = branches (?S - {x}) (set ?ks)" unfolding S2 by blast
    have "V \<subseteq> desc ?S i"
      using V(3) ks unfolding branches_def branch_def d [symmetric] desc_branches [of "?S - {x}" i] by blast
    moreover have "V = desc ?S i" if "narrow r"
      using V(4) pruned_narrow [OF p that] ks_all [OF that]
      unfolding branches_def branch_def d [symmetric] desc_branches [of "?S - {x}" i] by simp
    moreover have "revoke_fuel (Suc n) i r = Some (Inr r')" using Some V(1) by (simp add: Let_def)
    moreover have "cap_parent x \<noteq> i" using Suc.prems(1) x by (auto simp: reg_wf_def)
    then have "filter (\<lambda>c. cap_parent c = i) (caps ?r2) = filter (\<lambda>c. cap_parent c = i) (caps r)"
      using p by (auto simp: pruned_def intro: filter_cong)
    then have "?ks = collect_children r i" by (simp add: collect_children_def caps_def)
    then have "V \<subseteq> branches ?S (set (collect_children r i))"
      using V(3) branch_mono [of "?S - {x}" ?S] unfolding branches_def by fastforce
    ultimately show ?thesis
      using Some pruned_trans [OF p V(2)] x unfolding revoke_result_def branch_def Some option.case
      by (intro exI [of _ "{x} \<union> V"] exI [of _ r']) auto
  qed
qed

section \<open>Every operation preserves the invariant\<close>

lemma reg_inv_wf: "reg_inv r \<Longrightarrow> reg_wf r"
  by (simp add: reg_inv_def reg_wf_def)

lemma count_for_task_eq:
  "count_for_task r t = length (filter (\<lambda>c. cap_owner c = t \<and> \<not> is_revoked r (cap_id c)) (caps r))"
proof -
  have "length (filter (\<lambda>s. case s of Some c \<Rightarrow> P c | None \<Rightarrow> False) ss) = length (filter P (flatten_opt ss))"
    for P :: "capability \<Rightarrow> bool" and ss
  proof (induction ss)
    case (Cons a ss)
    then show ?case by (cases a) auto
  qed simp
  then show ?thesis unfolding count_for_task_def caps_def .
qed

lemma insert_cap_InrD:
  assumes "insert_cap r owner resource perms expires parent = Inr (i, r')"
  shows "i = reg_next_id r \<and> reg_next_id r' = i + 1 \<and> reg_revoked r' = reg_revoked r \<and>
    count_for_task r owner < MAX_CAPS_PER_TASK \<and>
    (\<exists>xs ys. caps r = xs @ ys \<and> caps r' = xs @ \<lparr>cap_id = i, cap_resource = resource,
      cap_permissions = perms, cap_expires = expires, cap_owner = owner, cap_parent = parent\<rparr> # ys)"
proof -
  from assms obtain k where k: "position (\<lambda>s. s = None) (reg_caps r) = Some k"
    and cnt: "count_for_task r owner < MAX_CAPS_PER_TASK"
    by (auto simp: insert_cap_def split: if_splits option.splits)
  from position_SomeD [OF k] have kl: "k < length (reg_caps r)" "reg_caps r ! k = None" by auto
  let ?xs = "flatten_opt (take k (reg_caps r))" and ?ys = "flatten_opt (drop (Suc k) (reg_caps r))"
  have "caps r = ?xs @ ?ys"
    unfolding caps_def using kl by (subst id_take_nth_drop [of k "reg_caps r"]) simp_all
  moreover have "i = reg_next_id r \<and> reg_next_id r' = i + 1 \<and> reg_revoked r' = reg_revoked r \<and>
      caps r' = ?xs @ \<lparr>cap_id = i, cap_resource = resource,
        cap_permissions = perms, cap_expires = expires, cap_owner = owner, cap_parent = parent\<rparr> # ?ys"
    using assms cnt k flatten_opt_update_None [OF kl]
    by (auto simp: insert_cap_def caps_def Let_def)
  ultimately show ?thesis using cnt by blast
qed

lemma insert_cap_inv:
  assumes inv: "reg_inv r" and ins: "insert_cap r owner resource perms expires parent = Inr (i, r')"
    and nowrap: "reg_next_id r < - 1" and par: "parent < reg_next_id r"
    and att: "\<And>p. p \<in> set (caps r) \<Longrightarrow> cap_id p = parent \<Longrightarrow> cap_resource p = resource \<and>
      perm_is_subset_of perms (cap_permissions p) \<and>
      (cap_expires p \<noteq> 0 \<longrightarrow> expires \<noteq> 0 \<and> expires \<le> cap_expires p)"
  shows "reg_inv r'"
proof -
  let ?c = "\<lparr>cap_id = i, cap_resource = resource, cap_permissions = perms, cap_expires = expires,
    cap_owner = owner, cap_parent = parent\<rparr>"
  from insert_cap_InrD [OF ins] obtain xs ys where
    i: "i = reg_next_id r" "reg_next_id r' = i + 1" "reg_revoked r' = reg_revoked r"
      "count_for_task r owner < MAX_CAPS_PER_TASK" and
    c: "caps r = xs @ ys" "caps r' = xs @ ?c # ys" by blast
  have lt: "i < i + 1" using nowrap i(1) by (simp add: less_inc_64)
  have old: "cap_id d < i" if "d \<in> set (caps r)" for d using inv that i(1) by (simp add: reg_inv_def)
  have set: "set (caps r') = insert ?c (set (caps r))" using c by auto
  have "distinct (map cap_id (caps r'))"
    using inv c old by (auto simp: reg_inv_def)
  moreover have "cap_id d < reg_next_id r' \<and> cap_parent d < cap_id d" if "d \<in> set (caps r')" for d
    using that inv i lt par old [of d] unfolding set by (auto simp: reg_inv_def)
  moreover have "attenuates d p" if "d \<in> set (caps r')" "p \<in> set (caps r')" "cap_parent d = cap_id p" for d p
  proof -
    have "cap_parent e < i" if "e \<in> set (caps r')" for e
      using that inv par i(1) old [of e] unfolding set by (auto simp: reg_inv_def intro: less_trans)
    then have "p \<noteq> ?c" using that(1,3) by force
    then have p: "p \<in> set (caps r)" using that(2) unfolding set by simp
    show ?thesis
    proof (cases "d = ?c")
      case True
      then show ?thesis using att [OF p] that(3) by (auto simp: attenuates_def)
    next
      case False
      then show ?thesis using inv that p unfolding set by (simp add: reg_inv_def)
    qed
  qed
  moreover have "count_for_task r' t \<le> MAX_CAPS_PER_TASK" for t
  proof -
    have "is_revoked r' = is_revoked r" by (simp add: is_revoked_def fun_eq_iff i(3))
    then have "count_for_task r' t \<le> count_for_task r t + (if t = owner then 1 else 0)"
      unfolding count_for_task_eq c by simp
    also have "\<dots> \<le> MAX_CAPS_PER_TASK"
      using inv i(4) by (auto simp: reg_inv_def)
    finally show ?thesis .
  qed
  moreover have "0 < reg_next_id r'" using lt i by (metis not_less_zero word_neq_0_conv word_not_simps(1))
  ultimately show ?thesis using inv i(3) by (auto simp: reg_inv_def)
qed

lemma reg_inv_new: "reg_inv reg_new"
proof -
  have "caps reg_new = []" by (simp add: caps_def reg_new_def)
  then show ?thesis by (simp add: reg_inv_def count_for_task_eq) (simp add: reg_new_def REVOKED_BITMAP_SIZE_def)
qed

lemma create_inv:
  assumes "reg_inv r" "create r owner resource perms expires = Inr (i, r')" "reg_next_id r < - 1"
  shows "reg_inv r'"
proof (rule insert_cap_inv [OF assms(1) assms(2) [unfolded create_def] assms(3)])
  show "0 < reg_next_id r" using assms(1) by (simp add: reg_inv_def)
  fix p assume p: "p \<in> set (caps r)" "cap_id p = 0"
  then have "cap_parent p < 0" using assms(1) by (auto simp: reg_inv_def)
  then show "cap_resource p = resource \<and> perm_is_subset_of perms (cap_permissions p) \<and>
      (cap_expires p \<noteq> 0 \<longrightarrow> expires \<noteq> 0 \<and> expires \<le> cap_expires p)" by simp
qed

lemma effective_expires_bound:
  "cap_expires p \<noteq> 0 \<Longrightarrow> effective_expires p e \<noteq> 0 \<and> effective_expires p e \<le> cap_expires p"
  by (auto simp: effective_expires_def)

lemma delegate_InrD:
  assumes "delegate r i t perms expires now = Inr (j, r')"
  shows "\<exists>p. find_cap r i = Some p \<and> \<not> is_revoked r i \<and> \<not> is_expired p now \<and>
    perm_contains (cap_permissions p) PERM_GRANT \<and> perm_is_subset_of perms (cap_permissions p) \<and>
    insert_cap r t (cap_resource p) perms (effective_expires p expires) i = Inr (j, r')"
  using assms by (auto simp: delegate_def split: option.splits if_splits)

lemma delegate_inv:
  assumes inv: "reg_inv r" and del: "delegate r i t perms expires now = Inr (j, r')"
    and nowrap: "reg_next_id r < - 1"
  shows "reg_inv r'"
proof -
  from delegate_InrD [OF del] obtain p where
    p: "find_cap r i = Some p" "perm_is_subset_of perms (cap_permissions p)"
      "insert_cap r t (cap_resource p) perms (effective_expires p expires) i = Inr (j, r')" by blast
  from inv have d: "distinct (map cap_id (caps r))" by (simp add: reg_inv_def)
  with p(1) have pc: "p \<in> set (caps r)" "cap_id p = i" by (auto simp: find_cap_Some_iff)
  show ?thesis
  proof (rule insert_cap_inv [OF inv p(3) nowrap])
    show "i < reg_next_id r" using inv pc by (auto simp: reg_inv_def)
    fix q assume "q \<in> set (caps r)" "cap_id q = i"
    then have "q = p" using pc d by (auto simp: distinct_map inj_on_def)
    then show "cap_resource q = cap_resource p \<and> perm_is_subset_of perms (cap_permissions q) \<and>
      (cap_expires q \<noteq> 0 \<longrightarrow> effective_expires p expires \<noteq> 0 \<and> effective_expires p expires \<le> cap_expires q)"
      using p(2) effective_expires_bound by blast
  qed
qed

lemma pruned_inv:
  assumes "pruned r U r'" "reg_inv r"
  shows "reg_inv r'"
proof -
  have sub: "set (caps r') \<subseteq> set (caps r)" using pruned_set [OF assms(1)] by blast
  have "count_for_task r' t \<le> count_for_task r t" for t
  proof -
    have rev: "is_revoked r j \<Longrightarrow> is_revoked r' j" for j
      using assms by (auto simp: pruned_def reg_inv_def is_revoked_iff)
    have "filter (\<lambda>c. cap_owner c = t \<and> \<not> is_revoked r' (cap_id c)) (caps r') =
        filter (\<lambda>c. c \<notin> U \<and> \<not> is_revoked r' (cap_id c))
          (filter (\<lambda>c. cap_owner c = t \<and> \<not> is_revoked r (cap_id c)) (caps r))"
      using assms(1) rev by (auto simp: pruned_def intro!: filter_cong)
    from arg_cong [OF this, of length] show ?thesis
      unfolding count_for_task_eq by (rule ord_eq_le_trans) (rule length_filter_le)
  qed
  then have "count_for_task r' t \<le> MAX_CAPS_PER_TASK" for t
    using assms(2) le_trans unfolding reg_inv_def by blast
  moreover have "distinct (map cap_id (caps r'))"
    using assms by (simp add: pruned_def reg_inv_def distinct_map_filter)
  ultimately show ?thesis
    using assms sub unfolding reg_inv_def pruned_def by auto
qed

lemma revoke_cases:
  assumes "reg_inv r"
  obtains (missing) "find_cap r i = None" "revoke r i = Some (Inl NotFound)"
  | (revoked) x U r' where "find_cap r i = Some x" "revoke r i = Some (Inr r')" "pruned r U r'" "x \<in> U"
      "U \<subseteq> branch (set (caps r)) x" "narrow r \<Longrightarrow> U = branch (set (caps r)) x"
      "U \<subseteq> insert x (branches (set (caps r)) (set (collect_children r i)))"
proof -
  have "revoke_result (Suc (total_count r)) i r"
    by (rule revoke_fuel_spec [OF reg_inv_wf [OF assms]]) (simp add: total_count_eq)
  then show ?thesis
    using that by (cases "find_cap r i") (auto simp: revoke_result_def revoke_def simp del: revoke_fuel.simps)
qed

text \<open>
  Every registry that grants, delegations and revocations lead to, as long as fewer than
  \<open>2 ^ 64 - 1\<close> ids have been given out (afterwards the counter would wrap).
\<close>

inductive cap_reach :: "cap_registry \<Rightarrow> bool" where
  reach_new: "cap_reach reg_new"
| reach_create: "cap_reach r \<Longrightarrow> reg_next_id r < - 1 \<Longrightarrow>
    create r owner resource perms expires = Inr (i, r') \<Longrightarrow> cap_reach r'"
| reach_delegate: "cap_reach r \<Longrightarrow> reg_next_id r < - 1 \<Longrightarrow>
    delegate r i t perms expires now = Inr (j, r') \<Longrightarrow> cap_reach r'"
| reach_revoke: "cap_reach r \<Longrightarrow> revoke r i = Some (Inr r') \<Longrightarrow> cap_reach r'"

lemma cap_reach_inv: "cap_reach r \<Longrightarrow> reg_inv r"
proof (induction rule: cap_reach.induct)
  case reach_new
  show ?case by (rule reg_inv_new)
next
  case (reach_create r owner resource perms expires i r')
  then show ?case by (blast intro: create_inv)
next
  case (reach_delegate r i t perms expires now j r')
  then show ?case by (blast intro: delegate_inv)
next
  case (reach_revoke r i r')
  show ?case
    by (cases rule: revoke_cases [OF reach_revoke(3), of i])
      (use reach_revoke(2,3) in \<open>auto intro: pruned_inv\<close>)
qed

lemma perm_is_subset_of_trans:
  "perm_is_subset_of p q \<Longrightarrow> perm_is_subset_of q s \<Longrightarrow> perm_is_subset_of p s"
  unfolding perm_is_subset_of_def word_eq_bits by (auto simp: bit_simps)

lemma attenuates_trans: "attenuates c d \<Longrightarrow> attenuates d p \<Longrightarrow> attenuates c p"
  unfolding attenuates_def
  using perm_is_subset_of_trans [of "cap_permissions c" "cap_permissions d" "cap_permissions p"]
  by (auto intro: order_trans)

lemma desc_attenuates:
  assumes "reg_inv r" "p \<in> set (caps r)" "c \<in> desc (set (caps r)) (cap_id p)"
  shows "attenuates c p"
  using assms(3)
proof induction
  case (child c)
  then show ?case using assms(1,2) by (simp add: reg_inv_def)
next
  case (step d c)
  then have "attenuates c d"
    using assms(1) desc_subset by (fastforce simp: reg_inv_def)
  then show ?case using step by (blast intro: attenuates_trans)
qed

section \<open>A registry with its free slots at the end\<close>

definition packed :: "capability list \<Rightarrow> nat \<Rightarrow> cap_id \<Rightarrow> cap_registry" where
  "packed cs m n = \<lparr>reg_caps = map Some cs @ replicate m None, reg_next_id = n,
     reg_revoked = replicate (REVOKED_BITMAP_SIZE div 64) 0\<rparr>"

lemma reg_new_packed: "reg_new = packed [] 4096 1"
  by (simp add: reg_new_def packed_def MAX_TOTAL_CAPS_def)

lemma caps_packed [simp]: "caps (packed cs m n) = cs"
  by (simp add: caps_def packed_def flatten_opt_def)

lemma next_packed [simp]: "reg_next_id (packed cs m n) = n"
  by (simp add: packed_def)

lemma is_revoked_packed [simp]: "\<not> is_revoked (packed cs m n) i"
  using revoked_idx_less [of i]
  by (simp add: is_revoked_def packed_def REVOKED_BITMAP_SIZE_def less_mult_imp_div_less)

lemma position_packed: "position (\<lambda>s. s = None) (map Some cs @ replicate (Suc m) None) = Some (length cs)"
  by (induction cs) simp_all

lemma insert_cap_packed:
  assumes "length (filter (\<lambda>c. cap_owner c = owner) cs) < MAX_CAPS_PER_TASK" "0 < m"
  shows "insert_cap (packed cs m n) owner res perms e par = Inr (n, packed
    (cs @ [\<lparr>cap_id = n, cap_resource = res, cap_permissions = perms, cap_expires = e,
       cap_owner = owner, cap_parent = par\<rparr>]) (m - 1) (n + 1))"
proof -
  from assms(2) obtain k where m: "m = Suc k" by (cases m) auto
  have "count_for_task (packed cs m n) owner < MAX_CAPS_PER_TASK"
    using assms by (simp add: count_for_task_eq)
  moreover have "position (\<lambda>s. s = None) (reg_caps (packed cs m n)) = Some (length cs)"
    unfolding packed_def using position_packed m by simp
  ultimately show ?thesis by (simp add: insert_cap_def) (simp add: packed_def list_update_append m)
qed

lemma find_cap_packed: "find_cap (packed cs m n) i = find (\<lambda>c. cap_id c = i) cs"
  using caps_packed [of cs m n] by (simp add: find_cap_def caps_def)

text \<open>A capability, one delegated from it without an expiry, and one delegated from that.\<close>

definition ex_cap :: "cap_id \<Rightarrow> permissions \<Rightarrow> u64 \<Rightarrow> u64 \<Rightarrow> cap_id \<Rightarrow> capability" where
  "ex_cap i perms e owner par = \<lparr>cap_id = i, cap_resource = \<lparr>rr_type = OnnxModel, rr_instance = 5\<rparr>,
     cap_permissions = perms, cap_expires = e, cap_owner = owner, cap_parent = par\<rparr>"

definition ex_registry :: cap_registry where
  "ex_registry = packed [ex_cap 1 15 100 7 0, ex_cap 2 9 100 8 1, ex_cap 3 1 50 9 2] 4093 4"

lemma cap_reach_ex: "cap_reach ex_registry"
proof -
  have m: "MAX_CAPS_PER_TASK = 256" by (simp add: MAX_CAPS_PER_TASK_def)
  have lt: "(1 :: u64) < - 1" "(2 :: u64) < - 1" "(3 :: u64) < - 1" by code_simp+
  have "create reg_new 7 \<lparr>rr_type = OnnxModel, rr_instance = 5\<rparr> 15 100 =
      Inr (1, packed [ex_cap 1 15 100 7 0] 4095 2)"
    unfolding create_def reg_new_packed by (subst insert_cap_packed) (simp_all add: m ex_cap_def)
  then have r1: "cap_reach (packed [ex_cap 1 15 100 7 0] 4095 2)"
    by (rule reach_create [OF reach_new, rotated]) (simp add: reg_new_packed lt)
  have "delegate (packed [ex_cap 1 15 100 7 0] 4095 2) 1 8 9 0 10 =
      Inr (2, packed [ex_cap 1 15 100 7 0, ex_cap 2 9 100 8 1] 4094 3)"
    by (simp add: delegate_def find_cap_packed insert_cap_packed m ex_cap_def is_expired_def
        perm_contains_def PERM_GRANT_def perm_is_subset_of_def effective_expires_def)
  then have r2: "cap_reach (packed [ex_cap 1 15 100 7 0, ex_cap 2 9 100 8 1] 4094 3)"
    by (rule reach_delegate [OF r1, rotated]) (simp add: lt)
  have "delegate (packed [ex_cap 1 15 100 7 0, ex_cap 2 9 100 8 1] 4094 3) 2 9 1 50 20 =
      Inr (3, ex_registry)"
    by (simp add: delegate_def find_cap_packed insert_cap_packed m ex_cap_def is_expired_def
        perm_contains_def PERM_GRANT_def perm_is_subset_of_def effective_expires_def ex_registry_def)
  then show ?thesis
    by (rule reach_delegate [OF r2, rotated]) (simp add: lt)
qed

text \<open>A capability with \<open>k\<close> children.\<close>

definition crowd :: "nat \<Rightarrow> cap_registry" where
  "crowd k = packed (ex_cap 1 15 0 7 0 # map (\<lambda>j. ex_cap (of_nat j) 1 0 8 1) [2..<k + 2]) (4095 - k) (of_nat (k + 2))"

lemma cap_reach_crowd: "k \<le> 65 \<Longrightarrow> cap_reach (crowd k)"
proof (induction k)
  case 0
  have "create reg_new 7 \<lparr>rr_type = OnnxModel, rr_instance = 5\<rparr> 15 0 = Inr (1, crowd 0)"
    unfolding create_def reg_new_packed crowd_def
    by (subst insert_cap_packed) (simp_all add: MAX_CAPS_PER_TASK_def ex_cap_def)
  moreover have "(1 :: u64) < - 1" by code_simp
  ultimately show ?case by (intro reach_create [OF reach_new]) (simp_all add: reg_new_packed)
next
  case (Suc k)
  let ?cs = "ex_cap 1 15 0 7 0 # map (\<lambda>j. ex_cap (of_nat j) 1 0 8 1) [2..<k + 2]"
  have "length (filter (\<lambda>c. cap_owner c = 8) ?cs) \<le> k"
    using length_filter_le [of "\<lambda>c. cap_owner c = 8" "map (\<lambda>j. ex_cap (of_nat j) 1 0 8 1) [2..<k + 2]"]
    by (simp add: ex_cap_def del: upt_Suc)
  then have lim: "length (filter (\<lambda>c. cap_owner c = 8) ?cs) < MAX_CAPS_PER_TASK" "0 < 4095 - k"
    using Suc.prems by (simp_all add: MAX_CAPS_PER_TASK_def)
  have "find_cap (crowd k) 1 = Some (ex_cap 1 15 0 7 0)"
    by (simp add: crowd_def find_cap_packed ex_cap_def)
  then have "delegate (crowd k) 1 8 1 0 0 = Inr (of_nat (k + 2), crowd (Suc k))"
    using insert_cap_packed [OF lim, of "of_nat (k + 2)" "\<lparr>rr_type = OnnxModel, rr_instance = 5\<rparr>" 1 0 1]
    by (simp add: delegate_def is_expired_def perm_contains_def PERM_GRANT_def perm_is_subset_of_def
        effective_expires_def crowd_def ex_cap_def del: upt_Suc) (simp add: ex_cap_def)
  moreover have "reg_next_id (crowd k) < - 1"
    using Suc.prems by (simp add: crowd_def word_less_nat_alt unsigned_minus_1_eq_mask mask_eq_exp_minus_1
        unat_of_nat unat_word_ariths)
  ultimately show ?case using Suc by (auto intro: reach_delegate)
qed

lemma crowd_children: "collect_children (crowd 65) 1 = map of_nat [2..<66]"
proof -
  have "filter (\<lambda>c. cap_parent c = 1) (caps (crowd 65)) = map (\<lambda>j. ex_cap (of_nat j) 1 0 8 1) [2..<67]"
    by (simp add: crowd_def filter_map comp_def ex_cap_def)
  then show ?thesis
    by (simp add: collect_children_def caps_def [symmetric] comp_def take_map) (simp add: ex_cap_def)
qed

lemma branches_crowd:
  "u \<in> branches (set (caps (crowd 65))) (of_nat ` {2..<66}) \<Longrightarrow> cap_id u \<in> of_nat ` {2..<66}"
proof -
  let ?S = "set (caps (crowd 65))"
  assume "u \<in> branches ?S (of_nat ` {2..<66})"
  then obtain k j where k: "cap_id k = of_nat j" "2 \<le> j" "j < 66" "u = k \<or> u \<in> desc ?S (of_nat j)"
    by (auto simp: branches_def branch_def)
  have "cap_parent d \<noteq> of_nat j" if "d \<in> ?S" for d
    using that k(2,3) by (auto simp: crowd_def ex_cap_def word_unat_eq_iff unat_of_nat)
  then have "u \<notin> desc ?S (of_nat j)"
    unfolding desc_branches [of ?S "of_nat j"] by blast
  with k show ?thesis by auto
qed

lemma check_access_iff:
  "(\<exists>i. check_access r t res req now = Inr i) \<longleftrightarrow>
     (\<exists>c \<in> set (caps r). cap_owner c = t \<and> \<not> is_revoked r (cap_id c) \<and> \<not> is_expired c now \<and>
        cap_resource c = res \<and> perm_contains (cap_permissions c) req)"
  by (auto simp: check_access_def caps_def cap_check_def find_None_iff' simp del: set_flatten_opt
      split: option.splits dest!: find_SomeD)

lemma check_access_InrD:
  assumes "check_access r t res req now = Inr i"
  shows "\<exists>c \<in> set (caps r). cap_id c = i \<and> cap_owner c = t \<and> \<not> is_revoked r i \<and> \<not> is_expired c now \<and>
    cap_resource c = res \<and> perm_contains (cap_permissions c) req"
  using assms by (fastforce simp: check_access_def caps_def cap_check_def simp del: set_flatten_opt
      split: option.splits if_splits dest!: find_SomeD)

lemma instance_byte_pair:
  fixes c i :: u8
  shows "ucast (drop_bit 8 (push_bit 8 (ucast c) OR ucast i :: u64) AND 0xFF) = c"
    and "ucast ((push_bit 8 (ucast c) OR ucast i :: u64) AND 0xFF) = i"
proof -
  have m: "(0xFF :: u64) = mask 8" by (simp add: mask_eq_exp_minus_1)
  show "ucast (drop_bit 8 (push_bit 8 (ucast c) OR ucast i :: u64) AND 0xFF) = c"
    unfolding m by (rule bit_word_eqI) (auto simp: bit_simps dest: bit_imp_le_length)
  show "ucast ((push_bit 8 (ucast c) OR ucast i :: u64) AND 0xFF) = i"
    unfolding m by (rule bit_word_eqI) (auto simp: bit_simps dest: bit_imp_le_length)
qed

lemma peripheral_from_code: "peripheral_from_u8 (peripheral_code p) = Some p"
  by (cases p) (simp_all add: peripheral_from_u8_def)

section \<open>Properties\<close>

text \<open>
  C11. Authority only shrinks along delegation: in every reachable registry a capability delegated,
  directly or through any chain of delegations, from a live capability names the same resource,
  carries no permission the original lacks, and expires no later than it.
\<close>

theorem delegation_attenuates:
  assumes "cap_reach r" "p \<in> set (caps r)" "c \<in> desc (set (caps r)) (cap_id p)"
  shows "cap_resource c = cap_resource p \<and>
    perm_is_subset_of (cap_permissions c) (cap_permissions p) \<and>
    (cap_expires p \<noteq> 0 \<longrightarrow> cap_expires c \<noteq> 0 \<and> cap_expires c \<le> cap_expires p)"
  using desc_attenuates [OF cap_reach_inv [OF assms(1)] assms(2,3)] by (simp add: attenuates_def)

theorem delegation_attenuates_witness:
  "perm_is_subset_of (cap_permissions (ex_cap 3 1 50 9 2)) (cap_permissions (ex_cap 1 15 100 7 0)) \<and>
   cap_expires (ex_cap 3 1 50 9 2) \<le> cap_expires (ex_cap 1 15 100 7 0)"
proof -
  let ?S = "set (caps ex_registry)"
  have "ex_cap 2 9 100 8 1 \<in> desc ?S (cap_id (ex_cap 1 15 100 7 0))"
    by (rule desc.child) (simp_all add: ex_registry_def ex_cap_def)
  then have "ex_cap 3 1 50 9 2 \<in> desc ?S (cap_id (ex_cap 1 15 100 7 0))"
    by (rule desc.step) (simp_all add: ex_registry_def ex_cap_def)
  moreover have "ex_cap 1 15 100 7 0 \<in> ?S" by (simp add: ex_registry_def)
  ultimately show ?thesis
    using delegation_attenuates [OF cap_reach_ex, of "ex_cap 1 15 100 7 0" "ex_cap 3 1 50 9 2"]
    by (simp add: ex_cap_def)
qed



text \<open>
  Children beyond the sixty-fourth survive the revocation of their parent: after 65
  delegations of one capability its revocation succeeds, and the last child is still in the
  registry, is not marked revoked and still grants access.
\<close>

theorem revoke_misses_children_past_64:
  "\<exists>r'. cap_reach (crowd 65) \<and> revoke (crowd 65) 1 = Some (Inr r') \<and>
     ex_cap 66 1 0 8 1 \<in> set (caps r') \<and> \<not> is_revoked r' 66 \<and>
     (\<exists>i. check_access r' 8 \<lparr>rr_type = OnnxModel, rr_instance = 5\<rparr> 1 now = Inr i)"
proof (cases rule: revoke_cases [OF cap_reach_inv [OF cap_reach_crowd [of 65, simplified]], of 1])
  case 1
  then show ?thesis by (simp add: crowd_def find_cap_packed ex_cap_def)
next
  case (2 x U r')
  let ?c = "ex_cap 66 1 0 8 1"
  have x: "cap_id x = 1" using 2(1) by (auto simp: crowd_def find_cap_packed ex_cap_def)
  have ids: "cap_id u \<in> of_nat ` {1..<66}" if "u \<in> U" for u
  proof -
    have "u = x \<or> cap_id u \<in> of_nat ` {2..<66}"
      using that 2(7) [unfolded crowd_children set_map set_upt] branches_crowd [of u] by blast
    moreover have "(1 :: u64) \<in> of_nat ` {1..<66}" by (rule image_eqI [of _ _ 1]) simp_all
    ultimately show ?thesis using x by auto
  qed
  have "(of_nat 66 :: u64) \<notin> of_nat ` {1..<66}" by (auto simp: word_unat_eq_iff unat_of_nat)
  then have "?c \<notin> U" using ids [of ?c] by (auto simp: ex_cap_def)
  moreover have "?c \<in> set (caps (crowd 65))" by (auto simp: crowd_def intro: image_eqI [of _ _ 66])
  ultimately have c: "?c \<in> set (caps r')" using pruned_set [OF 2(3)] by blast
  have "revoked_idx 66 \<notin> revoked_idx ` of_nat ` {1..<66}"
    by (auto simp: revoked_idx_def REVOKED_BITMAP_SIZE_def unat_of_nat)
  then have "revoked_idx 66 \<notin> revoked_idx ` cap_id ` U" using ids by blast
  then have nr: "\<not> is_revoked r' 66"
    using 2(3) by (simp add: is_revoked_iff pruned_def crowd_def packed_def)
  have "\<exists>i. check_access r' 8 \<lparr>rr_type = OnnxModel, rr_instance = 5\<rparr> 1 now = Inr i"
    unfolding check_access_iff
    by (rule bexI [OF _ c]) (use nr in \<open>simp add: ex_cap_def is_expired_def perm_contains_def\<close>)
  with 2(2) c nr cap_reach_crowd [of 65] show ?thesis by auto
qed



text \<open>
  Per-task quotas hold in every reachable registry: no task has more than 256 usable
  capabilities, ids are unique, and every id is below the counter.
\<close>

theorem capability_quota_and_unique_ids:
  assumes "cap_reach r"
  shows "count_for_task r t \<le> MAX_CAPS_PER_TASK \<and> distinct (map cap_id (caps r)) \<and>
    (\<forall>c \<in> set (caps r). cap_parent c < cap_id c \<and> cap_id c < reg_next_id r)"
  using cap_reach_inv [OF assms] by (simp add: reg_inv_def)

theorem capability_quota_and_unique_ids_witness:
  "count_for_task ex_registry 7 \<le> MAX_CAPS_PER_TASK"
  using capability_quota_and_unique_ids [OF cap_reach_ex] by simp

text \<open>
  Resource references decode to what was encoded: the instance id of a peripheral gives back
  the peripheral and its instance, and the byte of a resource type gives back the type.
\<close>

theorem instance_id_roundtrip:
  "decode_instance_id (encode_instance_id p i) = Some (p, i) \<and>
   decode_instance_id (rr_instance (peripheral_resource_ref p i)) = Some (p, i) \<and>
   resource_type_from_u8 (resource_type_code t) = Some t"
proof (intro conjI)
  show d: "decode_instance_id (encode_instance_id p i) = Some (p, i)"
    by (simp only: decode_instance_id_def encode_instance_id_def Let_def instance_byte_pair
        peripheral_from_code option.map)
  then show "decode_instance_id (rr_instance (peripheral_resource_ref p i)) = Some (p, i)"
    by (simp add: peripheral_resource_ref_def)
  show "resource_type_from_u8 (resource_type_code t) = Some t"
    by (cases t) (simp_all add: resource_type_from_u8_def)
qed

end
