(* ===== verification/Sha3.thy ===== *)
theory Sha3
  imports Bytes
begin

text \<open>
  SHA-3-256 and SHAKE256 (\<open>security/src/crypto/sha3.rs\<close>): the Keccak permutation, the buffered sponge
  with its partial-block buffer, and the two hashers. Slices are lists; a slice or copy outside
  its array is a panic. The lanes are indexed with constants below 25, so they are read with \<open>!\<close>.

  The specification is the unbuffered sponge: absorb the padded message block by block. The
  lemmas show that any sequence of \<open>update\<close> calls implements it, and that any sequence of
  \<open>squeeze\<close> calls reads one stream of bytes.
\<close>

section \<open>The Keccak permutation\<close>

definition SHA3_256_DIGEST_LEN :: nat where
  "SHA3_256_DIGEST_LEN = 32"

definition RATE :: nat where
  "RATE = 136"

definition SHA3_DOMAIN :: u8 where
  "SHA3_DOMAIN = 0x06"

definition SHAKE_DOMAIN :: u8 where
  "SHAKE_DOMAIN = 0x1F"

definition RC :: "u64 list" where
  "RC = [0x0000000000000001, 0x0000000000008082, 0x800000000000808A, 0x8000000080008000,
     0x000000000000808B, 0x0000000080000001, 0x8000000080008081, 0x8000000000008009,
     0x000000000000008A, 0x0000000000000088, 0x0000000080008009, 0x000000008000000A,
     0x000000008000808B, 0x800000000000008B, 0x8000000000008089, 0x8000000000008003,
     0x8000000000008002, 0x8000000000000080, 0x000000000000800A, 0x800000008000000A,
     0x8000000080008081, 0x8000000000008080, 0x0000000080000001, 0x8000000080008008]"

definition ROTATIONS :: "nat list list" where
  "ROTATIONS = [[0, 36, 3, 41, 18], [1, 44, 10, 45, 2], [62, 6, 43, 15, 61],
     [28, 55, 25, 21, 56], [27, 20, 39, 8, 14]]"

definition rotate_left :: "nat \<Rightarrow> u64 \<Rightarrow> u64" where
  "rotate_left n w = push_bit (n mod 64) w OR drop_bit ((64 - n mod 64) mod 64) (if n mod 64 = 0 then 0 else w)"

type_synonym lanes = "u64 list"

definition keccak_new :: lanes where
  "keccak_new = replicate 25 0"

definition theta :: "lanes \<Rightarrow> lanes" where
  "theta a =
     (let c = map (\<lambda>x. a ! x XOR a ! (x + 5) XOR a ! (x + 10) XOR a ! (x + 15) XOR a ! (x + 20)) [0..<5];
          d = map (\<lambda>x. c ! ((x + 4) mod 5) XOR rotate_left 1 (c ! ((x + 1) mod 5))) [0..<5] in
      map (\<lambda>i. a ! i XOR d ! (i mod 5)) [0..<25])"

definition xy_pairs :: "(nat \<times> nat) list" where
  "xy_pairs = concat (map (\<lambda>x. map (Pair x) [0..<5]) [0..<5])"

definition rho_pi :: "lanes \<Rightarrow> lanes" where
  "rho_pi a = foldl (\<lambda>b (x, y).
     b[y + 5 * ((2 * x + 3 * y) mod 5) := rotate_left (ROTATIONS ! x ! y) (a ! (x + 5 * y))])
     (replicate 25 0) xy_pairs"

definition chi :: "lanes \<Rightarrow> lanes" where
  "chi b = map (\<lambda>i. let x = i mod 5; y = i div 5 in
     b ! (x + 5 * y) XOR (NOT (b ! ((x + 1) mod 5 + 5 * y)) AND b ! ((x + 2) mod 5 + 5 * y))) [0..<25]"

definition iota :: "lanes \<Rightarrow> u64 \<Rightarrow> lanes" where
  "iota a rc = a[0 := a ! 0 XOR rc]"

definition permute :: "lanes \<Rightarrow> lanes" where
  "permute a = foldl (\<lambda>a rc. iota (chi (rho_pi (theta a))) rc) a RC"

section \<open>Blocks in and out of the state\<close>

definition xor_block :: "lanes \<Rightarrow> u8 list \<Rightarrow> lanes" where
  "xor_block lanes data =
     (let n = length data div 8; remaining = length data mod 8;
          full = foldl (\<lambda>l i. l[i := l ! i XOR from_le_bytes (take 8 (drop (i * 8) data))]) lanes [0..<n] in
      if remaining > 0 then full[n := full ! n XOR from_le_bytes (drop (n * 8) data)] else full)"

definition keccak_extract :: "lanes \<Rightarrow> nat \<Rightarrow> u8 list" where
  "keccak_extract lanes out_len =
     (let len = min out_len RATE; full = len div 8; remaining = len mod 8 in
      concat (map (\<lambda>i. to_le_bytes 8 (lanes ! i)) [0..<full]) @
      (if remaining > 0 then take remaining (to_le_bytes 8 (lanes ! full)) else []))"

section \<open>The buffered sponge\<close>

datatype sha3_error = Sha3BufferTooSmall | AlreadyFinalized | Sha3InvalidState

record sponge =
  sp_state :: lanes
  sp_buffer :: "u8 list"
  sp_buf_len :: nat

definition sponge_new :: sponge where
  "sponge_new = \<lparr>sp_state = keccak_new, sp_buffer = replicate RATE 0, sp_buf_len = 0\<rparr>"

text \<open>The loop over the full blocks of the input; what is left is shorter than a block.\<close>

function full_blocks :: "lanes \<Rightarrow> u8 list \<Rightarrow> lanes \<times> u8 list" where
  "full_blocks s data =
     (if length data \<ge> RATE then full_blocks (permute (xor_block s (take RATE data))) (drop RATE data)
      else (s, data))"
  by pat_completeness auto
termination
  by (relation "measure (\<lambda>(s, data). length data)") (auto simp: RATE_def)

declare full_blocks.simps [simp del]

text \<open>The body that \<open>Sha3_256::update\<close> and \<open>Shake256::absorb\<close> share.\<close>

definition sponge_blocks :: "sponge \<Rightarrow> u8 list \<Rightarrow> sponge option" where
  "sponge_blocks sp data = (case full_blocks (sp_state sp) data of (s, rest) \<Rightarrow>
     if length rest > 0 then do {
       b \<leftarrow> blit (sp_buffer sp) 0 rest;
       Some (sp\<lparr>sp_state := s, sp_buffer := b, sp_buf_len := length rest\<rparr>) }
     else Some (sp\<lparr>sp_state := s\<rparr>))"

definition sponge_absorb :: "sponge \<Rightarrow> u8 list \<Rightarrow> sponge option" where
  "sponge_absorb sp data =
     (if sp_buf_len sp > 0 then do {
        space \<leftarrow> usub RATE (sp_buf_len sp);
        if length data < space then do {
          b \<leftarrow> blit (sp_buffer sp) (sp_buf_len sp) data;
          Some (sp\<lparr>sp_buffer := b, sp_buf_len := sp_buf_len sp + length data\<rparr>) }
        else do {
          first \<leftarrow> slice data 0 space;
          b \<leftarrow> blit (sp_buffer sp) (sp_buf_len sp) first;
          sponge_blocks (sp\<lparr>sp_buffer := b, sp_state := permute (xor_block (sp_state sp) b), sp_buf_len := 0\<rparr>)
            (drop space data) } }
      else sponge_blocks sp data)"

text \<open>The padding of the last block: the domain byte, zeros, and the top bit of the last byte.\<close>

definition sponge_pad :: "u8 \<Rightarrow> sponge \<Rightarrow> sponge option" where
  "sponge_pad domain sp = do {
     b1 \<leftarrow> idx_upd (sp_buffer sp) (sp_buf_len sp) domain;
     (let b2 = take (sp_buf_len sp + 1) b1 @ replicate (RATE - (sp_buf_len sp + 1)) 0 in do {
       l \<leftarrow> idx b2 (RATE - 1);
       b3 \<leftarrow> idx_upd b2 (RATE - 1) (l OR 0x80);
       Some (sp\<lparr>sp_buffer := b3, sp_state := permute (xor_block (sp_state sp) b3)\<rparr>) }) }"

section \<open>SHA-3-256\<close>

record sha3_256_hasher =
  h_sponge :: sponge
  h_absorbed :: u64
  h_finalized :: bool

definition sha3_new :: sha3_256_hasher where
  "sha3_new = \<lparr>h_sponge = sponge_new, h_absorbed = 0, h_finalized = False\<rparr>"

definition update :: "sha3_256_hasher \<Rightarrow> u8 list \<Rightarrow> (sha3_error, sha3_256_hasher) result option" where
  "update h data =
     (if h_finalized h then Some (Inl AlreadyFinalized)
      else do {
        sp \<leftarrow> sponge_absorb (h_sponge h) data;
        Some (Inr (h\<lparr>h_sponge := sp, h_absorbed := h_absorbed h + of_nat (length data)\<rparr>)) })"

definition finalize :: "sha3_256_hasher \<Rightarrow> (sha3_error, u8 list \<times> sha3_256_hasher) result option" where
  "finalize h =
     (if h_finalized h then Some (Inl AlreadyFinalized)
      else do {
        sp \<leftarrow> sponge_pad SHA3_DOMAIN (h_sponge h);
        Some (Inr (keccak_extract (sp_state sp) SHA3_256_DIGEST_LEN, h\<lparr>h_sponge := sp, h_finalized := True\<rparr>)) })"

definition sha3_256 :: "u8 list \<Rightarrow> u8 list option" where
  "sha3_256 data = do {
     r \<leftarrow> update sha3_new data;
     (case r of Inl _ \<Rightarrow> None | Inr h \<Rightarrow> do {
        f \<leftarrow> finalize h;
        (case f of Inl _ \<Rightarrow> None | Inr (digest, _) \<Rightarrow> Some digest) }) }"

section \<open>SHAKE256\<close>

datatype shake_phase = Absorbing | Squeezing

record shake256_xof =
  x_sponge :: sponge
  x_phase :: shake_phase
  x_squeeze_offset :: nat

definition shake_new :: shake256_xof where
  "shake_new = \<lparr>x_sponge = sponge_new, x_phase = Absorbing, x_squeeze_offset = 0\<rparr>"

definition shake_absorb :: "shake256_xof \<Rightarrow> u8 list \<Rightarrow> (sha3_error, shake256_xof) result option" where
  "shake_absorb x data =
     (if x_phase x \<noteq> Absorbing then Some (Inl Sha3InvalidState)
      else do {
        sp \<leftarrow> sponge_absorb (x_sponge x) data;
        Some (Inr (x\<lparr>x_sponge := sp\<rparr>)) })"

definition finalize_absorb :: "shake256_xof \<Rightarrow> shake256_xof option" where
  "finalize_absorb x = do {
     sp \<leftarrow> sponge_pad SHAKE_DOMAIN (x_sponge x);
     Some (x\<lparr>x_sponge := sp\<lparr>sp_buffer := keccak_extract (sp_state sp) RATE\<rparr>,
             x_phase := Squeezing, x_squeeze_offset := 0\<rparr>) }"

text \<open>The squeezing loop: the state, the current block and the offset in it, and the bytes still wanted.\<close>

function squeeze_loop :: "sponge \<Rightarrow> nat \<Rightarrow> nat \<Rightarrow> (u8 list \<times> sponge \<times> nat) option" where
  "squeeze_loop sp off remaining =
     (if remaining > 0 then do {
        available \<leftarrow> usub RATE off;
        if remaining \<le> available then do {
          out \<leftarrow> slice (sp_buffer sp) off (off + remaining);
          Some (out, sp, off + remaining) }
        else do {
          out \<leftarrow> slice (sp_buffer sp) off RATE;
          (let s = permute (sp_state sp); sp' = sp\<lparr>sp_state := s, sp_buffer := keccak_extract s RATE\<rparr> in do {
            (rest, sp'', off'') \<leftarrow> squeeze_loop sp' 0 (remaining - available);
            Some (out @ rest, sp'', off'') }) } }
      else Some ([], sp, off))"
  by pat_completeness auto
termination
  by (relation "measure (\<lambda>(sp, off, remaining). 2 * remaining + (if off = RATE then 1 else 0))")
    (auto simp: usub_def RATE_def split: if_splits)

declare squeeze_loop.simps [simp del]

definition squeeze :: "shake256_xof \<Rightarrow> nat \<Rightarrow> (u8 list \<times> shake256_xof) option" where
  "squeeze x out_len = do {
     x1 \<leftarrow> (if x_phase x = Absorbing then finalize_absorb x else Some x);
     (out, sp, off) \<leftarrow> squeeze_loop (x_sponge x1) (x_squeeze_offset x1) out_len;
     Some (out, x1\<lparr>x_sponge := sp, x_squeeze_offset := off\<rparr>) }"

definition shake256 :: "u8 list \<Rightarrow> nat \<Rightarrow> u8 list option" where
  "shake256 data out_len = do {
     r \<leftarrow> shake_absorb shake_new data;
     (case r of Inl _ \<Rightarrow> None | Inr x \<Rightarrow> map_option fst (squeeze x out_len)) }"

section \<open>The unbuffered sponge\<close>

text \<open>
  \<open>absorbed s m\<close> is the state after the full blocks of \<open>m\<close>, and \<open>leftover m\<close> the bytes after them.
\<close>

definition absorbed :: "lanes \<Rightarrow> u8 list \<Rightarrow> lanes" where
  "absorbed s m = fst (full_blocks s m)"

definition leftover :: "u8 list \<Rightarrow> u8 list" where
  "leftover m = drop (length m div RATE * RATE) m"

lemma RATE_pos [simp]: "0 < RATE"
  by (simp add: RATE_def)

lemma length_leftover [simp]: "length (leftover m) = length m mod RATE"
  by (simp add: leftover_def minus_div_mult_eq_mod)

lemma leftover_short: "length m < RATE \<Longrightarrow> leftover m = m"
  by (simp add: leftover_def)

lemma leftover_block: "length b = RATE \<Longrightarrow> leftover (b @ m) = leftover m"
proof -
  assume b: "length b = RATE"
  then have "length (b @ m) div RATE = Suc (length m div RATE)" by (simp add: RATE_def)
  then show ?thesis using b by (simp add: leftover_def)
qed

lemma full_blocks_block:
  "length b = RATE \<Longrightarrow> full_blocks s (b @ m) = full_blocks (permute (xor_block s b)) m"
  by (subst full_blocks.simps) simp

lemma full_blocks_short: "length m < RATE \<Longrightarrow> full_blocks s m = (s, m)"
  by (subst full_blocks.simps) simp

lemma full_blocks_eq: "full_blocks s m = (absorbed s m, leftover m)"
proof (induction s m rule: full_blocks.induct)
  case (1 s m)
  show ?case
  proof (cases "length m \<ge> RATE")
    case True
    then have m: "m = take RATE m @ drop RATE m" "length (take RATE m) = RATE" by simp_all
    have "snd (full_blocks s m) = leftover m"
      using 1 True full_blocks_block [OF m(2), of s "drop RATE m"] leftover_block [OF m(2), of "drop RATE m"]
      by simp
    then show ?thesis by (simp add: absorbed_def prod_eq_iff)
  next
    case False
    then show ?thesis by (simp add: full_blocks_short absorbed_def leftover_short)
  qed
qed

lemma absorbed_block: "length b = RATE \<Longrightarrow> absorbed s (b @ m) = absorbed (permute (xor_block s b)) m"
  by (simp add: absorbed_def full_blocks_block)

lemma absorbed_short: "length m < RATE \<Longrightarrow> absorbed s m = s"
  by (simp add: absorbed_def full_blocks_short)

text \<open>Absorbing in two steps, the bytes left over by the first being put before the second input.\<close>

lemma absorbed_append: "absorbed s (m @ d) = absorbed (absorbed s m) (leftover m @ d)"
  and leftover_append: "leftover (m @ d) = leftover (leftover m @ d)"
proof -
  have "absorbed s (m @ d) = absorbed (absorbed s m) (leftover m @ d) \<and>
      leftover (m @ d) = leftover (leftover m @ d)"
  proof (induction s m rule: full_blocks.induct)
    case (1 s m)
    show ?case
    proof (cases "length m \<ge> RATE")
      case True
      let ?b = "take RATE m" and ?r = "drop RATE m"
      have b: "length ?b = RATE" using True by simp
      have m: "m = ?b @ ?r" by simp
      have "absorbed s (?b @ ?r @ d) = absorbed (permute (xor_block s ?b)) (?r @ d)"
        "absorbed s (?b @ ?r) = absorbed (permute (xor_block s ?b)) ?r"
        "leftover (?b @ ?r @ d) = leftover (?r @ d)" "leftover (?b @ ?r) = leftover ?r"
        by (simp_all only: absorbed_block [OF b] leftover_block [OF b])
      with 1 True m show ?thesis by (metis append_assoc)
    next
      case False
      then show ?thesis by (simp add: absorbed_short leftover_short)
    qed
  qed
  then show "absorbed s (m @ d) = absorbed (absorbed s m) (leftover m @ d)"
    "leftover (m @ d) = leftover (leftover m @ d)" by blast+
qed

section \<open>The buffered sponge implements it\<close>

definition sponge_rep :: "sponge \<Rightarrow> u8 list \<Rightarrow> bool" where
  "sponge_rep sp m \<longleftrightarrow> sp_state sp = absorbed keccak_new m \<and> length (sp_buffer sp) = RATE \<and>
     sp_buf_len sp = length (leftover m) \<and> take (sp_buf_len sp) (sp_buffer sp) = leftover m"

lemma sponge_rep_new: "sponge_rep sponge_new []"
  by (simp add: sponge_rep_def sponge_new_def absorbed_short leftover_short)

lemma sponge_blocks_rep:
  assumes "length (sp_buffer sp) = RATE" "sp_buf_len sp = 0"
  shows "\<exists>sp'. sponge_blocks sp d = Some sp' \<and> sp_state sp' = absorbed (sp_state sp) d \<and>
    length (sp_buffer sp') = RATE \<and> sp_buf_len sp' = length (leftover d) \<and>
    take (sp_buf_len sp') (sp_buffer sp') = leftover d"
proof -
  have "length (leftover d) < RATE" by simp
  then have "blit (sp_buffer sp) 0 (leftover d) =
      Some (leftover d @ drop (length (leftover d)) (sp_buffer sp))"
    using assms(1) blit_in [of 0 "leftover d" "sp_buffer sp"] by simp
  then show ?thesis
    using assms \<open>length (leftover d) < RATE\<close>
    by (cases "leftover d = []") (auto simp: sponge_blocks_def full_blocks_eq simp flip: length_leftover)
qed

lemma sponge_absorb_rep:
  assumes rep: "sponge_rep sp m"
  shows "\<exists>sp'. sponge_absorb sp d = Some sp' \<and> sponge_rep sp' (m @ d)"
proof -
  let ?l = "leftover m" and ?n = "sp_buf_len sp" and ?b = "sp_buffer sp"
  from rep have r: "sp_state sp = absorbed keccak_new m" "length ?b = RATE" "?n = length ?l" "take ?n ?b = ?l"
    by (auto simp: sponge_rep_def)
  have n: "?n < RATE" using r(3) by simp
  consider "?n = 0" | "?n > 0" "length d < RATE - ?n" | "?n > 0" "RATE - ?n \<le> length d" by linarith
  then show ?thesis
  proof cases
    case 1
    then have l: "?l = []" using r(3) by (metis length_0_conv)
    from sponge_blocks_rep [OF r(2) 1, of d] obtain sp' where
      "sponge_blocks sp d = Some sp'" "sp_state sp' = absorbed (sp_state sp) d"
      "length (sp_buffer sp') = RATE" "sp_buf_len sp' = length (leftover d)"
      "take (sp_buf_len sp') (sp_buffer sp') = leftover d" by blast
    then show ?thesis
      using 1 r(1) absorbed_append [of keccak_new m d] leftover_append [of m d] l
      by (simp add: sponge_absorb_def sponge_rep_def del: length_leftover)
  next
    case 2
    let ?b' = "take ?n ?b @ d @ drop (?n + length d) ?b"
    have "blit ?b ?n d = Some ?b'" using 2 n r(2) by (intro blit_in) linarith
    moreover have "length (?l @ d) < RATE" using 2 r(3) by simp
    then have "absorbed keccak_new (m @ d) = absorbed keccak_new m" "leftover (m @ d) = ?l @ d"
      using absorbed_append [of keccak_new m d] leftover_append [of m d]
      by (simp_all add: absorbed_short leftover_short del: length_append)
    ultimately show ?thesis
      using 2 r n by (simp add: sponge_absorb_def sponge_rep_def del: length_leftover)
  next
    case 3
    let ?f = "take (RATE - ?n) d" and ?d = "drop (RATE - ?n) d"
    have b: "blit ?b ?n ?f = Some (?l @ ?f)" using 3 n r by (subst blit_in) simp_all
    have len: "length (?l @ ?f) = RATE" using 3 n r(3) by (simp del: length_leftover)
    let ?sp = "sp\<lparr>sp_buffer := ?l @ ?f, sp_state := permute (xor_block (sp_state sp) (?l @ ?f)), sp_buf_len := 0\<rparr>"
    from sponge_blocks_rep [of ?sp ?d] len obtain sp' where
      sp': "sponge_blocks ?sp ?d = Some sp'" "sp_state sp' = absorbed (sp_state ?sp) ?d"
        "length (sp_buffer sp') = RATE" "sp_buf_len sp' = length (leftover ?d)"
        "take (sp_buf_len sp') (sp_buffer sp') = leftover ?d" by auto
    have split: "?l @ d = (?l @ ?f) @ ?d" by simp
    have "absorbed keccak_new (m @ d) = absorbed (sp_state ?sp) ?d" "leftover (m @ d) = leftover ?d"
      unfolding absorbed_append [of keccak_new m d] leftover_append [of m d] split
      by (simp_all only: absorbed_block [OF len] leftover_block [OF len]) (simp add: r(1))
    moreover have "sponge_absorb sp d = Some sp'"
      using 3 n b sp'(1) by (simp add: sponge_absorb_def slice_def)
    ultimately show ?thesis using sp' by (simp add: sponge_rep_def del: length_leftover)
  qed
qed


section \<open>Padding\<close>

text \<open>The padding bytes of the sponge, for a padding of \<open>n > 0\<close> bytes, and the padded message.\<close>

definition pad_bytes :: "u8 \<Rightarrow> nat \<Rightarrow> u8 list" where
  "pad_bytes domain n = (if n = 1 then [domain OR 0x80] else domain # replicate (n - 2) 0 @ [0x80])"

definition padded :: "u8 \<Rightarrow> u8 list \<Rightarrow> u8 list" where
  "padded domain m = m @ pad_bytes domain (RATE - length m mod RATE)"

text \<open>The sponge as its definition has it: the full blocks of the input, one permutation for each.\<close>

definition sponge_spec :: "lanes \<Rightarrow> u8 list \<Rightarrow> lanes" where
  "sponge_spec s m =
     foldl (\<lambda>s i. permute (xor_block s (take RATE (drop (i * RATE) m)))) s [0..<length m div RATE]"

lemma absorbed_eq_spec: "absorbed s m = sponge_spec s m"
proof (induction s m rule: full_blocks.induct)
  case (1 s m)
  show ?case
  proof (cases "length m \<ge> RATE")
    case True
    let ?r = "drop RATE m"
    have b: "length (take RATE m) = RATE" using True by simp
    have "length m = RATE + length ?r" using True by simp
    then have k: "length m div RATE = Suc (length ?r div RATE)" by (simp add: RATE_def)
    have "absorbed s m = absorbed (permute (xor_block s (take RATE m))) ?r"
      using absorbed_block [OF b, of s ?r] by simp
    also have "\<dots> = sponge_spec (permute (xor_block s (take RATE m))) ?r" using 1 True by simp
    also have "\<dots> = sponge_spec s m"
      unfolding sponge_spec_def k upt_conv_Cons [OF zero_less_Suc] map_Suc_upt [symmetric]
      by (simp add: foldl_map add.commute)
    finally show ?thesis .
  next
    case False
    then show ?thesis by (simp add: absorbed_short sponge_spec_def)
  qed
qed

lemma length_pad_bytes: "0 < n \<Longrightarrow> length (pad_bytes domain n) = n"
  by (auto simp: pad_bytes_def)

lemma padded_last:
  assumes "length l < RATE"
  shows "(l @ domain # replicate (RATE - Suc (length l)) 0)
      [RATE - 1 := (l @ domain # replicate (RATE - Suc (length l)) 0) ! (RATE - 1) OR 0x80] =
    l @ pad_bytes domain (RATE - length l)"
proof (cases "RATE - length l = 1")
  case True
  then have r: "RATE - 1 = length l" "RATE - Suc (length l) = 0" by auto
  show ?thesis unfolding True r by (simp add: pad_bytes_def)
next
  case False
  then obtain k where k: "RATE - length l = Suc (Suc k)"
    using assms that [of "RATE - length l - 2"] by linarith
  then have r: "RATE - 1 = length l + Suc k" "RATE - Suc (length l) = Suc k" using assms by linarith+
  let ?xs = "l @ domain # replicate k 0"
  have rep: "l @ domain # replicate (Suc k) (0::u8) = ?xs @ [0]"
    by (simp add: replicate_append_same)
  have len: "length l + Suc k = length ?xs" by simp
  show ?thesis
    unfolding r k rep unfolding len list_update_length nth_append_length by (simp add: pad_bytes_def)
qed

lemma sponge_pad_rep:
  assumes rep: "sponge_rep sp m"
  shows "\<exists>sp'. sponge_pad domain sp = Some sp' \<and> sp_state sp' = sponge_spec keccak_new (padded domain m)"
proof -
  let ?l = "leftover m" and ?n = "sp_buf_len sp"
  from rep have r: "sp_state sp = absorbed keccak_new m" "length (sp_buffer sp) = RATE" "?n = length ?l"
    "take ?n (sp_buffer sp) = ?l" by (auto simp: sponge_rep_def)
  have n: "?n < RATE" "length ?l < RATE" using r(3) by simp_all
  let ?p = "pad_bytes domain (RATE - length ?l)"
  have b2: "take (?n + 1) ((sp_buffer sp)[?n := domain]) = ?l @ [domain]"
    using r n by (simp add: take_Suc_conv_app_nth del: length_leftover)
  have p: "length (?l @ ?p) = RATE" using n by (simp add: length_pad_bytes del: length_leftover)
  have "sponge_pad domain sp = Some (sp\<lparr>sp_buffer := ?l @ ?p, sp_state := permute (xor_block (sp_state sp) (?l @ ?p))\<rparr>)"
    using padded_last [OF n(2), of domain] n r(2,3) b2
    by (simp add: sponge_pad_def del: length_leftover)
  moreover have "absorbed keccak_new (m @ ?p) = permute (xor_block (sp_state sp) (?l @ ?p))"
    unfolding absorbed_append [of keccak_new m] using absorbed_block [OF p, of _ "[]"] r(1)
    by (simp add: absorbed_short)
  then have "sponge_spec keccak_new (padded domain m) = permute (xor_block (sp_state sp) (?l @ ?p))"
    by (simp add: padded_def absorbed_eq_spec)
  ultimately show ?thesis by simp
qed

section \<open>Extracted blocks\<close>

lemma length_keccak_extract [simp]: "length (keccak_extract s n) = min n RATE"
proof -
  have "length (concat (map (\<lambda>i. to_le_bytes 8 (s ! i)) xs)) = 8 * length xs" for xs :: "nat list"
    by (induction xs) auto
  then show ?thesis by (auto simp: keccak_extract_def Let_def)
qed

section \<open>Any chunking of the input gives the same digest\<close>

fun updates :: "sha3_256_hasher \<Rightarrow> u8 list list \<Rightarrow> (sha3_error, sha3_256_hasher) result option" where
  "updates h [] = Some (Inr h)"
| "updates h (c # cs) = do {
     r \<leftarrow> update h c;
     (case r of Inl e \<Rightarrow> Some (Inl e) | Inr h' \<Rightarrow> updates h' cs) }"

fun shake_absorbs :: "shake256_xof \<Rightarrow> u8 list list \<Rightarrow> (sha3_error, shake256_xof) result option" where
  "shake_absorbs x [] = Some (Inr x)"
| "shake_absorbs x (c # cs) = do {
     r \<leftarrow> shake_absorb x c;
     (case r of Inl e \<Rightarrow> Some (Inl e) | Inr x' \<Rightarrow> shake_absorbs x' cs) }"

definition sha3_spec :: "u8 list \<Rightarrow> u8 list" where
  "sha3_spec m = keccak_extract (sponge_spec keccak_new (padded SHA3_DOMAIN m)) SHA3_256_DIGEST_LEN"

text \<open>A hasher that has been given the bytes \<open>m\<close> and can take more.\<close>

definition hasher_rep :: "sha3_256_hasher \<Rightarrow> u8 list \<Rightarrow> bool" where
  "hasher_rep h m \<longleftrightarrow> sponge_rep (h_sponge h) m \<and> \<not> h_finalized h"

lemma hasher_rep_new: "hasher_rep sha3_new []"
  by (simp add: hasher_rep_def sha3_new_def sponge_rep_new)

lemma update_rep:
  assumes "hasher_rep h m"
  shows "\<exists>h'. update h d = Some (Inr h') \<and> hasher_rep h' (m @ d)"
  using assms sponge_absorb_rep [of "h_sponge h" m d] by (auto simp: hasher_rep_def update_def)

lemma updates_rep: "hasher_rep h m \<Longrightarrow> \<exists>h'. updates h cs = Some (Inr h') \<and> hasher_rep h' (m @ concat cs)"
proof (induction cs arbitrary: h m)
  case Nil
  then show ?case by simp
next
  case (Cons c cs)
  from update_rep [OF Cons.prems, of c] obtain h1 where h1: "update h c = Some (Inr h1)" "hasher_rep h1 (m @ c)" by blast
  from Cons.IH [OF h1(2)] h1(1) show ?case by auto
qed

lemma shake_absorbs_rep:
  "sponge_rep (x_sponge x) m \<Longrightarrow> x_phase x = Absorbing \<Longrightarrow>
     \<exists>x'. shake_absorbs x cs = Some (Inr x') \<and> sponge_rep (x_sponge x') (m @ concat cs) \<and> x_phase x' = Absorbing"
proof (induction cs arbitrary: x m)
  case Nil
  then show ?case by simp
next
  case (Cons c cs)
  from sponge_absorb_rep [OF Cons.prems(1), of c] obtain sp where
    sp: "sponge_absorb (x_sponge x) c = Some sp" "sponge_rep sp (m @ c)" by blast
  let ?x = "x\<lparr>x_sponge := sp\<rparr>"
  have "shake_absorb x c = Some (Inr ?x)" using sp(1) Cons.prems(2) by (simp add: shake_absorb_def)
  moreover from Cons.IH [of ?x "m @ c"] sp(2) Cons.prems(2) obtain x' where
    "shake_absorbs ?x cs = Some (Inr x')" "sponge_rep (x_sponge x') ((m @ c) @ concat cs)" "x_phase x' = Absorbing"
    by auto
  ultimately show ?case by simp
qed

lemma finalize_rep:
  assumes "hasher_rep h m"
  shows "\<exists>h'. finalize h = Some (Inr (sha3_spec m, h')) \<and> h_finalized h'"
proof -
  from assms have "sponge_rep (h_sponge h) m" by (simp add: hasher_rep_def)
  from sponge_pad_rep [OF this, of SHA3_DOMAIN] obtain sp where
    "sponge_pad SHA3_DOMAIN (h_sponge h) = Some sp"
    "sp_state sp = sponge_spec keccak_new (padded SHA3_DOMAIN m)" by blast
  then show ?thesis using assms by (simp add: finalize_def sha3_spec_def hasher_rep_def)
qed

lemma length_sha3_spec [simp]: "length (sha3_spec m) = SHA3_256_DIGEST_LEN"
  by (simp add: sha3_spec_def SHA3_256_DIGEST_LEN_def RATE_def)

lemma sha3_256_eq_spec: "sha3_256 m = Some (sha3_spec m)"
proof -
  from update_rep [OF hasher_rep_new, of m] obtain h where
    h: "update sha3_new m = Some (Inr h)" "hasher_rep h m" by auto
  from finalize_rep [OF h(2)] show ?thesis using h(1) by (auto simp: sha3_256_def)
qed

text \<open>
  C13. However a message is cut into \<open>update\<close> calls, the hasher never panics and never reports an
  error, and \<open>finalize\<close> returns the digest of the unbuffered sponge: the padded message absorbed
  block by block. The one-shot \<open>sha3_256\<close> returns the same 32 bytes. A finalized hasher refuses
  every further \<open>update\<close> and \<open>finalize\<close>.\<close>

theorem sha3_chunking_irrelevant:
  "\<exists>h h'. updates sha3_new chunks = Some (Inr h) \<and>
     finalize h = Some (Inr (sha3_spec (concat chunks), h')) \<and>
     sha3_256 (concat chunks) = Some (sha3_spec (concat chunks)) \<and>
     length (sha3_spec (concat chunks)) = 32 \<and>
     (\<forall>d. update h' d = Some (Inl AlreadyFinalized)) \<and> finalize h' = Some (Inl AlreadyFinalized)"
proof -
  from updates_rep [OF hasher_rep_new, of chunks] obtain h where
    h: "updates sha3_new chunks = Some (Inr h)" "hasher_rep h (concat chunks)" by auto
  from finalize_rep [OF h(2)] obtain h' where
    h': "finalize h = Some (Inr (sha3_spec (concat chunks), h'))" "h_finalized h'" by blast
  have "(\<forall>d. update h' d = Some (Inl AlreadyFinalized)) \<and> finalize h' = Some (Inl AlreadyFinalized)"
    using h'(2) by (simp add: update_def finalize_def)
  with h(1) h'(1) show ?thesis by (simp add: sha3_256_eq_spec SHA3_256_DIGEST_LEN_def)
qed

section \<open>Squeezing reads one stream\<close>

text \<open>Byte \<open>i\<close> of the output stream that starts at a sponge state.\<close>

definition stream_at :: "lanes \<Rightarrow> nat \<Rightarrow> u8" where
  "stream_at s i = keccak_extract ((permute ^^ (i div RATE)) s) RATE ! (i mod RATE)"

fun squeezes :: "shake256_xof \<Rightarrow> nat list \<Rightarrow> (u8 list list \<times> shake256_xof) option" where
  "squeezes x [] = Some ([], x)"
| "squeezes x (n # ns) = do {
     (out, x1) \<leftarrow> squeeze x n;
     (outs, x2) \<leftarrow> squeezes x1 ns;
     Some (out # outs, x2) }"

text \<open>The buffer holds block \<open>k\<close> of the stream.\<close>

definition block_at :: "lanes \<Rightarrow> nat \<Rightarrow> sponge \<Rightarrow> bool" where
  "block_at s k sp \<longleftrightarrow> sp_state sp = (permute ^^ k) s \<and> sp_buffer sp = keccak_extract (sp_state sp) RATE"

lemma stream_slice:
  assumes "block_at s k sp" "i \<le> j" "j \<le> RATE"
  shows "slice (sp_buffer sp) i j = Some (map (stream_at s) [k * RATE + i..<k * RATE + j])"
proof -
  have "take (j - i) (drop i (sp_buffer sp)) = map (stream_at s) [k * RATE + i..<k * RATE + j]"
  proof (rule nth_equalityI)
    show "length (take (j - i) (drop i (sp_buffer sp))) = length (map (stream_at s) [k * RATE + i..<k * RATE + j])"
      using assms by (simp add: block_at_def)
    fix n assume "n < length (take (j - i) (drop i (sp_buffer sp)))"
    then have n: "i + n < j" "i + n < RATE" using assms by (auto simp: block_at_def)
    then have "(k * RATE + (i + n)) div RATE = k" "(k * RATE + (i + n)) mod RATE = i + n"
      by (simp_all add: mod_mult_self3)
    then show "take (j - i) (drop i (sp_buffer sp)) ! n = map (stream_at s) [k * RATE + i..<k * RATE + j] ! n"
      using n assms by (simp add: block_at_def stream_at_def add.assoc)
  qed
  then show ?thesis using assms by (simp add: slice_def block_at_def)
qed

lemma map_upt_split: "a \<le> b \<Longrightarrow> b \<le> c \<Longrightarrow> map f [a..<b] @ map f [b..<c] = map f [a..<c]"
  by (metis le_Suc_ex map_append upt_add_eq_append)

lemma squeeze_loop_rep:
  assumes "block_at s k sp" "off \<le> RATE"
  shows "\<exists>k' sp' off'. squeeze_loop sp off n =
      Some (map (stream_at s) [k * RATE + off..<k * RATE + off + n], sp', off') \<and>
    block_at s k' sp' \<and> off' \<le> RATE \<and> k' * RATE + off' = k * RATE + off + n"
  using assms
proof (induction sp off n arbitrary: k rule: squeeze_loop.induct)
  case (1 sp off n)
  let ?p = "k * RATE + off"
  consider "n = 0" | "0 < n" "n \<le> RATE - off" | "RATE - off < n" by linarith
  then show ?case
  proof cases
    case 1
    have "squeeze_loop sp off 0 = Some ([], sp, off)" by (subst squeeze_loop.simps) simp
    with \<open>n = 0\<close> "1.prems" show ?thesis by (intro exI [of _ k] exI [of _ sp] exI [of _ off]) simp
  next
    case 2
    have "slice (sp_buffer sp) off (off + n) = Some (map (stream_at s) [?p..<?p + n])"
      using stream_slice [OF "1.prems"(1), of off "off + n"] 2 "1.prems"(2) by (simp add: add.assoc)
    then have "squeeze_loop sp off n = Some (map (stream_at s) [?p..<?p + n], sp, off + n)"
      using 2 "1.prems"(2) by (subst squeeze_loop.simps) simp
    then show ?thesis using 2 "1.prems" by (intro exI [of _ k] exI [of _ sp] exI [of _ "off + n"]) simp
  next
    case 3
    define sp' where "sp' = sp\<lparr>sp_state := permute (sp_state sp), sp_buffer := keccak_extract (permute (sp_state sp)) RATE\<rparr>"
    have b: "block_at s (Suc k) sp'" using "1.prems"(1) by (simp add: block_at_def sp'_def)
    have sl: "slice (sp_buffer sp) off RATE = Some (map (stream_at s) [?p..<Suc k * RATE])"
      using stream_slice [OF "1.prems"(1), of off RATE] "1.prems"(2) by (simp add: add.commute)
    from 3 "1.prems"(2) have u: "usub RATE off = Some (RATE - off)" "0 < n" "\<not> n \<le> RATE - off" by simp_all
    from "1.IH" [OF u(2,1,3) sl refl sp'_def b] obtain k' sp'' off'' where
      ih: "squeeze_loop sp' 0 (n - (RATE - off)) =
        Some (map (stream_at s) [Suc k * RATE..<Suc k * RATE + (n - (RATE - off))], sp'', off'')"
        "block_at s k' sp''" "off'' \<le> RATE" "k' * RATE + off'' = Suc k * RATE + (n - (RATE - off))"
      by auto
    have e: "Suc k * RATE + (n - (RATE - off)) = ?p + n" "?p \<le> Suc k * RATE" "Suc k * RATE \<le> ?p + n"
      using 3 "1.prems"(2) by auto
    have "squeeze_loop sp off n = Some (map (stream_at s) [?p..<?p + n], sp'', off'')"
      using u sl ih(1) e(1) map_upt_split [OF e(2,3), of "stream_at s"]
      by (subst squeeze_loop.simps) (simp add: Let_def sp'_def)
    with ih e show ?thesis by (intro exI [of _ k'] exI [of _ sp''] exI [of _ off'']) simp
  qed
qed

definition shake_spec :: "u8 list \<Rightarrow> lanes" where
  "shake_spec m = sponge_spec keccak_new (padded SHAKE_DOMAIN m)"

text \<open>A squeezing XOF that has returned \<open>n\<close> bytes of the stream from \<open>s\<close>.\<close>

definition squeezed :: "lanes \<Rightarrow> nat \<Rightarrow> shake256_xof \<Rightarrow> bool" where
  "squeezed s n x \<longleftrightarrow> x_phase x = Squeezing \<and> x_squeeze_offset x \<le> RATE \<and>
     (\<exists>k. block_at s k (x_sponge x) \<and> n = k * RATE + x_squeeze_offset x)"

lemma squeeze_squeezed:
  assumes "squeezed s m x"
  shows "\<exists>x'. squeeze x n = Some (map (stream_at s) [m..<m + n], x') \<and> squeezed s (m + n) x'"
proof -
  from assms obtain k where k: "block_at s k (x_sponge x)" "m = k * RATE + x_squeeze_offset x"
    "x_squeeze_offset x \<le> RATE" "x_phase x = Squeezing" by (auto simp: squeezed_def)
  from squeeze_loop_rep [OF k(1,3), of n] obtain k' sp' off' where
    "squeeze_loop (x_sponge x) (x_squeeze_offset x) n = Some (map (stream_at s) [m..<m + n], sp', off')"
    "block_at s k' sp'" "off' \<le> RATE" "k' * RATE + off' = m + n" by (auto simp: k(2))
  then show ?thesis using k(4) by (auto simp: squeeze_def squeezed_def)
qed

lemma squeeze_first:
  assumes "sponge_rep (x_sponge x) m" "x_phase x = Absorbing"
  shows "\<exists>x0. squeezed (shake_spec m) 0 x0 \<and> squeeze x n = squeeze x0 n"
proof -
  from sponge_pad_rep [OF assms(1), of SHAKE_DOMAIN] obtain sp where
    sp: "sponge_pad SHAKE_DOMAIN (x_sponge x) = Some sp" "sp_state sp = shake_spec m"
    by (auto simp: shake_spec_def)
  define x0 where "x0 = x\<lparr>x_sponge := sp\<lparr>sp_buffer := keccak_extract (sp_state sp) RATE\<rparr>,
    x_phase := Squeezing, x_squeeze_offset := 0\<rparr>"
  have "block_at (shake_spec m) 0 (x_sponge x0)" using sp(2) by (simp add: block_at_def x0_def)
  then have "squeezed (shake_spec m) 0 x0" by (auto simp: squeezed_def x0_def)
  moreover have "finalize_absorb x = Some x0" using sp(1) by (simp add: finalize_absorb_def x0_def)
  then have "squeeze x n = squeeze x0 n" using assms(2) by (simp add: squeeze_def x0_def)
  ultimately show ?thesis by blast
qed

lemma squeezes_squeezed:
  "squeezed s m x \<Longrightarrow> \<exists>outs x'. squeezes x ns = Some (outs, x') \<and> map length outs = ns \<and>
     concat outs = map (stream_at s) [m..<m + sum_list ns] \<and> squeezed s (m + sum_list ns) x'"
proof (induction ns arbitrary: m x)
  case Nil
  then show ?case by simp
next
  case (Cons n ns)
  from squeeze_squeezed [OF Cons.prems, of n] obtain x1 where
    x1: "squeeze x n = Some (map (stream_at s) [m..<m + n], x1)" "squeezed s (m + n) x1" by blast
  from Cons.IH [OF x1(2)] obtain outs x2 where
    "squeezes x1 ns = Some (outs, x2)" "map length outs = ns"
    "concat outs = map (stream_at s) [m + n..<m + n + sum_list ns]" "squeezed s (m + n + sum_list ns) x2"
    by blast
  then show ?case
    using x1(1) map_upt_split [of m "m + n" "m + n + sum_list ns" "stream_at s"] by (simp add: add.assoc)
qed

text \<open>
  C28. The extendable output is one stream of bytes. However the input is cut into \<open>absorb\<close> calls,
  any sequence of \<open>squeeze\<close> calls returns without a panic, each call returns exactly the
  number of bytes it is asked for, and together they are the first bytes of the stream that the
  padded input defines, across block boundaries; the one-shot \<open>shake256\<close> returns the same
  bytes. Once squeezing, the state refuses every further \<open>absorb\<close>.\<close>

theorem shake_squeeze_is_a_stream:
  "\<exists>x outs x'. shake_absorbs shake_new chunks = Some (Inr x) \<and> squeezes x (n # ns) = Some (outs, x') \<and>
     map length outs = n # ns \<and>
     concat outs = map (stream_at (shake_spec (concat chunks))) [0..<sum_list (n # ns)] \<and>
     shake256 (concat chunks) (sum_list (n # ns)) = Some (concat outs) \<and>
     (\<forall>d. shake_absorb x' d = Some (Inl Sha3InvalidState))"
proof -
  have new: "sponge_rep (x_sponge shake_new) []" "x_phase shake_new = Absorbing"
    by (simp_all add: shake_new_def sponge_rep_new)
  from shake_absorbs_rep [OF new, of chunks] obtain x where
    x: "shake_absorbs shake_new chunks = Some (Inr x)" "sponge_rep (x_sponge x) (concat chunks)"
      "x_phase x = Absorbing" by auto
  let ?s = "shake_spec (concat chunks)"
  from squeeze_first [OF x(2,3), of n] obtain x0 where x0: "squeezed ?s 0 x0" "squeeze x n = squeeze x0 n" by blast
  then have "squeezes x (n # ns) = squeezes x0 (n # ns)" by simp
  moreover from squeezes_squeezed [OF x0(1), of "n # ns"] obtain outs x' where
    o: "squeezes x0 (n # ns) = Some (outs, x')" "map length outs = n # ns"
      "concat outs = map (stream_at ?s) [0..<sum_list (n # ns)]" "squeezed ?s (sum_list (n # ns)) x'"
    by (auto simp del: squeezes.simps)
  moreover have "shake_absorb x' d = Some (Inl Sha3InvalidState)" for d
    using o(4) by (simp add: squeezed_def shake_absorb_def)
  moreover from shake_absorbs_rep [OF new, of "[concat chunks]"] obtain y where
    y: "shake_absorb shake_new (concat chunks) = Some (Inr y)" "sponge_rep (x_sponge y) (concat chunks)"
      "x_phase y = Absorbing" by (auto split: sum.splits bind_splits)
  moreover from squeeze_first [OF y(2,3), of "sum_list (n # ns)"] squeeze_squeezed [of ?s 0 _ "sum_list (n # ns)"]
  have "\<exists>y'. squeeze y (sum_list (n # ns)) = Some (map (stream_at ?s) [0..<sum_list (n # ns)], y')"
    by (metis add_0)
  ultimately show ?thesis using x(1) by (auto simp: shake256_def simp del: squeezes.simps)
qed

end
