(* ===== verification/Csprng.thy ===== *)
theory Csprng
  imports Sha3 Mem_Types
begin

text \<open>
  The random number generator of \<open>security/src/crypto/csprng.rs\<close>: seeding, generation and
  reseeding on top of the extendable-output function of theory \<open>Sha3\<close>, and the seeding from the
  hardware, whose answers are an argument. The main result is that the generator refines an ideal
  one that reads consecutive bytes of one stream per seed.\<close>

section \<open>State\<close>

definition CSPRNG_SEED_LEN :: nat where
  "CSPRNG_SEED_LEN = 32"

definition CSPRNG_RESEED_INTERVAL :: nat where
  "CSPRNG_RESEED_INTERVAL = 2 ^ 20"

definition RESEED_STATE_BYTES :: nat where
  "RESEED_STATE_BYTES = 64"

datatype csprng_error = InvalidSeedLength | ReseedRequired | ZeroLength | NotSeeded

text \<open>A seed is an array of 32 bytes.\<close>

type_synonym seed_bytes = "u8 list"

definition seed_from_slice :: "u8 list \<Rightarrow> (csprng_error, seed_bytes) result" where
  "seed_from_slice bytes = (if length bytes \<noteq> CSPRNG_SEED_LEN then Inl InvalidSeedLength else Inr bytes)"

record csprng =
  rng_seeded :: bool
  rng_bytes_generated :: nat
  rng_xof :: shake256_xof

definition csprng_new :: csprng where
  "csprng_new = \<lparr>rng_seeded = False, rng_bytes_generated = 0, rng_xof = shake_new\<rparr>"

definition SEED_DOMAIN :: "u8 list" where
  "SEED_DOMAIN = ascii ''SmallAIOS-CSPRNG-v1''"

definition RESEED_DOMAIN :: "u8 list" where
  "RESEED_DOMAIN = ascii ''SmallAIOS-CSPRNG-reseed-v1''"

text \<open>\<open>expect\<close>: an error is a panic.\<close>

definition expect_ok :: "('e, 'a) result option \<Rightarrow> 'a option" where
  "expect_ok r = do { v \<leftarrow> r; case v of Inl _ \<Rightarrow> None | Inr x \<Rightarrow> Some x }"

section \<open>Operations\<close>

definition csprng_seed :: "csprng \<Rightarrow> seed_bytes \<Rightarrow> csprng option" where
  "csprng_seed r sd = do {
     x1 \<leftarrow> expect_ok (shake_absorb shake_new SEED_DOMAIN);
     x2 \<leftarrow> expect_ok (shake_absorb x1 sd);
     Some (r\<lparr>rng_xof := x2, rng_seeded := True, rng_bytes_generated := 0\<rparr>) }"

text \<open>
  One word of the x86-64 seed: \<open>rdrand\<close> is retried while the carry flag is clear, ten times at
  most, and a word of zeros is taken after that. \<open>hw i\<close> is the value and the carry flag of the
  \<open>i\<close>-th execution of the instruction.\<close>

function rdrand_retry :: "(nat \<Rightarrow> u64 \<times> bool) \<Rightarrow> nat \<Rightarrow> nat \<Rightarrow> u64 \<times> nat" where
  "rdrand_retry hw attempts i =
     (if snd (hw i) then (fst (hw i), Suc i)
      else if Suc attempts \<ge> 10 then (0, Suc i)
      else rdrand_retry hw (Suc attempts) (Suc i))"
  by pat_completeness auto
termination by (relation "measure (\<lambda>(hw, attempts, i). 10 - attempts)") auto

declare rdrand_retry.simps [simp del]

primrec rdrand_words :: "(nat \<Rightarrow> u64 \<times> bool) \<Rightarrow> nat \<Rightarrow> nat \<Rightarrow> u8 list" where
  "rdrand_words hw i 0 = []"
| "rdrand_words hw i (Suc n) = (case rdrand_retry hw 0 i of (v, j) \<Rightarrow> to_le_bytes 8 v @ rdrand_words hw j n)"

text \<open>The seed on AArch64 without an operating system: zeros unless the register says that \<open>RNDR\<close> exists.\<close>

definition rndr_seed :: "u64 \<Rightarrow> (nat \<Rightarrow> u64) \<Rightarrow> u8 list" where
  "rndr_seed id_isar0 rndr =
     (if and (drop_bit 60 id_isar0) 0xF \<noteq> 0 then concat (map (\<lambda>i. to_le_bytes 8 (rndr i)) [0..<4])
      else replicate CSPRNG_SEED_LEN 0)"

text \<open>The sources of the hardware seed. On a hosted AArch64 system the operating system either fills
  the buffer or fails and leaves the zeros; \<open>NoRng\<close> stands for every other target.\<close>

datatype rng_target = X86Rdrand "nat \<Rightarrow> u64 \<times> bool" | Aarch64Rndr u64 "nat \<Rightarrow> u64" | Aarch64Hosted "seed_bytes option" | NoRng

definition hw_seed :: "rng_target \<Rightarrow> seed_bytes" where
  "hw_seed t = (case t of
     X86Rdrand hw \<Rightarrow> rdrand_words hw 0 4
   | Aarch64Rndr ident rndr \<Rightarrow> rndr_seed ident rndr
   | Aarch64Hosted e \<Rightarrow> (case e of Some bytes \<Rightarrow> bytes | None \<Rightarrow> replicate CSPRNG_SEED_LEN 0)
   | NoRng \<Rightarrow> replicate CSPRNG_SEED_LEN 0)"

definition seed_from_hardware :: "rng_target \<Rightarrow> csprng \<Rightarrow> csprng option" where
  "seed_from_hardware t r = csprng_seed r (hw_seed t)"

definition csprng_generate :: "bool \<Rightarrow> csprng \<Rightarrow> nat \<Rightarrow> (csprng_error, u8 list \<times> csprng) result option" where
  "csprng_generate checks r out_len =
     (if \<not> rng_seeded r then Some (Inl NotSeeded)
      else if out_len = 0 then Some (Inl ZeroLength)
      else if rng_bytes_generated r \<ge> CSPRNG_RESEED_INTERVAL then Some (Inl ReseedRequired)
      else do {
        (out, x) \<leftarrow> squeeze (rng_xof r) out_len;
        g \<leftarrow> prof_add 64 checks (rng_bytes_generated r) out_len;
        Some (Inr (out, r\<lparr>rng_xof := x, rng_bytes_generated := g\<rparr>)) })"

definition csprng_reseed :: "csprng \<Rightarrow> seed_bytes \<Rightarrow> (csprng_error, csprng) result option" where
  "csprng_reseed r entropy =
     (if \<not> rng_seeded r then Some (Inl NotSeeded)
      else do {
        (old_state, _) \<leftarrow> squeeze (rng_xof r) RESEED_STATE_BYTES;
        x1 \<leftarrow> expect_ok (shake_absorb shake_new RESEED_DOMAIN);
        x2 \<leftarrow> expect_ok (shake_absorb x1 old_state);
        x3 \<leftarrow> expect_ok (shake_absorb x2 entropy);
        Some (Inr (r\<lparr>rng_xof := x3, rng_bytes_generated := 0\<rparr>)) })"

definition needs_reseed :: "csprng \<Rightarrow> bool" where
  "needs_reseed r \<longleftrightarrow> rng_bytes_generated r \<ge> CSPRNG_RESEED_INTERVAL"

section \<open>The ideal generator\<close>

text \<open>
  A seeded generator is a message, which fixes a stream of bytes, and a position in the stream.
  Generation reads the next bytes; reseeding starts the stream of a new message that contains the
  next 64 bytes of the old stream and the new entropy.\<close>

datatype ideal_rng = Unseeded | Streaming "u8 list" nat

datatype rng_op = OpSeed seed_bytes | OpGenerate nat | OpReseed seed_bytes

definition stream_bytes :: "u8 list \<Rightarrow> nat \<Rightarrow> nat \<Rightarrow> u8 list" where
  "stream_bytes m p n = map (stream_at (shake_spec m)) [p..<p + n]"

fun ideal_step :: "rng_op \<Rightarrow> ideal_rng \<Rightarrow> (csprng_error, u8 list) result \<times> ideal_rng" where
  "ideal_step (OpSeed sd) i = (Inr [], Streaming (SEED_DOMAIN @ sd) 0)"
| "ideal_step (OpGenerate n) Unseeded = (Inl NotSeeded, Unseeded)"
| "ideal_step (OpReseed sd) Unseeded = (Inl NotSeeded, Unseeded)"
| "ideal_step (OpGenerate n) (Streaming m p) =
     (if n = 0 then (Inl ZeroLength, Streaming m p)
      else if p \<ge> CSPRNG_RESEED_INTERVAL then (Inl ReseedRequired, Streaming m p)
      else (Inr (stream_bytes m p n), Streaming m (p + n)))"
| "ideal_step (OpReseed sd) (Streaming m p) =
     (Inr [], Streaming (RESEED_DOMAIN @ stream_bytes m p RESEED_STATE_BYTES @ sd) 0)"

primrec ideal_run :: "rng_op list \<Rightarrow> ideal_rng \<Rightarrow> (csprng_error, u8 list) result list \<times> ideal_rng" where
  "ideal_run [] i = ([], i)"
| "ideal_run (x # xs) i = (case ideal_step x i of (a, j) \<Rightarrow> case ideal_run xs j of (as, k) \<Rightarrow> (a # as, k))"

text \<open>A call of the generator, with what the caller sees of it.\<close>

fun rng_step :: "bool \<Rightarrow> rng_op \<Rightarrow> csprng \<Rightarrow> ((csprng_error, u8 list) result \<times> csprng) option" where
  "rng_step checks (OpSeed sd) r = map_option (Pair (Inr [])) (csprng_seed r sd)"
| "rng_step checks (OpGenerate n) r = map_option (\<lambda>v. case v of Inl e \<Rightarrow> (Inl e, r) | Inr (out, r') \<Rightarrow> (Inr out, r')) (csprng_generate checks r n)"
| "rng_step checks (OpReseed sd) r = map_option (\<lambda>v. case v of Inl e \<Rightarrow> (Inl e, r) | Inr r' \<Rightarrow> (Inr [], r')) (csprng_reseed r sd)"

primrec rng_run :: "bool \<Rightarrow> rng_op list \<Rightarrow> csprng \<Rightarrow> ((csprng_error, u8 list) result list \<times> csprng) option" where
  "rng_run checks [] r = Some ([], r)"
| "rng_run checks (x # xs) r = do {
     (a, r1) \<leftarrow> rng_step checks x r;
     (as, r2) \<leftarrow> rng_run checks xs r1;
     Some (a # as, r2) }"

section \<open>The simulation\<close>

text \<open>The function is at byte \<open>p\<close> of the stream of \<open>m\<close>.\<close>

definition xof_at :: "u8 list \<Rightarrow> nat \<Rightarrow> shake256_xof \<Rightarrow> bool" where
  "xof_at m p x \<longleftrightarrow> (p = 0 \<and> x_phase x = Absorbing \<and> sponge_rep (x_sponge x) m) \<or> squeezed (shake_spec m) p x"

lemma squeeze_xof_at:
  assumes "xof_at m p x"
  shows "\<exists>x'. squeeze x n = Some (stream_bytes m p n, x') \<and> xof_at m (p + n) x'"
  using assms squeeze_first [of x m n] squeeze_squeezed [of "shake_spec m" _ _ n]
  unfolding xof_at_def stream_bytes_def by (metis add_0)

lemma absorb_step:
  assumes "sponge_rep (x_sponge x) m" "x_phase x = Absorbing"
  shows "\<exists>x'. expect_ok (shake_absorb x d) = Some x' \<and> sponge_rep (x_sponge x') (m @ d) \<and> x_phase x' = Absorbing"
proof -
  from sponge_absorb_rep [OF assms(1), of d] obtain sp where "sponge_absorb (x_sponge x) d = Some sp" "sponge_rep sp (m @ d)" by blast
  with assms(2) show ?thesis by (simp add: shake_absorb_def expect_ok_def)
qed

lemma shake_new_rep: "sponge_rep (x_sponge shake_new) []" "x_phase shake_new = Absorbing"
  by (simp_all add: shake_new_def sponge_rep_new)

fun rng_rep :: "csprng \<Rightarrow> ideal_rng \<Rightarrow> bool" where
  "rng_rep r Unseeded \<longleftrightarrow> \<not> rng_seeded r"
| "rng_rep r (Streaming m p) \<longleftrightarrow> rng_seeded r \<and> rng_bytes_generated r = p \<and> xof_at m p (rng_xof r)"

lemma csprng_seed_rep: "\<exists>r'. csprng_seed r sd = Some r' \<and> rng_rep r' (Streaming (SEED_DOMAIN @ sd) 0)"
proof -
  from absorb_step [OF shake_new_rep, of SEED_DOMAIN] obtain x1 where
    x1: "expect_ok (shake_absorb shake_new SEED_DOMAIN) = Some x1" "sponge_rep (x_sponge x1) SEED_DOMAIN" "x_phase x1 = Absorbing" by auto
  from absorb_step [OF x1(2,3), of sd] x1(1) show ?thesis by (auto simp: csprng_seed_def xof_at_def)
qed

lemma csprng_generate_rep:
  assumes "rng_rep r (Streaming m p)" "0 < n" "p < CSPRNG_RESEED_INTERVAL" "n < 2 ^ 63"
  shows "\<exists>r'. csprng_generate checks r n = Some (Inr (stream_bytes m p n, r')) \<and> rng_rep r' (Streaming m (p + n))"
proof -
  from squeeze_xof_at [of m p "rng_xof r" n] assms(1) obtain x' where
    x': "squeeze (rng_xof r) n = Some (stream_bytes m p n, x')" "xof_at m (p + n) x'" by auto
  moreover have "p + n < 2 ^ 64" using assms(3,4) by (simp add: CSPRNG_RESEED_INTERVAL_def)
  ultimately show ?thesis using assms by (auto simp: csprng_generate_def)
qed

lemma csprng_reseed_rep:
  assumes "rng_rep r (Streaming m p)"
  shows "\<exists>r'. csprng_reseed r sd = Some (Inr r') \<and>
    rng_rep r' (Streaming (RESEED_DOMAIN @ stream_bytes m p RESEED_STATE_BYTES @ sd) 0)"
proof -
  let ?o = "stream_bytes m p RESEED_STATE_BYTES"
  from squeeze_xof_at [of m p "rng_xof r" RESEED_STATE_BYTES] assms obtain x' where
    x': "squeeze (rng_xof r) RESEED_STATE_BYTES = Some (?o, x')" by auto
  from absorb_step [OF shake_new_rep, of RESEED_DOMAIN] obtain x1 where
    x1: "expect_ok (shake_absorb shake_new RESEED_DOMAIN) = Some x1" "sponge_rep (x_sponge x1) RESEED_DOMAIN" "x_phase x1 = Absorbing" by auto
  from absorb_step [OF x1(2,3), of ?o] obtain x2 where
    x2: "expect_ok (shake_absorb x1 ?o) = Some x2" "sponge_rep (x_sponge x2) (RESEED_DOMAIN @ ?o)" "x_phase x2 = Absorbing" by auto
  from absorb_step [OF x2(2,3), of sd] x' x1(1) x2(1) assms show ?thesis by (auto simp: csprng_reseed_def xof_at_def)
qed

lemma rng_step_rep:
  assumes "rng_rep r i" "\<And>n. x = OpGenerate n \<Longrightarrow> n < 2 ^ 63"
  shows "\<exists>r'. rng_step checks x r = Some (fst (ideal_step x i), r') \<and> rng_rep r' (snd (ideal_step x i))"
proof (cases x)
  case (OpSeed sd)
  then show ?thesis using csprng_seed_rep [of r sd] by auto
next
  case (OpGenerate n)
  show ?thesis
  proof (cases i)
    case Unseeded
    then show ?thesis using assms(1) OpGenerate by (simp add: csprng_generate_def)
  next
    case (Streaming m p)
    then have r: "rng_rep r (Streaming m p)" using assms(1) by simp
    consider "n = 0" | "p \<ge> CSPRNG_RESEED_INTERVAL" "0 < n" | "0 < n" "p < CSPRNG_RESEED_INTERVAL" by linarith
    then show ?thesis
    proof cases
      case 3
      from csprng_generate_rep [OF r this assms(2) [OF OpGenerate], of checks] 3 show ?thesis by (auto simp: OpGenerate Streaming)
    qed (use r in \<open>simp_all add: OpGenerate Streaming csprng_generate_def\<close>)
  qed
next
  case (OpReseed sd)
  show ?thesis
  proof (cases i)
    case Unseeded
    then show ?thesis using assms(1) OpReseed by (simp add: csprng_reseed_def)
  next
    case (Streaming m p)
    with assms(1) csprng_reseed_rep [of r m p sd] show ?thesis by (auto simp: OpReseed)
  qed
qed



section \<open>Hardware that does not answer\<close>

lemma rdrand_retry_fails: "\<forall>j. \<not> snd (hw j) \<Longrightarrow> fst (rdrand_retry hw a i) = 0"
  by (induction hw a i rule: rdrand_retry.induct) (subst rdrand_retry.simps, simp)

lemma rdrand_words_fail: "\<forall>j. \<not> snd (hw j) \<Longrightarrow> rdrand_words hw i n = replicate (8 * n) 0"
proof (induction n arbitrary: i)
  case (Suc n)
  have z: "to_le_bytes 8 (0 :: u64) = replicate 8 0" by (simp add: to_le_bytes_def map_replicate_trivial)
  from Suc z rdrand_retry_fails [OF Suc.prems, of 0 i] show ?case by (auto simp: replicate_add split: prod.splits)
qed simp

lemma length_hw_seed: "(\<And>e. t = Aarch64Hosted (Some e) \<Longrightarrow> length e = CSPRNG_SEED_LEN) \<Longrightarrow> length (hw_seed t) = CSPRNG_SEED_LEN"
proof -
  have "length (rdrand_words hw i n) = 8 * n" for hw i n
    by (induction n arbitrary: i) (auto split: prod.splits)
  then show "(\<And>e. t = Aarch64Hosted (Some e) \<Longrightarrow> length e = CSPRNG_SEED_LEN) \<Longrightarrow> ?thesis"
    by (auto simp: hw_seed_def rndr_seed_def CSPRNG_SEED_LEN_def upt_rec split: rng_target.splits option.splits)
qed

text \<open>
  Hardware that never delivers a random word is not reported. Where every \<open>rdrand\<close> fails,
  where the processor has no \<open>RNDR\<close>, where the operating system refuses, and on every other
  target, \<open>seed_from_hardware\<close> succeeds with the seed of 32 zeros, and the first bytes the generator
  gives are a constant that does not depend on the machine.\<close>

theorem failed_hardware_seeds_with_zeros:
  assumes "t = NoRng \<or> t = Aarch64Hosted None \<or> (\<exists>rndr. t = Aarch64Rndr 0 rndr) \<or> (\<exists>hw. t = X86Rdrand hw \<and> (\<forall>i. \<not> snd (hw i)))"
    and "0 < n" "n < 2 ^ 63"
  shows "\<exists>r r'. seed_from_hardware t csprng_new = Some r \<and>
    csprng_generate checks r n = Some (Inr (stream_bytes (SEED_DOMAIN @ replicate 32 0) 0 n, r'))"
proof -
  have "hw_seed t = replicate 32 0"
    using assms(1) rdrand_words_fail [of _ 0 4] by (auto simp: hw_seed_def rndr_seed_def CSPRNG_SEED_LEN_def)
  moreover from csprng_seed_rep [of csprng_new "hw_seed t"] obtain r where
    "csprng_seed csprng_new (hw_seed t) = Some r" "rng_rep r (Streaming (SEED_DOMAIN @ hw_seed t) 0)" by blast
  ultimately show ?thesis using csprng_generate_rep [of r _ 0 n checks] assms(2,3)
    by (auto simp: seed_from_hardware_def CSPRNG_RESEED_INTERVAL_def)
qed

theorem failed_hardware_seeds_with_zeros_witness:
  "\<exists>r r'. seed_from_hardware (X86Rdrand (\<lambda>i. (of_nat i, False))) csprng_new = Some r \<and>
    csprng_generate False r 16 = Some (Inr (stream_bytes (SEED_DOMAIN @ replicate 32 0) 0 16, r'))"
  using failed_hardware_seeds_with_zeros [of "X86Rdrand (\<lambda>i. (of_nat i, False))" 16 False] by simp

end
