(* ===== verification/Ring.thy ===== *)
theory Ring
  imports Prelude
begin

text \<open>
  Circular buffers. Several components (the run queues of the scheduler, the audit ring, the
  batch signing queue) keep a sequence in a fixed array with a start index and a length;
  \<open>ring_list xs h c\<close> is the sequence of \<open>c\<close> elements from index \<open>h\<close>, wrapping at the end of the
  array. The lemmas say how the writes and index updates of the sources act on it.
\<close>

definition ring_list :: "'a list \<Rightarrow> nat \<Rightarrow> nat \<Rightarrow> 'a list" where
  "ring_list xs h c = map (\<lambda>k. xs ! ((h + k) mod length xs)) [0..<c]"

lemma length_ring_list [simp]: "length (ring_list xs h c) = c"
  by (simp add: ring_list_def)

lemma nth_ring_list [simp]: "k < c \<Longrightarrow> ring_list xs h c ! k = xs ! ((h + k) mod length xs)"
  by (simp add: ring_list_def)

lemma ring_list_0 [simp]: "ring_list xs h 0 = []"
  by (simp add: ring_list_def)

lemma ring_list_snoc:
  "ring_list xs h (Suc c) = ring_list xs h c @ [xs ! ((h + c) mod length xs)]"
  by (simp add: ring_list_def)

lemma ring_list_Cons:
  assumes "h < length xs"
  shows "ring_list xs h (Suc c) = xs ! h # ring_list xs (Suc h mod length xs) c"
proof (rule nth_equalityI)
  fix k assume "k < length (ring_list xs h (Suc c))"
  then show "ring_list xs h (Suc c) ! k = (xs ! h # ring_list xs (Suc h mod length xs) c) ! k"
    using assms by (cases k) (simp_all add: mod_add_left_eq del: upt_Suc)
qed simp

lemma ring_index_inj:
  assumes "(h + j) mod n = (h + k) mod n" "j < n" "k < n"
  shows "j = (k::nat)"
  using assms
proof (induction j k rule: linorder_wlog)
  case (le j k)
  then have "n dvd (h + k) - (h + j)" by (subst mod_eq_dvd_iff_nat [symmetric]) simp_all
  then have "n dvd k - j" by simp
  with le show ?case by (metis diff_is_0_eq' dvd_imp_le less_imp_diff_less linorder_not_less neq0_conv
        diffs0_imp_equal)
next
  case (sym j k)
  then show ?case by simp
qed

lemma ring_pred:
  fixes N :: nat
  assumes "0 < N"
  shows "(if (h + Suc k) mod N = 0 then N - 1 else (h + Suc k) mod N - 1) = (h + k) mod N"
  using mod_Suc [of "h + k" N] assms by (auto split: if_splits)

text \<open>A write outside the sequence leaves it alone.\<close>

lemma ring_list_upd_outside:
  assumes "h < length xs" "c \<le> k" "k < length xs"
  shows "ring_list (xs[(h + k) mod length xs := v]) h c = ring_list xs h c"
proof (rule nth_equalityI)
  fix j assume "j < length (ring_list (xs[(h + k) mod length xs := v]) h c)"
  then have "j < c" by simp
  with assms have "(h + j) mod length xs \<noteq> (h + k) mod length xs"
    using ring_index_inj [of h j "length xs" k] by auto
  with \<open>j < c\<close> show "ring_list (xs[(h + k) mod length xs := v]) h c ! j = ring_list xs h c ! j"
    by simp
qed simp

lemma ring_list_push:
  assumes "h < length xs" "c < length xs"
  shows "ring_list (xs[(h + c) mod length xs := v]) h (Suc c) = ring_list xs h c @ [v]"
proof -
  from assms have "(h + c) mod length xs < length xs" by (intro mod_less_divisor) linarith
  then show ?thesis using ring_list_upd_outside [OF assms(1) _ assms(2), of c v]
    by (simp add: ring_list_snoc)
qed

text \<open>Overwriting the oldest element of a full buffer.\<close>

lemma ring_list_overwrite:
  assumes "h < length xs"
  shows "ring_list (xs[h := v]) (Suc h mod length xs) (length xs) = tl (ring_list xs h (length xs)) @ [v]"
proof -
  let ?n = "length xs" and ?ys = "xs[h := v]" and ?h = "Suc h mod length xs"
  obtain m where m: "?n = Suc m" using assms by (cases ?n) auto
  have last: "(?h + m) mod ?n = h"
  proof -
    have "(?h + m) mod ?n = (h + Suc m) mod Suc m" by (simp add: m mod_simps)
    then show ?thesis using assms unfolding mod_add_self2 by (simp add: m)
  qed
  have "tl (ring_list xs h (Suc m)) = ring_list xs ?h m"
    using ring_list_Cons [OF assms, of m] by simp
  moreover have "ring_list ?ys ?h (Suc m) = ring_list xs ?h m @ [v]"
    using ring_list_push [of ?h xs m v] assms last by (simp add: m)
  ultimately show ?thesis by (simp add: m)
qed

end
