(* ===== verification/Run_Queue.thy ===== *)
theory Run_Queue
  imports Ring "HOL-Library.Multiset"
begin

text \<open>
  Scheduling classes and the per-core run queue (\<open>kernel/src/sched/task.rs\<close>,
  \<open>kernel/src/sched/executor.rs\<close>): three circular buffers of task ids, one per class. The
  abstract run queue is one list per class; \<open>push\<close>, \<open>pop\<close> and \<open>steal_inference\<close> are shown to
  refine appending to a list, taking the head of the first non-empty list and taking the last
  element of the inference list.
\<close>

section \<open>The model\<close>

type_synonym task_id = u64

datatype sched_class = SystemClass | IpcClass | InferenceClass

fun priority :: "sched_class \<Rightarrow> nat" where
  "priority SystemClass = 0"
| "priority IpcClass = 1"
| "priority InferenceClass = 2"

definition MAX_QUEUE_SIZE :: nat where
  "MAX_QUEUE_SIZE = 256"

record run_queue =
  rq_queues :: "task_id list list"
  rq_heads :: "nat list"
  rq_tails :: "nat list"
  rq_counts :: "nat list"
  rq_core_id :: u32

definition rq_new :: "u32 \<Rightarrow> run_queue" where
  "rq_new core = \<lparr>rq_queues = replicate 3 (replicate MAX_QUEUE_SIZE 0), rq_heads = replicate 3 0,
     rq_tails = replicate 3 0, rq_counts = replicate 3 0, rq_core_id = core\<rparr>"

definition rq_push :: "run_queue \<Rightarrow> sched_class \<Rightarrow> task_id \<Rightarrow> (bool \<times> run_queue) option" where
  "rq_push rq class task_id = (let q = priority class in do {
     count \<leftarrow> idx (rq_counts rq) q;
     if count \<ge> MAX_QUEUE_SIZE then Some (False, rq)
     else do {
       tail \<leftarrow> idx (rq_tails rq) q;
       buf \<leftarrow> idx (rq_queues rq) q;
       buf' \<leftarrow> idx_upd buf tail task_id;
       qs \<leftarrow> idx_upd (rq_queues rq) q buf';
       ts \<leftarrow> idx_upd (rq_tails rq) q ((tail + 1) mod MAX_QUEUE_SIZE);
       cs \<leftarrow> idx_upd (rq_counts rq) q (count + 1);
       Some (True, rq\<lparr>rq_queues := qs, rq_tails := ts, rq_counts := cs\<rparr>) } })"

definition class_of_index :: "nat \<Rightarrow> sched_class" where
  "class_of_index q = (if q = 0 then SystemClass else if q = 1 then IpcClass else InferenceClass)"

fun pop_loop :: "nat list \<Rightarrow> run_queue \<Rightarrow> ((sched_class \<times> task_id) option \<times> run_queue) option" where
  "pop_loop [] rq = Some (None, rq)"
| "pop_loop (q # qs) rq = do {
     count \<leftarrow> idx (rq_counts rq) q;
     if count > 0 then do {
       head \<leftarrow> idx (rq_heads rq) q;
       buf \<leftarrow> idx (rq_queues rq) q;
       task_id \<leftarrow> idx buf head;
       hs \<leftarrow> idx_upd (rq_heads rq) q ((head + 1) mod MAX_QUEUE_SIZE);
       cs \<leftarrow> idx_upd (rq_counts rq) q (count - 1);
       Some (Some (class_of_index q, task_id), rq\<lparr>rq_heads := hs, rq_counts := cs\<rparr>) }
     else pop_loop qs rq }"

definition rq_pop :: "run_queue \<Rightarrow> ((sched_class \<times> task_id) option \<times> run_queue) option" where
  "rq_pop rq = pop_loop [0..<3] rq"

definition rq_steal_inference :: "run_queue \<Rightarrow> (task_id option \<times> run_queue) option" where
  "rq_steal_inference rq = (let q = priority InferenceClass in do {
     count \<leftarrow> idx (rq_counts rq) q;
     if count = 0 then Some (None, rq)
     else do {
       tail \<leftarrow> idx (rq_tails rq) q;
       (let tail' = (if tail = 0 then MAX_QUEUE_SIZE - 1 else tail - 1) in do {
         ts \<leftarrow> idx_upd (rq_tails rq) q tail';
         buf \<leftarrow> idx (rq_queues rq) q;
         task_id \<leftarrow> idx buf tail';
         cs \<leftarrow> idx_upd (rq_counts rq) q (count - 1);
         Some (Some task_id, rq\<lparr>rq_tails := ts, rq_counts := cs\<rparr>) }) } })"

definition rq_total_count :: "run_queue \<Rightarrow> nat option" where
  "rq_total_count rq = do {
     a \<leftarrow> idx (rq_counts rq) 0; b \<leftarrow> idx (rq_counts rq) 1; c \<leftarrow> idx (rq_counts rq) 2;
     Some (a + b + c) }"

definition rq_count :: "run_queue \<Rightarrow> sched_class \<Rightarrow> nat option" where
  "rq_count rq class = idx (rq_counts rq) (priority class)"

fun higher_loop :: "nat list \<Rightarrow> run_queue \<Rightarrow> bool option" where
  "higher_loop [] rq = Some False"
| "higher_loop (q # qs) rq = do {
     c \<leftarrow> idx (rq_counts rq) q;
     if c > 0 then Some True else higher_loop qs rq }"

definition has_higher_priority_than :: "run_queue \<Rightarrow> sched_class \<Rightarrow> bool option" where
  "has_higher_priority_than rq class = higher_loop [0..<priority class] rq"

definition has_system_tasks :: "run_queue \<Rightarrow> bool option" where
  "has_system_tasks rq = map_option (\<lambda>c. c > 0) (idx (rq_counts rq) 0)"

definition has_ipc_tasks :: "run_queue \<Rightarrow> bool option" where
  "has_ipc_tasks rq = map_option (\<lambda>c. c > 0) (idx (rq_counts rq) 1)"

definition should_continue_inference :: "run_queue \<Rightarrow> bool option" where
  "should_continue_inference rq = map_option Not (has_higher_priority_than rq InferenceClass)"

section \<open>The interface of a run queue\<close>

text \<open>
  \<open>view s q\<close> is the list of waiting tasks of priority \<open>q\<close> (0 is the highest), of at most \<open>cap\<close>
  elements. A scheduler built on these laws neither loses nor duplicates a task.
\<close>

locale run_queue_ops =
  fixes inv :: "'s \<Rightarrow> bool"
    and view :: "'s \<Rightarrow> nat \<Rightarrow> 'i list"
    and cap :: nat
    and push :: "'s \<Rightarrow> sched_class \<Rightarrow> 'i \<Rightarrow> (bool \<times> 's) option"
    and pop :: "'s \<Rightarrow> ((sched_class \<times> 'i) option \<times> 's) option"
    and steal :: "'s \<Rightarrow> ('i option \<times> 's) option"
  assumes push_full: "inv s \<Longrightarrow> length (view s (priority c)) \<ge> cap \<Longrightarrow> push s c t = Some (False, s)"
    and push_ok: "inv s \<Longrightarrow> length (view s (priority c)) < cap \<Longrightarrow>
      \<exists>s'. push s c t = Some (True, s') \<and> inv s' \<and>
        view s' = (view s)(priority c := view s (priority c) @ [t])"
    and pop_empty: "inv s \<Longrightarrow> \<forall>c. view s (priority c) = [] \<Longrightarrow> pop s = Some (None, s)"
    and pop_first: "inv s \<Longrightarrow> view s (priority c) = t # ts \<Longrightarrow>
      \<forall>d. priority d < priority c \<longrightarrow> view s (priority d) = [] \<Longrightarrow>
      \<exists>s'. pop s = Some (Some (c, t), s') \<and> inv s' \<and> view s' = (view s)(priority c := ts)"
    and steal_empty: "inv s \<Longrightarrow> view s (priority InferenceClass) = [] \<Longrightarrow> steal s = Some (None, s)"
    and steal_last: "inv s \<Longrightarrow> view s (priority InferenceClass) = ts @ [t] \<Longrightarrow>
      \<exists>s'. steal s = Some (Some t, s') \<and> inv s' \<and>
        view s' = (view s)(priority InferenceClass := ts)"
begin

lemma pop_cases:
  assumes "inv s"
  obtains (empty) "pop s = Some (None, s)" "\<forall>c. view s (priority c) = []"
  | (task) c t ts s' where "pop s = Some (Some (c, t), s')" "inv s'" "view s (priority c) = t # ts"
      "view s' = (view s)(priority c := ts)" "\<forall>d. priority d < priority c \<longrightarrow> view s (priority d) = []"
proof (cases "\<exists>c. view s (priority c) \<noteq> []")
  case False
  then show ?thesis using pop_empty [OF assms] empty by blast
next
  case True
  then obtain c where c: "view s (priority c) \<noteq> []" "\<forall>d. priority d < priority c \<longrightarrow> view s (priority d) = []"
    using exists_least_iff [of "\<lambda>n. \<exists>c. priority c = n \<and> view s (priority c) \<noteq> []"] by metis
  then obtain t ts where "view s (priority c) = t # ts" by (meson list.exhaust)
  with pop_first [OF assms this c(2)] c(2) task show ?thesis by blast
qed

lemma steal_cases:
  assumes "inv s"
  obtains (empty) "steal s = Some (None, s)" "view s (priority InferenceClass) = []"
  | (task) t ts s' where "steal s = Some (Some t, s')" "inv s'"
      "view s (priority InferenceClass) = ts @ [t]" "view s' = (view s)(priority InferenceClass := ts)"
proof (cases "view s (priority InferenceClass)" rule: rev_cases)
  case Nil
  then show ?thesis using steal_empty [OF assms] empty by blast
next
  case (snoc ts t)
  then show ?thesis using steal_last [OF assms snoc] task by blast
qed

end

section \<open>Circular buffers implement the interface\<close>

definition rq_view :: "run_queue \<Rightarrow> nat \<Rightarrow> task_id list" where
  "rq_view rq q = (if q < 3 then ring_list (rq_queues rq ! q) (rq_heads rq ! q) (rq_counts rq ! q) else [])"

definition rq_inv :: "run_queue \<Rightarrow> bool" where
  [inv_defs]: "rq_inv rq \<longleftrightarrow> length (rq_queues rq) = 3 \<and> length (rq_heads rq) = 3 \<and>
     length (rq_tails rq) = 3 \<and> length (rq_counts rq) = 3 \<and>
     (\<forall>q < 3. length (rq_queues rq ! q) = MAX_QUEUE_SIZE \<and> rq_heads rq ! q < MAX_QUEUE_SIZE \<and>
        rq_counts rq ! q \<le> MAX_QUEUE_SIZE \<and>
        rq_tails rq ! q = (rq_heads rq ! q + rq_counts rq ! q) mod MAX_QUEUE_SIZE)"

lemma priority_less_3 [simp]: "priority c < 3"
  by (cases c) simp_all

lemma priority_inj [simp]: "priority c = priority d \<longleftrightarrow> c = d"
  by (cases c; cases d) simp_all

lemma class_of_index_priority [simp]: "class_of_index (priority c) = c"
  by (cases c) (simp_all add: class_of_index_def)

lemma MAX_QUEUE_SIZE_pos [simp]: "0 < MAX_QUEUE_SIZE"
  by (simp add: MAX_QUEUE_SIZE_def)

lemma length_rq_view [simp]: "q < 3 \<Longrightarrow> length (rq_view rq q) = rq_counts rq ! q"
  by (simp add: rq_view_def)

lemma rq_inv_lookup:
  assumes "rq_inv rq" "q < 3"
  shows "idx (rq_queues rq) q = Some (rq_queues rq ! q)" "idx (rq_heads rq) q = Some (rq_heads rq ! q)"
    "idx (rq_tails rq) q = Some ((rq_heads rq ! q + rq_counts rq ! q) mod MAX_QUEUE_SIZE)"
    "idx (rq_counts rq) q = Some (rq_counts rq ! q)" "rq_heads rq ! q < MAX_QUEUE_SIZE"
    "rq_counts rq ! q \<le> MAX_QUEUE_SIZE" "length (rq_queues rq ! q) = MAX_QUEUE_SIZE"
    "length (rq_queues rq) = 3" "length (rq_heads rq) = 3" "length (rq_tails rq) = 3"
    "length (rq_counts rq) = 3"
  using assms by (simp_all add: rq_inv_def)

lemma rq_inv_new: "rq_inv (rq_new core)"
  by (simp add: rq_inv_def rq_new_def)

lemma rq_view_new: "rq_view (rq_new core) q = []"
  by (simp add: rq_view_def rq_new_def)

lemma rq_push_ok:
  assumes inv: "rq_inv rq" and c: "length (rq_view rq (priority c)) < MAX_QUEUE_SIZE"
  shows "\<exists>rq'. rq_push rq c t = Some (True, rq') \<and> rq_inv rq' \<and>
    rq_view rq' = (rq_view rq)(priority c := rq_view rq (priority c) @ [t])"
proof -
  let ?q = "priority c"
  note l = rq_inv_lookup [OF inv priority_less_3 [of c]]
  let ?h = "rq_heads rq ! ?q" and ?n = "rq_counts rq ! ?q" and ?b = "rq_queues rq ! ?q"
  let ?t = "(?h + ?n) mod MAX_QUEUE_SIZE"
  let ?rq = "rq\<lparr>rq_queues := (rq_queues rq)[?q := ?b[?t := t]],
    rq_tails := (rq_tails rq)[?q := (?t + 1) mod MAX_QUEUE_SIZE], rq_counts := (rq_counts rq)[?q := ?n + 1]\<rparr>"
  have "rq_push rq c t = Some (True, ?rq)"
    using l c by (simp add: rq_push_def Let_def)
  moreover have "rq_inv ?rq"
    using inv c l by (simp add: rq_inv_def nth_list_update mod_Suc_eq)
  moreover have "ring_list (?b[?t := t]) ?h (Suc ?n) = ring_list ?b ?h ?n @ [t]"
    using ring_list_push [of ?h ?b ?n t] l c by simp
  then have "rq_view ?rq = (rq_view rq)(?q := rq_view rq ?q @ [t])"
    using l by (auto simp: rq_view_def fun_eq_iff nth_list_update)
  ultimately show ?thesis by blast
qed

lemma pop_loop_hit:
  assumes inv: "rq_inv rq" and v: "rq_view rq (priority c) = t # ts"
  shows "\<exists>rq'. pop_loop (priority c # qs) rq = Some (Some (c, t), rq') \<and> rq_inv rq' \<and>
    rq_view rq' = (rq_view rq)(priority c := ts)"
proof -
  let ?q = "priority c"
  note l = rq_inv_lookup [OF inv priority_less_3 [of c]]
  let ?h = "rq_heads rq ! ?q" and ?n = "rq_counts rq ! ?q" and ?b = "rq_queues rq ! ?q"
  let ?rq = "rq\<lparr>rq_heads := (rq_heads rq)[?q := (?h + 1) mod MAX_QUEUE_SIZE],
    rq_counts := (rq_counts rq)[?q := ?n - 1]\<rparr>"
  have n: "?n = Suc (length ts)" using length_rq_view [of ?q rq] v by simp
  have r: "ring_list ?b ?h ?n = ?b ! ?h # ring_list ?b (Suc ?h mod MAX_QUEUE_SIZE) (length ts)"
    using ring_list_Cons [of ?h ?b "length ts"] l by (simp add: n)
  with v have t: "t = ?b ! ?h" "ts = ring_list ?b (Suc ?h mod MAX_QUEUE_SIZE) (length ts)"
    by (simp_all add: rq_view_def)
  have "pop_loop (?q # qs) rq = Some (Some (c, t), ?rq)"
    using l n t by simp
  moreover have "rq_inv ?rq"
    using inv l n by (simp add: rq_inv_def nth_list_update mod_simps)
  moreover have "rq_view ?rq = (rq_view rq)(?q := ts)"
    using l n t(2) by (auto simp: rq_view_def fun_eq_iff nth_list_update)
  ultimately show ?thesis by blast
qed

lemma pop_loop_skip:
  "rq_inv rq \<Longrightarrow> rq_view rq (priority c) = [] \<Longrightarrow> pop_loop (priority c # qs) rq = pop_loop qs rq"
  using length_rq_view [of "priority c" rq] by (simp add: rq_inv_lookup)

lemma upt_priorities: "[0..<3] = [priority SystemClass, priority IpcClass, priority InferenceClass]"
  by (simp add: upt_rec)

lemma rq_steal_last:
  assumes inv: "rq_inv rq" and v: "rq_view rq 2 = ts @ [t]"
  shows "\<exists>rq'. rq_steal_inference rq = Some (Some t, rq') \<and> rq_inv rq' \<and>
    rq_view rq' = (rq_view rq)(2 := ts)"
proof -
  note l = rq_inv_lookup [OF inv, of 2, simplified]
  let ?h = "rq_heads rq ! 2" and ?n = "rq_counts rq ! 2" and ?b = "rq_queues rq ! 2"
  let ?t = "(?h + length ts) mod MAX_QUEUE_SIZE"
  let ?rq = "rq\<lparr>rq_tails := (rq_tails rq)[2 := ?t], rq_counts := (rq_counts rq)[2 := ?n - 1]\<rparr>"
  have n: "?n = Suc (length ts)" using arg_cong [OF v, of length] by simp
  have t: "t = ?b ! ?t" "ts = ring_list ?b ?h (length ts)"
    using v l by (simp_all add: rq_view_def n ring_list_snoc)
  have "?t < MAX_QUEUE_SIZE" by simp
  then have "rq_steal_inference rq = Some (Some t, ?rq)"
    using l n t(1) ring_pred [OF MAX_QUEUE_SIZE_pos, of ?h "length ts"]
    by (simp add: rq_steal_inference_def Let_def split: if_splits)
  moreover have "rq_inv ?rq"
    using inv l n by (simp add: rq_inv_def nth_list_update)
  moreover have "rq_view ?rq = (rq_view rq)(2 := ts)"
    using l n t(2) by (auto simp: rq_view_def fun_eq_iff nth_list_update)
  ultimately show ?thesis by blast
qed

interpretation rq: run_queue_ops rq_inv rq_view MAX_QUEUE_SIZE rq_push rq_pop rq_steal_inference
proof unfold_locales
  fix s c t ts assume inv: "rq_inv s"
  show "rq_push s c t = Some (False, s)" if "length (rq_view s (priority c)) \<ge> MAX_QUEUE_SIZE"
    using that inv by (simp add: rq_push_def rq_inv_lookup)
  show "\<exists>s'. rq_push s c t = Some (True, s') \<and> rq_inv s' \<and>
      rq_view s' = (rq_view s)(priority c := rq_view s (priority c) @ [t])"
    if "length (rq_view s (priority c)) < MAX_QUEUE_SIZE"
    using rq_push_ok [OF inv that] .
  show "rq_pop s = Some (None, s)" if "\<forall>c. rq_view s (priority c) = []"
    unfolding rq_pop_def upt_priorities using that pop_loop_skip [OF inv] by (metis pop_loop.simps(1))
  show "\<exists>s'. rq_pop s = Some (Some (c, t), s') \<and> rq_inv s' \<and> rq_view s' = (rq_view s)(priority c := ts)"
    if v: "rq_view s (priority c) = t # ts" "\<forall>d. priority d < priority c \<longrightarrow> rq_view s (priority d) = []"
  proof -
    have "\<exists>qs. rq_pop s = pop_loop (priority c # qs) s"
      unfolding rq_pop_def upt_priorities
    proof (cases c)
      case SystemClass
      then show "\<exists>qs. pop_loop [priority SystemClass, priority IpcClass, priority InferenceClass] s =
        pop_loop (priority c # qs) s" by blast
    next
      case IpcClass
      then have "rq_view s (priority SystemClass) = []" using v(2) [rule_format, of SystemClass] by simp
      from pop_loop_skip [OF inv this] IpcClass
      show "\<exists>qs. pop_loop [priority SystemClass, priority IpcClass, priority InferenceClass] s =
        pop_loop (priority c # qs) s" by blast
    next
      case InferenceClass
      then have "rq_view s (priority SystemClass) = []" "rq_view s (priority IpcClass) = []"
        using v(2) [rule_format, of SystemClass] v(2) [rule_format, of IpcClass] by simp_all
      from this [THEN pop_loop_skip [OF inv]] InferenceClass
      show "\<exists>qs. pop_loop [priority SystemClass, priority IpcClass, priority InferenceClass] s =
        pop_loop (priority c # qs) s" by metis
    qed
    then show ?thesis using pop_loop_hit [OF inv v(1)] by metis
  qed
  show "rq_steal_inference s = Some (None, s)" if "rq_view s (priority InferenceClass) = []"
    using that length_rq_view [of 2 s] inv by (simp add: rq_steal_inference_def rq_inv_lookup)
  show "\<exists>s'. rq_steal_inference s = Some (Some t, s') \<and> rq_inv s' \<and>
      rq_view s' = (rq_view s)(priority InferenceClass := ts)"
    if "rq_view s (priority InferenceClass) = ts @ [t]"
    using rq_steal_last [OF inv] that by simp
qed

lemma higher_loop_eq:
  "rq_inv rq \<Longrightarrow> \<forall>q \<in> set qs. q < 3 \<Longrightarrow> higher_loop qs rq = Some (\<exists>q \<in> set qs. rq_view rq q \<noteq> [])"
proof (induction qs)
  case Nil
  then show ?case by simp
next
  case (Cons q qs)
  then have "rq_view rq q \<noteq> [] \<longleftrightarrow> 0 < rq_counts rq ! q"
    using length_rq_view [of q rq] by (auto simp flip: length_greater_0_conv)
  with Cons show ?case by (simp add: rq_inv_lookup)
qed

section \<open>Runs\<close>

text \<open>
  A history of operations on one queue, by its owner (\<open>push\<close>, \<open>pop\<close>) and by other cores
  (\<open>steal_inference\<close>), with the accepted, popped and stolen tasks.
\<close>

datatype rq_op = Push sched_class task_id | Pop | Steal

record rq_log =
  accepted :: "(sched_class \<times> task_id) list"
  popped :: "(sched_class \<times> task_id) list"
  stolen :: "task_id list"

fun rq_exec :: "rq_op list \<Rightarrow> run_queue \<times> rq_log \<Rightarrow> (run_queue \<times> rq_log) option" where
  "rq_exec [] st = Some st"
| "rq_exec (Push c t # ops) (rq, l) = do {
     (ok, rq') \<leftarrow> rq_push rq c t;
     rq_exec ops (rq', if ok then l\<lparr>accepted := accepted l @ [(c, t)]\<rparr> else l) }"
| "rq_exec (Pop # ops) (rq, l) = do {
     (r, rq') \<leftarrow> rq_pop rq;
     rq_exec ops (rq', case r of Some ct \<Rightarrow> l\<lparr>popped := popped l @ [ct]\<rparr> | None \<Rightarrow> l) }"
| "rq_exec (Steal # ops) (rq, l) = do {
     (r, rq') \<leftarrow> rq_steal_inference rq;
     rq_exec ops (rq', case r of Some t \<Rightarrow> l\<lparr>stolen := stolen l @ [t]\<rparr> | None \<Rightarrow> l) }"

definition of_class :: "sched_class \<Rightarrow> (sched_class \<times> task_id) list \<Rightarrow> task_id list" where
  "of_class c xs = map snd (filter (\<lambda>x. fst x = c) xs)"

text \<open>What is conserved: order for the two classes that are never stolen, and the tasks themselves for all.\<close>

definition rq_consistent :: "run_queue \<times> rq_log \<Rightarrow> bool" where
  "rq_consistent st \<longleftrightarrow> (case st of (rq, l) \<Rightarrow> rq_inv rq \<and>
     (\<forall>c. c \<noteq> InferenceClass \<longrightarrow>
        of_class c (accepted l) = of_class c (popped l) @ rq_view rq (priority c)) \<and>
     mset (of_class InferenceClass (accepted l)) =
       mset (of_class InferenceClass (popped l)) + mset (stolen l) + mset (rq_view rq (priority InferenceClass)))"

lemma of_class_simps [simp]:
  "of_class c [] = []" "of_class c (xs @ ys) = of_class c xs @ of_class c ys"
  "of_class c [(d, t)] = (if d = c then [t] else [])"
  by (simp_all add: of_class_def)

lemma rq_exec_consistent:
  "rq_consistent st \<Longrightarrow> \<exists>st'. rq_exec ops st = Some st' \<and> rq_consistent st'"
proof (induction ops st rule: rq_exec.induct)
  case (1 st)
  then show ?case by simp
next
  case (2 c t ops rq l)
  then have inv: "rq_inv rq" by (simp add: rq_consistent_def)
  show ?case
  proof (cases "length (rq_view rq (priority c)) < MAX_QUEUE_SIZE")
    case True
    from rq.push_ok [OF inv True] obtain rq' where rq': "rq_push rq c t = Some (True, rq')" "rq_inv rq'"
      "rq_view rq' = (rq_view rq)(priority c := rq_view rq (priority c) @ [t])" by blast
    then have "rq_consistent (rq', l\<lparr>accepted := accepted l @ [(c, t)]\<rparr>)"
      using 2(2) by (auto simp: rq_consistent_def simp del: priority.simps)
    with 2(1) [of "(True, rq')" True rq'] rq' show ?thesis by simp
  next
    case False
    with rq.push_full [OF inv, of c t] have "rq_push rq c t = Some (False, rq)" by simp
    with 2(2) 2(1) [of "(False, rq)" False rq] show ?thesis by simp
  qed
next
  case (3 ops rq l)
  then have inv: "rq_inv rq" by (simp add: rq_consistent_def)
  show ?case
  proof (cases rule: rq.pop_cases [OF inv])
    case 1
    with 3(2) 3(1) [of "(None, rq)" None rq] show ?thesis by simp
  next
    case (2 c t ts rq')
    then have "rq_consistent (rq', l\<lparr>popped := popped l @ [(c, t)]\<rparr>)"
      using 3(2) by (cases "c = InferenceClass") (auto simp: rq_consistent_def simp del: priority.simps)
    with 2 3(1) [of "(Some (c, t), rq')" "Some (c, t)" rq'] show ?thesis by simp
  qed
next
  case (4 ops rq l)
  then have inv: "rq_inv rq" by (simp add: rq_consistent_def)
  show ?case
  proof (cases rule: rq.steal_cases [OF inv])
    case 1
    with 4(2) 4(1) [of "(None, rq)" None rq] show ?thesis by simp
  next
    case (2 t ts rq')
    then have "rq_consistent (rq', l\<lparr>stolen := stolen l @ [t]\<rparr>)"
      using 4(2) by (auto simp: rq_consistent_def simp del: priority.simps)
    with 2 4(1) [of "(Some t, rq')" "Some t" rq'] show ?thesis by simp
  qed
qed

definition empty_log :: rq_log where
  "empty_log = \<lparr>accepted = [], popped = [], stolen = []\<rparr>"

lemma rq_consistent_new: "rq_consistent (rq_new core, empty_log)"
  by (simp add: rq_consistent_def rq_inv_new rq_view_new empty_log_def)

lemma rq_exec_inv:
  "rq_exec ops (rq_new core, empty_log) = Some (rq, l) \<Longrightarrow> rq_inv rq"
  using rq_exec_consistent [OF rq_consistent_new, of ops core] by (auto simp: rq_consistent_def)

section \<open>Properties\<close>

text \<open>
  C22. No history of pushes, pops and steals panics, loses a task or delivers one twice: for the
  SYSTEM and IPC classes the accepted tasks are, in order, the popped ones followed by the
  waiting ones; for the INFERENCE class the accepted tasks are those popped, stolen or waiting.
\<close>

theorem rq_no_task_lost:
  "\<exists>rq l. rq_exec ops (rq_new core, empty_log) = Some (rq, l) \<and>
     of_class SystemClass (accepted l) = of_class SystemClass (popped l) @ rq_view rq (priority SystemClass) \<and>
     of_class IpcClass (accepted l) = of_class IpcClass (popped l) @ rq_view rq (priority IpcClass) \<and>
     mset (of_class InferenceClass (accepted l)) = mset (of_class InferenceClass (popped l)) +
       mset (stolen l) + mset (rq_view rq (priority InferenceClass))"
proof -
  from rq_exec_consistent [OF rq_consistent_new] obtain rq l where
    "rq_exec ops (rq_new core, empty_log) = Some (rq, l)" "rq_consistent (rq, l)"
    by (metis surj_pair)
  then show ?thesis unfolding rq_consistent_def by blast
qed

text \<open>
  Scheduling is by strict priority and first-in first-out within a class: after any history,
  a popped task was the oldest one waiting in its class and no task of a higher class was
  waiting; the scheduler is idle only when every queue is empty; and inference continues at a
  yield point exactly when no SYSTEM and no IPC task is waiting.
\<close>

theorem rq_pop_strict_priority:
  assumes "rq_exec ops (rq_new core, empty_log) = Some (rq, l)"
  shows "((\<exists>rq'. rq_pop rq = Some (None, rq')) \<longleftrightarrow> (\<forall>c. rq_view rq (priority c) = [])) \<and>
    (\<forall>c t rq'. rq_pop rq = Some (Some (c, t), rq') \<longrightarrow>
      rq_view rq (priority c) = t # rq_view rq' (priority c) \<and>
      (\<forall>d. priority d < priority c \<longrightarrow> rq_view rq (priority d) = [])) \<and>
    should_continue_inference rq =
      Some (rq_view rq (priority SystemClass) = [] \<and> rq_view rq (priority IpcClass) = [])"
proof (intro conjI allI impI)
  note inv = rq_exec_inv [OF assms]
  show "(\<exists>rq'. rq_pop rq = Some (None, rq')) \<longleftrightarrow> (\<forall>c. rq_view rq (priority c) = [])"
    by (cases rule: rq.pop_cases [OF inv]) (auto, metis list.distinct(1))
  fix c t rq' assume "rq_pop rq = Some (Some (c, t), rq')"
  then show "rq_view rq (priority c) = t # rq_view rq' (priority c)"
    "priority d < priority c \<Longrightarrow> rq_view rq (priority d) = []" for d
    by (cases rule: rq.pop_cases [OF inv]; auto)+
next
  have "higher_loop [0..<2] rq = Some (rq_view rq 0 \<noteq> [] \<or> rq_view rq 1 \<noteq> [])"
    using higher_loop_eq [OF rq_exec_inv [OF assms], of "[0..<2]"] by (simp add: numeral_2_eq_2 atLeastLessThanSuc)
  then show "should_continue_inference rq =
      Some (rq_view rq (priority SystemClass) = [] \<and> rq_view rq (priority IpcClass) = [])"
    by (simp add: should_continue_inference_def has_higher_priority_than_def)
qed

theorem rq_pop_strict_priority_witness:
  "\<exists>rq l. rq_exec [Push InferenceClass 7, Push SystemClass 9, Pop] (rq_new 0, empty_log) = Some (rq, l) \<and>
     popped l = [(SystemClass, 9)] \<and> should_continue_inference rq = Some True"
proof -
  let ?ops = "[Push InferenceClass 7, Push SystemClass 9, Pop]"
  have l: "map_option (\<lambda>(rq, l). (popped l, rq_view rq 0, rq_view rq 1)) (rq_exec ?ops (rq_new 0, empty_log)) =
      Some ([(SystemClass, 9)], [], [])"
    by code_simp
  then obtain rq l where e: "rq_exec ?ops (rq_new 0, empty_log) = Some (rq, l)" by fastforce
  with l rq_pop_strict_priority [OF e] show ?thesis by simp
qed

end
