(* ===== verification/Scheduler.thy ===== *)
theory Scheduler
  imports Run_Queue
begin

text \<open>
  Tasks, the watchdog, operator budgets and the timer (\<open>kernel/src/sched/task.rs\<close>,
  \<open>executor.rs\<close>, \<open>timer.rs\<close> and \<open>sched-types/src/lib.rs\<close>). A task's future is not modelled: \<open>poll\<close>
  takes the future's answer. The debug assertions of the state transitions are an argument,
  since release builds omit them. The watchdog counter is a wrapping 64-bit word, as
  \<open>AtomicU64::fetch_sub\<close> is.
\<close>

section \<open>Tasks\<close>

datatype task_type = Watchdog | Health | Syslog | Timer | IpcRouter | Tcp | ModelReload
  | InferenceTask | Gpu

fun scheduling_class :: "task_type \<Rightarrow> sched_class" where
  "scheduling_class Watchdog = SystemClass"
| "scheduling_class Health = SystemClass"
| "scheduling_class Syslog = SystemClass"
| "scheduling_class Timer = SystemClass"
| "scheduling_class IpcRouter = IpcClass"
| "scheduling_class Tcp = IpcClass"
| "scheduling_class ModelReload = IpcClass"
| "scheduling_class InferenceTask = InferenceClass"
| "scheduling_class Gpu = InferenceClass"

datatype task_state = Created | Ready | Running | Waiting | Done

datatype cpu_affinity = AnyCore | Pinned u32 | Preferred u32

record task =
  tk_id :: task_id
  tk_class :: sched_class
  tk_type :: task_type
  tk_state :: task_state
  tk_affinity :: cpu_affinity

text \<open>The global counter is passed and returned.\<close>

definition task_id_new :: "u64 \<Rightarrow> task_id \<times> u64" where
  "task_id_new next_id = (next_id, next_id + 1)"

definition task_with_affinity :: "u64 \<Rightarrow> task_type \<Rightarrow> cpu_affinity \<Rightarrow> task \<times> u64" where
  "task_with_affinity next_id ty aff = (case task_id_new next_id of (i, n) \<Rightarrow>
     (\<lparr>tk_id = i, tk_class = scheduling_class ty, tk_type = ty, tk_state = Created, tk_affinity = aff\<rparr>, n))"

definition task_new :: "u64 \<Rightarrow> task_type \<Rightarrow> task \<times> u64" where
  "task_new next_id ty = (case task_id_new next_id of (i, n) \<Rightarrow>
     (\<lparr>tk_id = i, tk_class = scheduling_class ty, tk_type = ty, tk_state = Created, tk_affinity = AnyCore\<rparr>, n))"

definition task_poll :: "bool \<Rightarrow> task \<Rightarrow> bool \<times> task" where
  "task_poll future_ready t = (if future_ready then (True, t\<lparr>tk_state := Done\<rparr>) else (False, t))"

definition make_ready :: "bool \<Rightarrow> task \<Rightarrow> task option" where
  "make_ready dbg t = do {
     ensure (\<not> dbg \<or> tk_state t = Created \<or> tk_state t = Waiting \<or> tk_state t = Running);
     Some (t\<lparr>tk_state := Ready\<rparr>) }"

definition make_running :: "bool \<Rightarrow> task \<Rightarrow> task option" where
  "make_running dbg t = do {
     ensure (\<not> dbg \<or> tk_state t = Ready);
     Some (t\<lparr>tk_state := Running\<rparr>) }"

definition make_waiting :: "bool \<Rightarrow> task \<Rightarrow> task option" where
  "make_waiting dbg t = do {
     ensure (\<not> dbg \<or> tk_state t = Running);
     Some (t\<lparr>tk_state := Waiting\<rparr>) }"

datatype task_event = EvReady | EvRunning | EvWaiting | EvPoll bool

fun task_step :: "bool \<Rightarrow> task_event \<Rightarrow> task \<Rightarrow> task option" where
  "task_step dbg EvReady t = make_ready dbg t"
| "task_step dbg EvRunning t = make_running dbg t"
| "task_step dbg EvWaiting t = make_waiting dbg t"
| "task_step dbg (EvPoll r) t = Some (snd (task_poll r t))"

section \<open>The watchdog\<close>

record watchdog =
  wd_timeout :: u64
  wd_remaining :: u64
  wd_enabled :: bool

definition wd_new :: "u64 \<Rightarrow> watchdog" where
  "wd_new timeout = \<lparr>wd_timeout = timeout, wd_remaining = timeout, wd_enabled = False\<rparr>"

definition wd_enable :: "watchdog \<Rightarrow> watchdog" where
  "wd_enable w = w\<lparr>wd_enabled := True, wd_remaining := wd_timeout w\<rparr>"

definition wd_pet :: "watchdog \<Rightarrow> watchdog" where
  "wd_pet w = w\<lparr>wd_remaining := wd_timeout w\<rparr>"

definition wd_tick :: "watchdog \<Rightarrow> bool \<times> watchdog" where
  "wd_tick w = (if \<not> wd_enabled w then (False, w)
     else (wd_remaining w \<le> 1, w\<lparr>wd_remaining := wd_remaining w - 1\<rparr>))"

datatype wd_event = WdTick | WdPet

text \<open>The answers of the ticks of a history.\<close>

fun wd_run :: "wd_event list \<Rightarrow> watchdog \<Rightarrow> bool list" where
  "wd_run [] w = []"
| "wd_run (WdTick # es) w = (case wd_tick w of (fired, w') \<Rightarrow> fired # wd_run es w')"
| "wd_run (WdPet # es) w = wd_run es (wd_pet w)"

section \<open>Operator budgets\<close>

datatype operator_class = Elementwise | Reduction | Gemm | Attention | GpuKernel | ControlFlow

datatype budget_result = BudgetOk | BudgetWarning | SoftLimit | HardLimit

record operator_budget =
  elementwise_us :: u64
  reduction_us :: u64
  gemm_us :: u64
  attention_us :: u64
  gpu_kernel_us :: u64
  control_flow_us :: u64
  soft_multiplier :: u64
  hard_multiplier :: u64

definition BUDGET_DEFAULT :: operator_budget where
  "BUDGET_DEFAULT = \<lparr>elementwise_us = 1000, reduction_us = 10000, gemm_us = 100000,
     attention_us = 500000, gpu_kernel_us = 1000000, control_flow_us = 2000000,
     soft_multiplier = 2, hard_multiplier = 10\<rparr>"

fun budget_of :: "operator_budget \<Rightarrow> operator_class \<Rightarrow> u64" where
  "budget_of b Elementwise = elementwise_us b"
| "budget_of b Reduction = reduction_us b"
| "budget_of b Gemm = gemm_us b"
| "budget_of b Attention = attention_us b"
| "budget_of b GpuKernel = gpu_kernel_us b"
| "budget_of b ControlFlow = control_flow_us b"

definition budget_check :: "operator_budget \<Rightarrow> operator_class \<Rightarrow> u64 \<Rightarrow> budget_result" where
  "budget_check b class actual_us = (let budget = budget_of b class in
     if actual_us > budget * hard_multiplier b then HardLimit
     else if actual_us > budget * soft_multiplier b then SoftLimit
     else if actual_us > budget then BudgetWarning
     else BudgetOk)"

section \<open>The timer\<close>

record timer =
  tick_count :: u64
  timer_freq_hz :: u64

definition timer_tick :: "timer \<Rightarrow> timer" where
  "timer_tick t = t\<lparr>tick_count := tick_count t + 1\<rparr>"

definition set_frequency :: "timer \<Rightarrow> u64 \<Rightarrow> timer" where
  "set_frequency t hz = t\<lparr>timer_freq_hz := hz\<rparr>"

definition ticks_to_us :: "timer \<Rightarrow> u64 \<Rightarrow> u64" where
  "ticks_to_us t ticks =
     (if timer_freq_hz t = 0 then 0 else ticks * 1000000 div timer_freq_hz t)"

definition us_to_ticks :: "timer \<Rightarrow> u64 \<Rightarrow> u64" where
  "us_to_ticks t us = us * timer_freq_hz t div 1000000"

definition elapsed_since :: "u64 \<Rightarrow> u64 \<Rightarrow> u64" where
  "elapsed_since now earlier = (if earlier \<le> now then now - earlier else 0)"

definition elapsed_us_since :: "timer \<Rightarrow> u64 \<Rightarrow> u64 \<Rightarrow> u64" where
  "elapsed_us_since t now earlier = ticks_to_us t (elapsed_since now earlier)"

section \<open>Lemmas\<close>

text \<open>Ticks since the last service stay below the timeout.\<close>

fun serviced :: "nat \<Rightarrow> nat \<Rightarrow> wd_event list \<Rightarrow> bool" where
  "serviced T k [] = True"
| "serviced T k (WdTick # es) = (k + 1 < T \<and> serviced T (k + 1) es)"
| "serviced T k (WdPet # es) = serviced T 0 es"

lemma wd_run_fires_iff:
  assumes "wd_enabled w" "unat (wd_remaining w) + k = unat (wd_timeout w)" "k < unat (wd_timeout w)"
  shows "True \<in> set (wd_run es w) \<longleftrightarrow> \<not> serviced (unat (wd_timeout w)) k es"
  using assms
proof (induction es w arbitrary: k rule: wd_run.induct)
  case (1 w)
  then show ?case by simp
next
  case (2 es w)
  have le: "wd_remaining w \<le> 1 \<longleftrightarrow> \<not> k + 1 < unat (wd_timeout w)"
    using 2(3) by (simp add: word_le_nat_alt) linarith
  show ?case
  proof (cases "wd_remaining w \<le> 1")
    case True
    with le 2(2) show ?thesis by (simp add: wd_tick_def)
  next
    case False
    let ?w = "w\<lparr>wd_remaining := wd_remaining w - 1\<rparr>"
    have "unat (wd_remaining w - 1) = unat (wd_remaining w) - 1"
      using False by (intro unat_minus_one) auto
    then have "True \<in> set (wd_run es ?w) \<longleftrightarrow> \<not> serviced (unat (wd_timeout w)) (k + 1) es"
      using 2(1) [of False ?w "k + 1"] 2(2,3) False le by (simp add: wd_tick_def)
    with False le 2(2) show ?thesis by (simp add: wd_tick_def)
  qed
next
  case (3 es w)
  then show ?case by (simp add: wd_pet_def)
qed

lemma Done_stays:
  "mfold (task_step True) es t = Some t' \<Longrightarrow> tk_state t = Done \<Longrightarrow> tk_state t' = Done"
proof (induction es arbitrary: t)
  case Nil
  then show ?case by simp
next
  case (Cons e es)
  then obtain u where u: "task_step True e t = Some u" "mfold (task_step True) es u = Some t'"
    by (auto simp: bind_eq_Some_conv)
  have "tk_state u = Done"
    using u(1) Cons.prems(2)
    by (cases e) (auto simp: make_ready_def make_running_def make_waiting_def task_poll_def
        split: if_splits)
  with Cons.IH u(2) show ?case by blast
qed

text \<open>The budget thresholds over the natural numbers.\<close>

lemma budget_check_nat:
  assumes "unat (budget_of b c) * unat (hard_multiplier b) < 2 ^ 64"
    "unat (soft_multiplier b) \<le> unat (hard_multiplier b)"
  shows "budget_check b c t = (let n = unat (budget_of b c) in
    if unat t > n * unat (hard_multiplier b) then HardLimit
    else if unat t > n * unat (soft_multiplier b) then SoftLimit
    else if unat t > n then BudgetWarning else BudgetOk)"
proof -
  have "unat (budget_of b c) * unat (soft_multiplier b) < 2 ^ 64"
    using assms(1) mult_le_mono2 [OF assms(2)] le_less_trans by blast
  with assms(1) have "unat (budget_of b c * hard_multiplier b) = unat (budget_of b c) * unat (hard_multiplier b)"
    "unat (budget_of b c * soft_multiplier b) = unat (budget_of b c) * unat (soft_multiplier b)"
    by (simp_all add: unat_mult_64)
  then show ?thesis by (simp add: budget_check_def word_less_nat_alt Let_def)
qed

fun severity :: "budget_result \<Rightarrow> nat" where
  "severity BudgetOk = 0"
| "severity BudgetWarning = 1"
| "severity SoftLimit = 2"
| "severity HardLimit = 3"

section \<open>Properties\<close>

text \<open>
  C35. The watchdog is exact: once enabled with a timeout of at least one tick, it fires at some
  tick of a history if and only if some run of ticks without a service reached the timeout. It
  never fires while it is serviced in time, and never misses the deadline.
\<close>

theorem watchdog_fires_exactly:
  assumes "wd_timeout w \<noteq> 0"
  shows "True \<in> set (wd_run es (wd_enable w)) \<longleftrightarrow> \<not> serviced (unat (wd_timeout w)) 0 es"
  using wd_run_fires_iff [of "wd_enable w" 0 es] assms
  by (simp add: wd_enable_def unat_gt_0)

theorem watchdog_fires_exactly_witness:
  "True \<notin> set (wd_run [WdTick, WdTick, WdPet, WdTick] (wd_enable (wd_new 3))) \<and>
   True \<in> set (wd_run [WdTick, WdPet, WdTick, WdTick, WdTick] (wd_enable (wd_new 3)))"
  using watchdog_fires_exactly [of "wd_new 3" "[WdTick, WdTick, WdPet, WdTick]"]
    watchdog_fires_exactly [of "wd_new 3" "[WdTick, WdPet, WdTick, WdTick, WdTick]"]
  by (simp add: wd_new_def del: wd_run.simps)

text \<open>
  A watchdog that has fired does not keep firing: its counter wraps below zero, so that an
  enabled watchdog with one tick left reports the timeout at the next two ticks and none at the
  third.
\<close>

theorem watchdog_wraps_after_firing:
  "wd_run [WdTick, WdTick, WdTick] (w\<lparr>wd_enabled := True, wd_remaining := 1\<rparr>) = [True, True, False]"
proof -
  have "\<not> (- 1 :: u64) \<le> 1" by code_simp
  then show ?thesis by (simp add: wd_tick_def)
qed

text \<open>
  With the debug assertions on, a finished task is never scheduled again: no sequence of
  transitions and polls that does not panic leads out of the state \<open>Done\<close>. Without them the
  transition to \<open>Ready\<close> is accepted.
\<close>

theorem done_is_final:
  assumes "tk_state t = Done"
  shows "(\<forall>es t'. mfold (task_step True) es t = Some t' \<longrightarrow> tk_state t' = Done) \<and>
    make_ready False t = Some (t\<lparr>tk_state := Ready\<rparr>)"
  using Done_stays assms by (auto simp: make_ready_def)

theorem done_is_final_witness:
  "\<exists>t. mfold (task_step True) [EvReady, EvRunning, EvPoll True] (fst (task_new 1 Gpu)) = Some t \<and>
     mfold (task_step True) [EvPoll False] t = Some t \<and> make_ready False t = Some (t\<lparr>tk_state := Ready\<rparr>)"
proof -
  let ?t = "(fst (task_new 1 Gpu))\<lparr>tk_state := Done\<rparr>"
  have "mfold (task_step True) [EvReady, EvRunning, EvPoll True] (fst (task_new 1 Gpu)) = Some ?t"
    by (simp add: task_new_def task_id_new_def make_ready_def make_running_def task_poll_def)
  moreover have "mfold (task_step True) [EvPoll False] ?t = Some ?t" by (simp add: task_poll_def)
  ultimately show ?thesis using done_is_final [of ?t] by auto
qed

text \<open>
  The default operator budgets are applied without overflow: for every class and every
  measured time the verdict is the one of the exact thresholds (1, 2 and 10 times the budget of
  the class), and a longer run never gets a milder verdict.
\<close>

theorem default_budgets_exact_and_monotone:
  "budget_check BUDGET_DEFAULT c t =
     (let n = unat (budget_of BUDGET_DEFAULT c) in
      if unat t > 10 * n then HardLimit else if unat t > 2 * n then SoftLimit
      else if unat t > n then BudgetWarning else BudgetOk) \<and>
   (\<forall>k. severity (budget_check BUDGET_DEFAULT c t) \<le> severity (budget_check BUDGET_DEFAULT c (max t k)))"
proof
  have e: "budget_check BUDGET_DEFAULT c t =
     (let n = unat (budget_of BUDGET_DEFAULT c) in
      if unat t > 10 * n then HardLimit else if unat t > 2 * n then SoftLimit
      else if unat t > n then BudgetWarning else BudgetOk)" for t
    by (cases c) (simp_all add: budget_check_nat BUDGET_DEFAULT_def Let_def)
  then show "budget_check BUDGET_DEFAULT c t =
     (let n = unat (budget_of BUDGET_DEFAULT c) in
      if unat t > 10 * n then HardLimit else if unat t > 2 * n then SoftLimit
      else if unat t > n then BudgetWarning else BudgetOk)" .
  show "\<forall>k. severity (budget_check BUDGET_DEFAULT c t) \<le> severity (budget_check BUDGET_DEFAULT c (max t k))"
  proof
    fix k
    have "unat t \<le> unat (max t k)" by (simp add: max_def word_le_nat_alt)
    then show "severity (budget_check BUDGET_DEFAULT c t) \<le> severity (budget_check BUDGET_DEFAULT c (max t k))"
      unfolding e Let_def by auto
  qed
qed

text \<open>
  Converting ticks to microseconds and back never gains time: when the two products do not
  overflow 64 bits, the ticks recovered are at most the original ones, and an uncalibrated timer
  reports zero.
\<close>

theorem ticks_roundtrip_bound:
  assumes "unat ticks * 1000000 < 2 ^ 64"
    "unat ticks * 1000000 div unat (timer_freq_hz t) * unat (timer_freq_hz t) < 2 ^ 64"
  shows "us_to_ticks t (ticks_to_us t ticks) \<le> ticks"
proof (cases "timer_freq_hz t = 0")
  case True
  then show ?thesis by (simp add: us_to_ticks_def ticks_to_us_def)
next
  case False
  let ?f = "unat (timer_freq_hz t)" and ?us = "ticks_to_us t ticks"
  have us: "unat ?us = unat ticks * 1000000 div ?f"
    using assms(1) False by (simp add: ticks_to_us_def unat_div unat_mult_64)
  have "unat (?us * timer_freq_hz t) = unat ?us * ?f"
    using assms(2) us by (simp add: unat_mult_64)
  then have "unat (us_to_ticks t ?us) = unat ?us * ?f div 1000000"
    by (simp add: us_to_ticks_def unat_div)
  also have "\<dots> \<le> unat ticks * 1000000 div 1000000"
    unfolding us by (intro div_le_mono div_times_less_eq_dividend)
  finally show ?thesis by (simp add: word_le_nat_alt)
qed

theorem ticks_roundtrip_bound_witness:
  "us_to_ticks \<lparr>tick_count = 0, timer_freq_hz = 3000000\<rparr>
     (ticks_to_us \<lparr>tick_count = 0, timer_freq_hz = 3000000\<rparr> 1000) \<le> 1000"
  by (rule ticks_roundtrip_bound) simp_all

end
