(* ===== verification/Sessions.thy ===== *)
theory Sessions
  imports Prelude
begin

text \<open>
  Login sessions of the kernel: the roles and the minimum-role gate (\<open>kernel/src/auth/mod.rs\<close>,
  \<open>auth/min_role.rs\<close>), the fixed table of sessions with its generation counters
  (\<open>auth/session_table.rs\<close>) and the sweeper that ends idle sessions (\<open>auth/sweeper.rs\<close>). The
  table is shown to implement a map from session identifiers to sessions, and an identifier that
  was released is shown to stay invalid.\<close>

section \<open>Roles\<close>

datatype role = Root | Operator | Viewer

definition role_from_u8 :: "u8 \<Rightarrow> role option" where
  "role_from_u8 n = (if n = 0 then Some Root else if n = 1 then Some Operator else if n = 2 then Some Viewer else None)"

fun role_as_u8 :: "role \<Rightarrow> u8" where
  "role_as_u8 Root = 0"
| "role_as_u8 Operator = 1"
| "role_as_u8 Viewer = 2"

datatype min_role = MinUnauthenticated | MinAuthenticated | MinOperator | MinRoot

fun admits :: "min_role \<Rightarrow> role option \<Rightarrow> bool" where
  "admits MinUnauthenticated _ = True"
| "admits MinAuthenticated (Some _) = True"
| "admits MinAuthenticated None = False"
| "admits MinOperator (Some Root) = True"
| "admits MinOperator (Some Operator) = True"
| "admits MinOperator _ = False"
| "admits MinRoot (Some Root) = True"
| "admits MinRoot _ = False"

section \<open>Session identifiers\<close>

definition SESSION_TABLE_CAP :: nat where
  "SESSION_TABLE_CAP = 32"

definition MAX_USERNAME_LEN :: nat where
  "MAX_USERNAME_LEN = 64"

definition GEN_MASK :: u32 where
  "GEN_MASK = 0x00FFFFFF"

type_synonym session_id = u32

definition SESSION_NONE :: session_id where
  "SESSION_NONE = 0xFFFFFFFF"

definition sid_encode :: "nat \<Rightarrow> u32 \<Rightarrow> session_id" where
  "sid_encode slot generation = push_bit 24 (of_nat slot) OR (generation AND GEN_MASK)"

definition sid_slot :: "session_id \<Rightarrow> nat option" where
  "sid_slot i = (let s = unat (drop_bit 24 i) in if s \<ge> SESSION_TABLE_CAP then None else Some s)"

definition sid_generation :: "session_id \<Rightarrow> u32" where
  "sid_generation i = i AND GEN_MASK"

section \<open>The table\<close>

record session =
  s_user_id :: u32
  s_username :: "u8 list"
  s_username_len :: u8
  s_role :: role
  s_login :: u64
  s_last_activity :: u64
  s_peer :: "u8 list option"
  s_flags :: u32
  s_must_change_password :: bool

definition username_bytes :: "session \<Rightarrow> u8 list option" where
  "username_bytes s = (let n = min (unat (s_username_len s)) MAX_USERNAME_LEN in
     if n \<le> length (s_username s) then Some (take n (s_username s)) else None)"

definition session_new :: "u32 \<Rightarrow> u8 list \<Rightarrow> role \<Rightarrow> u64 \<Rightarrow> bool \<Rightarrow> session option" where
  "session_new user_id name r now must_change =
     (if length name > MAX_USERNAME_LEN then None
      else Some \<lparr>s_user_id = user_id, s_username = name @ replicate (MAX_USERNAME_LEN - length name) 0,
        s_username_len = of_nat (length name), s_role = r, s_login = now, s_last_activity = now, s_peer = None,
        s_flags = 0, s_must_change_password = must_change\<rparr>)"

datatype session_error = TableFull | Stale | UsernameTooLong

record slot =
  sl_session :: "session option"
  sl_generation :: u32

record session_table =
  st_slots :: "slot list"
  st_live_count :: nat

definition table_new :: session_table where
  "table_new = \<lparr>st_slots = replicate SESSION_TABLE_CAP \<lparr>sl_session = None, sl_generation = 0\<rparr>, st_live_count = 0\<rparr>"

definition acquire :: "session_table \<Rightarrow> session \<Rightarrow> (session_error, session_id \<times> session_table) result" where
  "acquire t s = (case position (\<lambda>sl. sl_session sl = None) (st_slots t) of
     Some i \<Rightarrow> Inr (sid_encode i (sl_generation (st_slots t ! i)),
       t\<lparr>st_slots := (st_slots t)[i := (st_slots t ! i)\<lparr>sl_session := Some s\<rparr>], st_live_count := st_live_count t + 1\<rparr>)
   | None \<Rightarrow> Inl TableFull)"

definition bump :: "u32 \<Rightarrow> u32" where
  "bump g = (g + 1) AND GEN_MASK"

definition lookup_session :: "session_table \<Rightarrow> session_id \<Rightarrow> (session_error, session) result" where
  "lookup_session t i = (case sid_slot i of
     None \<Rightarrow> Inl Stale
   | Some n \<Rightarrow> if sl_generation (st_slots t ! n) \<noteq> sid_generation i then Inl Stale
       else case sl_session (st_slots t ! n) of None \<Rightarrow> Inl Stale | Some s \<Rightarrow> Inr s)"

text \<open>\<open>None\<close> is the underflow of the counter.\<close>

definition release :: "session_table \<Rightarrow> session_id \<Rightarrow> (session_error, session \<times> session_table) result option" where
  "release t i = (case sid_slot i of
     None \<Rightarrow> Some (Inl Stale)
   | Some n \<Rightarrow> if sl_generation (st_slots t ! n) \<noteq> sid_generation i then Some (Inl Stale)
       else case sl_session (st_slots t ! n) of
         None \<Rightarrow> Some (Inl Stale)
       | Some s \<Rightarrow> do {
           live \<leftarrow> usub (st_live_count t) 1;
           Some (Inr (s, t\<lparr>st_slots := (st_slots t)[n := \<lparr>sl_session = None, sl_generation = bump (sl_generation (st_slots t ! n))\<rparr>],
             st_live_count := live\<rparr>)) })"

text \<open>\<open>lookup_mut\<close> with the change its caller makes.\<close>

definition update_session :: "session_table \<Rightarrow> session_id \<Rightarrow> (session \<Rightarrow> session) \<Rightarrow> (session_error, session_table) result" where
  "update_session t i f = (case sid_slot i of
     None \<Rightarrow> Inl Stale
   | Some n \<Rightarrow> if sl_generation (st_slots t ! n) \<noteq> sid_generation i then Inl Stale
       else case sl_session (st_slots t ! n) of None \<Rightarrow> Inl Stale
         | Some s \<Rightarrow> Inr (t\<lparr>st_slots := (st_slots t)[n := (st_slots t ! n)\<lparr>sl_session := Some (f s)\<rparr>]\<rparr>))"

definition reset_idle :: "session_table \<Rightarrow> session_id \<Rightarrow> u64 \<Rightarrow> (session_error, session_table) result" where
  "reset_idle t i now = update_session t i (\<lambda>s. s\<lparr>s_last_activity := now\<rparr>)"

definition current_role :: "session_table \<Rightarrow> session_id \<Rightarrow> role option" where
  "current_role t i = (case lookup_session t i of Inl _ \<Rightarrow> None | Inr s \<Rightarrow> Some (s_role s))"

text \<open>The live sessions in the order of the slots.\<close>

definition table_iter :: "session_table \<Rightarrow> (session_id \<times> session) list" where
  "table_iter t = concat (map (\<lambda>n. case sl_session (st_slots t ! n) of None \<Rightarrow> []
     | Some s \<Rightarrow> [(sid_encode n (sl_generation (st_slots t ! n)), s)]) [0..<SESSION_TABLE_CAP])"

definition belongs_to :: "u32 \<Rightarrow> slot \<Rightarrow> bool" where
  "belongs_to user sl \<longleftrightarrow> (case sl_session sl of None \<Rightarrow> False | Some s \<Rightarrow> s_user_id s = user)"

definition invalidate_user :: "session_table \<Rightarrow> u32 \<Rightarrow> (nat \<times> session_table) option" where
  "invalidate_user t user = (let count = length (filter (belongs_to user) (st_slots t)) in do {
     live \<leftarrow> usub (st_live_count t) count;
     Some (count, t\<lparr>st_slots := map (\<lambda>sl. if belongs_to user sl then \<lparr>sl_session = None, sl_generation = bump (sl_generation sl)\<rparr> else sl) (st_slots t),
       st_live_count := live\<rparr>) })"

section \<open>The sweeper\<close>

record idle_policy =
  ip_root :: u64
  ip_operator :: u64
  ip_viewer :: u64

definition idle_defaults :: idle_policy where
  "idle_defaults = \<lparr>ip_root = 15 * 60, ip_operator = 60 * 60, ip_viewer = 60 * 60\<rparr>"

fun for_role :: "idle_policy \<Rightarrow> role \<Rightarrow> u64" where
  "for_role p Root = ip_root p"
| "for_role p Operator = ip_operator p"
| "for_role p Viewer = ip_viewer p"

definition is_idle :: "idle_policy \<Rightarrow> u64 \<Rightarrow> session \<Rightarrow> bool" where
  "is_idle p now s \<longleftrightarrow> saturating_sub now (s_last_activity s) > for_role p (s_role s)"

text \<open>The second pass of the sweep: the sessions ended, the events reported and the table.\<close>

fun sweep_loop :: "session_id list \<Rightarrow> session_table \<Rightarrow> (nat \<times> (session_id \<times> session) list \<times> session_table) option" where
  "sweep_loop [] t = Some (0, [], t)"
| "sweep_loop (i # is) t = (case lookup_session t i of
     Inl _ \<Rightarrow> sweep_loop is t
   | Inr s \<Rightarrow> do {
       r \<leftarrow> release t i;
       (killed, events, t') \<leftarrow> sweep_loop is (case r of Inl _ \<Rightarrow> t | Inr (_, t1) \<Rightarrow> t1);
       Some ((case r of Inl _ \<Rightarrow> 0 | Inr _ \<Rightarrow> 1) + killed, (i, s) # events, t') })"

definition sweep_tick :: "idle_policy \<Rightarrow> u64 \<Rightarrow> session_table \<Rightarrow> (nat \<times> (session_id \<times> session) list \<times> session_table) option" where
  "sweep_tick p now t = sweep_loop (map fst (filter (\<lambda>(i, s). is_idle p now s) (table_iter t))) t"

section \<open>Identifiers and slots\<close>

lemma GEN_MASK_mask: "GEN_MASK = mask 24"
  by (simp add: GEN_MASK_def mask_eq_exp_minus_1)

lemma slot_shift:
  assumes "n < SESSION_TABLE_CAP"
  shows "drop_bit 24 (push_bit 24 (of_nat n) OR (g AND GEN_MASK)) = (of_nat n :: u32)"
proof (rule bit_word_eqI)
  fix k assume "k < LENGTH(32)"
  have "take_bit 8 n = n" using assms by (simp add: SESSION_TABLE_CAP_def take_bit_nat_eq_self)
  then have small: "(of_nat n :: u32) = take_bit 8 (of_nat n)" by (metis of_nat_take_bit)
  have "bit (of_nat n :: u32) k \<Longrightarrow> k < 8" by (subst (asm) small) (simp add: bit_take_bit_iff)
  then show "bit (drop_bit 24 (push_bit 24 (of_nat n) OR (g AND GEN_MASK))) k = bit (of_nat n :: u32) k"
    by (auto simp: GEN_MASK_mask bit_simps)
qed

lemma sid_slot_encode [simp]: "n < SESSION_TABLE_CAP \<Longrightarrow> sid_slot (sid_encode n g) = Some n"
proof -
  assume n: "n < SESSION_TABLE_CAP"
  then have "unat (of_nat n :: u32) = n" by (simp add: unat_of_nat SESSION_TABLE_CAP_def take_bit_nat_eq_self)
  then have "unat (drop_bit 24 (sid_encode n g)) = n" unfolding sid_encode_def slot_shift [OF n] .
  then show ?thesis using n by (simp add: sid_slot_def)
qed

lemma sid_generation_encode [simp]: "sid_generation (sid_encode n g) = g AND GEN_MASK"
  by (rule bit_word_eqI) (auto simp: sid_generation_def sid_encode_def GEN_MASK_mask bit_simps)

lemma sid_slot_bound: "sid_slot i = Some n \<Longrightarrow> n < SESSION_TABLE_CAP"
  by (auto simp: sid_slot_def Let_def split: if_splits)

lemma sid_encode_decode: "sid_slot i = Some n \<Longrightarrow> sid_encode n (sid_generation i) = i"
proof -
  assume "sid_slot i = Some n"
  then have n: "n = unat (drop_bit 24 i)" by (auto simp: sid_slot_def Let_def split: if_splits)
  show ?thesis unfolding n sid_encode_def sid_generation_def GEN_MASK_mask
    by (rule bit_word_eqI) (auto simp: bit_simps)
qed

lemma sid_slot_none: "sid_slot SESSION_NONE = None"
  by (simp add: sid_slot_def SESSION_NONE_def SESSION_TABLE_CAP_def Let_def drop_bit_eq_div)


lemma sid_encode_inject:
  "n < SESSION_TABLE_CAP \<Longrightarrow> m < SESSION_TABLE_CAP \<Longrightarrow> sid_encode n g = sid_encode m h \<longleftrightarrow> n = m \<and> g AND GEN_MASK = h AND GEN_MASK"
  by (metis sid_slot_encode sid_generation_encode option.inject sid_encode_decode)

section \<open>The table as a map\<close>

definition sessions_of :: "session_table \<Rightarrow> session_id \<Rightarrow> session option" where
  "sessions_of t i = (case lookup_session t i of Inl _ \<Rightarrow> None | Inr s \<Rightarrow> Some s)"

definition live_slots_of :: "session_table \<Rightarrow> nat set" where
  "live_slots_of t = {n. n < SESSION_TABLE_CAP \<and> sl_session (st_slots t ! n) \<noteq> None}"

definition table_inv :: "session_table \<Rightarrow> bool" where
  [inv_defs]: "table_inv t \<longleftrightarrow> length (st_slots t) = SESSION_TABLE_CAP \<and> st_live_count t = card (live_slots_of t) \<and>
     (\<forall>n < SESSION_TABLE_CAP. sl_generation (st_slots t ! n) AND GEN_MASK = sl_generation (st_slots t ! n))"

lemma finite_live_slots_of [simp]: "finite (live_slots_of t)"
  by (simp add: live_slots_of_def)

lemma table_invD:
  assumes "table_inv t"
  shows "length (st_slots t) = SESSION_TABLE_CAP" "st_live_count t = card (live_slots_of t)"
    "n < SESSION_TABLE_CAP \<Longrightarrow> sl_generation (st_slots t ! n) AND GEN_MASK = sl_generation (st_slots t ! n)"
  using assms by (auto simp: table_inv_def)

lemma lookup_cases: "lookup_session t i = Inl Stale \<and> sessions_of t i = None \<or> (\<exists>s. lookup_session t i = Inr s \<and> sessions_of t i = Some s)"
  by (auto simp: sessions_of_def lookup_session_def split: option.splits)

lemma sessions_of_iff:
  assumes "table_inv t"
  shows "sessions_of t i = Some s \<longleftrightarrow>
    (\<exists>n < SESSION_TABLE_CAP. i = sid_encode n (sl_generation (st_slots t ! n)) \<and> sl_session (st_slots t ! n) = Some s)"
proof
  assume "sessions_of t i = Some s"
  then obtain n where n: "sid_slot i = Some n" "sl_generation (st_slots t ! n) = sid_generation i" "sl_session (st_slots t ! n) = Some s"
    by (auto simp: sessions_of_def lookup_session_def split: option.splits if_splits)
  then show "\<exists>n < SESSION_TABLE_CAP. i = sid_encode n (sl_generation (st_slots t ! n)) \<and> sl_session (st_slots t ! n) = Some s"
    using sid_encode_decode [OF n(1)] sid_slot_bound [OF n(1)] by metis
next
  assume "\<exists>n < SESSION_TABLE_CAP. i = sid_encode n (sl_generation (st_slots t ! n)) \<and> sl_session (st_slots t ! n) = Some s"
  then show "sessions_of t i = Some s" using table_invD(3) [OF assms] by (auto simp: sessions_of_def lookup_session_def)
qed

lemma sessions_of_encode:
  assumes "table_inv t" "n < SESSION_TABLE_CAP"
  shows "sessions_of t (sid_encode n g) = (if g AND GEN_MASK = sl_generation (st_slots t ! n) then sl_session (st_slots t ! n) else None)"
  using assms(2) by (auto simp: sessions_of_def lookup_session_def split: option.splits)

text \<open>What replacing one slot does.\<close>

lemma sessions_of_update:
  assumes "table_inv t" "n < SESSION_TABLE_CAP" "sl_generation sl AND GEN_MASK = sl_generation sl"
    and "t' = t\<lparr>st_slots := (st_slots t)[n := sl], st_live_count := c\<rparr>" "table_inv t'"
  shows "sessions_of t' i = (if i = sid_encode n (sl_generation sl) then sl_session sl
    else if i = sid_encode n (sl_generation (st_slots t ! n)) then None else sessions_of t i)"
proof (rule option_eqI)
  fix s
  let ?g = "\<lambda>m. sl_generation (st_slots t ! m)"
  have len: "length (st_slots t) = SESSION_TABLE_CAP" using table_invD(1) [OF assms(1)] .
  have "sessions_of t' i = Some s \<longleftrightarrow> (\<exists>m < SESSION_TABLE_CAP. i = sid_encode m (sl_generation ((st_slots t)[n := sl] ! m)) \<and> sl_session ((st_slots t)[n := sl] ! m) = Some s)"
    using sessions_of_iff [OF assms(5)] by (simp add: assms(4))
  also have "\<dots> \<longleftrightarrow> i = sid_encode n (sl_generation sl) \<and> sl_session sl = Some s \<or>
      (\<exists>m < SESSION_TABLE_CAP. m \<noteq> n \<and> i = sid_encode m (?g m) \<and> sl_session (st_slots t ! m) = Some s)"
    using assms(2) len by (metis nth_list_update_eq nth_list_update_neq)
  also have "\<dots> \<longleftrightarrow> (if i = sid_encode n (sl_generation sl) then sl_session sl
      else if i = sid_encode n (?g n) then None else sessions_of t i) = Some s"
    unfolding if_distrib [of "\<lambda>x. x = Some s"] sessions_of_iff [OF assms(1)]
    using assms(2) by (auto simp: sid_encode_inject)
  finally show "sessions_of t' i = Some s \<longleftrightarrow> (if i = sid_encode n (sl_generation sl) then sl_session sl
      else if i = sid_encode n (?g n) then None else sessions_of t i) = Some s" .
qed

lemma live_slots_update:
  assumes "length (st_slots t) = SESSION_TABLE_CAP" "n < SESSION_TABLE_CAP"
  shows "live_slots_of (t\<lparr>st_slots := (st_slots t)[n := sl], st_live_count := c\<rparr>) =
    (if sl_session sl = None then live_slots_of t - {n} else insert n (live_slots_of t))"
proof -
  have "sl_session ((st_slots t)[n := sl] ! m) \<noteq> None \<longleftrightarrow> (if m = n then sl_session sl \<noteq> None else sl_session (st_slots t ! m) \<noteq> None)" for m
    using assms by (cases "m = n") simp_all
  then show ?thesis using assms(2) by (auto simp: live_slots_of_def)
qed

lemma table_inv_update:
  assumes "table_inv t" "n < SESSION_TABLE_CAP" "sl_generation sl AND GEN_MASK = sl_generation sl"
    and "c = card (if sl_session sl = None then live_slots_of t - {n} else insert n (live_slots_of t))"
  shows "table_inv (t\<lparr>st_slots := (st_slots t)[n := sl], st_live_count := c\<rparr>)"
proof -
  note d = table_invD [OF assms(1)]
  have "sl_generation ((st_slots t)[n := sl] ! m) AND GEN_MASK = sl_generation ((st_slots t)[n := sl] ! m)" if "m < SESSION_TABLE_CAP" for m
    using d(1) d(3) [OF that] assms(2,3) by (cases "m = n") simp_all
  then show ?thesis unfolding table_inv_def live_slots_update [OF d(1) assms(2)] using d(1) assms(4) by simp
qed

lemma bump_masked [simp]: "bump g AND GEN_MASK = bump g"
  by (simp add: bump_def and.assoc)

lemma table_inv_new: "table_inv table_new" and sessions_of_new: "sessions_of table_new = (\<lambda>_. None)"
proof -
  have "live_slots_of table_new = {}" by (auto simp: live_slots_of_def table_new_def)
  then show "table_inv table_new" by (simp add: table_inv_def) (simp add: table_new_def)
  then show "sessions_of table_new = (\<lambda>_. None)"
    by (intro ext option_eqI) (auto simp: sessions_of_iff table_new_def)
qed

lemma acquire_ok:
  assumes "table_inv t" "acquire t s = Inr (i, t')"
  shows "table_inv t' \<and> sessions_of t i = None \<and> sessions_of t' = (sessions_of t)(i \<mapsto> s)"
proof -
  from assms(2) obtain n where n: "position (\<lambda>sl. sl_session sl = None) (st_slots t) = Some n"
    "i = sid_encode n (sl_generation (st_slots t ! n))"
    "t' = t\<lparr>st_slots := (st_slots t)[n := (st_slots t ! n)\<lparr>sl_session := Some s\<rparr>], st_live_count := st_live_count t + 1\<rparr>"
    by (auto simp: acquire_def split: option.splits)
  note d = table_invD [OF assms(1)]
  from position_SomeD [OF n(1)] d(1) have nl: "n < SESSION_TABLE_CAP" "sl_session (st_slots t ! n) = None" by auto
  then have "n \<notin> live_slots_of t" by (simp add: live_slots_of_def)
  then have inv: "table_inv t'" unfolding n(3) using nl d(2,3) by (intro table_inv_update [OF assms(1)]) simp_all
  have "sessions_of t i = None" using nl(2) n(2) d(3) [OF nl(1)] by (simp add: sessions_of_encode [OF assms(1) nl(1)])
  moreover have "sessions_of t' j = ((sessions_of t)(i \<mapsto> s)) j" for j
    using sessions_of_update [OF assms(1) nl(1) _ n(3) inv, of j] d(3) [OF nl(1)] n(2) by simp
  ultimately show ?thesis using inv by blast
qed

lemma acquire_full:
  assumes "table_inv t"
  shows "acquire t s = Inl TableFull \<longleftrightarrow> st_live_count t = SESSION_TABLE_CAP"
proof -
  note d = table_invD [OF assms]
  have sub: "live_slots_of t \<subseteq> {..<SESSION_TABLE_CAP}" by (auto simp: live_slots_of_def)
  have "acquire t s = Inl TableFull \<longleftrightarrow> live_slots_of t = {..<SESSION_TABLE_CAP}"
  proof -
    have "acquire t s = Inl TableFull \<longleftrightarrow> position (\<lambda>sl. sl_session sl = None) (st_slots t) = None"
      by (auto simp: acquire_def simp del: position_None_iff split: option.splits)
    also have "\<dots> \<longleftrightarrow> (\<forall>n < SESSION_TABLE_CAP. sl_session (st_slots t ! n) \<noteq> None)"
      using d(1) by (simp add: all_set_conv_all_nth)
    finally show ?thesis by (auto simp: live_slots_of_def)
  qed
  also have "\<dots> \<longleftrightarrow> card (live_slots_of t) = SESSION_TABLE_CAP"
    using card_subset_eq [OF finite_lessThan sub] by (metis card_lessThan)
  finally show ?thesis using d(2) by simp
qed

lemma release_session_ok:
  assumes "table_inv t"
  shows "case sessions_of t i of
      None \<Rightarrow> release t i = Some (Inl Stale)
    | Some s \<Rightarrow> \<exists>t'. release t i = Some (Inr (s, t')) \<and> table_inv t' \<and> sessions_of t' = (sessions_of t)(i := None)"
proof (cases "sessions_of t i")
  case None
  then show ?thesis by (auto simp: release_def sessions_of_def lookup_session_def split: option.splits if_splits)
next
  case (Some s)
  note d = table_invD [OF assms]
  from Some sessions_of_iff [OF assms] obtain n where n: "n < SESSION_TABLE_CAP" "i = sid_encode n (sl_generation (st_slots t ! n))"
    "sl_session (st_slots t ! n) = Some s" by blast
  then have live: "n \<in> live_slots_of t" by (simp add: live_slots_of_def)
  let ?sl = "\<lparr>sl_session = None, sl_generation = bump (sl_generation (st_slots t ! n))\<rparr>"
  let ?t = "t\<lparr>st_slots := (st_slots t)[n := ?sl], st_live_count := st_live_count t - 1\<rparr>"
  have "1 \<le> st_live_count t" using live d(2) card_gt_0_iff [of "live_slots_of t"] by auto
  then have r: "release t i = Some (Inr (s, ?t))" using n d(3) [OF n(1)] by (simp add: release_def)
  have inv: "table_inv ?t" using n(1) live d(2) by (intro table_inv_update [OF assms]) simp_all
  have "sessions_of ?t j = ((sessions_of t)(i := None)) j" for j
  proof -
    have "sessions_of t (sid_encode n (bump (sl_generation (st_slots t ! n)))) = None" if "bump (sl_generation (st_slots t ! n)) \<noteq> sl_generation (st_slots t ! n)"
      using that by (simp add: sessions_of_encode [OF assms n(1)])
    then show ?thesis using sessions_of_update [OF assms n(1) _ refl inv, of j] n(2) d(3) [OF n(1)]
      by (cases "bump (sl_generation (st_slots t ! n)) = sl_generation (st_slots t ! n)") auto
  qed
  with r inv Some show ?thesis by auto
qed


lemma update_session_ok:
  assumes "table_inv t"
  shows "case sessions_of t i of
      None \<Rightarrow> update_session t i f = Inl Stale
    | Some s \<Rightarrow> \<exists>t'. update_session t i f = Inr t' \<and> table_inv t' \<and> sessions_of t' = (sessions_of t)(i \<mapsto> f s)"
proof (cases "sessions_of t i")
  case None
  then show ?thesis by (auto simp: update_session_def sessions_of_def lookup_session_def split: option.splits if_splits)
next
  case (Some s)
  note d = table_invD [OF assms]
  from Some sessions_of_iff [OF assms] obtain n where n: "n < SESSION_TABLE_CAP" "i = sid_encode n (sl_generation (st_slots t ! n))"
    "sl_session (st_slots t ! n) = Some s" by blast
  then have live: "n \<in> live_slots_of t" by (simp add: live_slots_of_def)
  let ?sl = "(st_slots t ! n)\<lparr>sl_session := Some (f s)\<rparr>"
  let ?t = "t\<lparr>st_slots := (st_slots t)[n := ?sl], st_live_count := st_live_count t\<rparr>"
  have r: "update_session t i f = Inr ?t" using n d(3) [OF n(1)] by (simp add: update_session_def)
  have inv: "table_inv ?t" using n(1) live d(2,3) by (intro table_inv_update [OF assms]) (simp_all add: insert_absorb)
  have "sessions_of ?t j = ((sessions_of t)(i \<mapsto> f s)) j" for j
    using sessions_of_update [OF assms n(1) _ refl inv, of j] n(2) d(3) [OF n(1)] by simp
  with r inv Some show ?thesis by auto
qed

lemma live_slots_belonging:
  "length (st_slots t) = SESSION_TABLE_CAP \<Longrightarrow> length (filter (belongs_to u) (st_slots t)) = card {n \<in> live_slots_of t. belongs_to u (st_slots t ! n)}"
proof -
  assume len: "length (st_slots t) = SESSION_TABLE_CAP"
  have "{n. n < length (st_slots t) \<and> belongs_to u (st_slots t ! n)} = {n \<in> live_slots_of t. belongs_to u (st_slots t ! n)}"
    using len by (auto simp: live_slots_of_def belongs_to_def split: option.splits)
  then show ?thesis by (simp add: length_filter_conv_card)
qed

lemma invalidate_user_ok:
  assumes "table_inv t"
  shows "\<exists>t'. invalidate_user t u = Some (card {i. \<exists>s. sessions_of t i = Some s \<and> s_user_id s = u}, t') \<and> table_inv t' \<and>
    (\<forall>i. sessions_of t' i = (case sessions_of t i of None \<Rightarrow> None | Some s \<Rightarrow> if s_user_id s = u then None else Some s))"
proof -
  note d = table_invD [OF assms]
  let ?b = "\<lambda>n. belongs_to u (st_slots t ! n)"
  let ?B = "{n \<in> live_slots_of t. ?b n}"
  define slots where "slots = map (\<lambda>sl. if belongs_to u sl then \<lparr>sl_session = None, sl_generation = bump (sl_generation sl)\<rparr> else sl) (st_slots t)"
  define t' where "t' = t\<lparr>st_slots := slots, st_live_count := st_live_count t - card ?B\<rparr>"
  have sl: "slots ! n = (if ?b n then \<lparr>sl_session = None, sl_generation = bump (sl_generation (st_slots t ! n))\<rparr> else st_slots t ! n)"
    if "n < SESSION_TABLE_CAP" for n using that d(1) by (simp add: slots_def)
  have live: "live_slots_of t' = live_slots_of t - ?B" using sl by (auto simp: live_slots_of_def t'_def split: if_splits)
  have "card (live_slots_of t') = st_live_count t - card ?B" unfolding live d(2) by (rule card_Diff_subset) auto
  moreover have "sl_generation (slots ! n) AND GEN_MASK = sl_generation (slots ! n)" if "n < SESSION_TABLE_CAP" for n
    using sl [OF that] d(3) [OF that] by simp
  ultimately have inv: "table_inv t'" using d(1) by (simp add: table_inv_def t'_def slots_def)
  have s: "sessions_of t' i = (case sessions_of t i of None \<Rightarrow> None | Some s \<Rightarrow> if s_user_id s = u then None else Some s)" for i
  proof (cases "sid_slot i")
    case None
    then show ?thesis by (simp add: sessions_of_def lookup_session_def)
  next
    case (Some n)
    then have i: "i = sid_encode n (sid_generation i)" "n < SESSION_TABLE_CAP" using sid_encode_decode sid_slot_bound by metis+
    show ?thesis
      by (subst (1 2) i(1), unfold sessions_of_encode [OF inv i(2)] sessions_of_encode [OF assms i(2)])
        (use sl [OF i(2)] in \<open>auto simp: t'_def belongs_to_def split: option.splits\<close>)
  qed
  have "{i. \<exists>s. sessions_of t i = Some s \<and> s_user_id s = u} = (\<lambda>n. sid_encode n (sl_generation (st_slots t ! n))) ` ?B"
    unfolding sessions_of_iff [OF assms] by (auto simp: live_slots_of_def belongs_to_def split: option.splits)
  moreover have "inj_on (\<lambda>n. sid_encode n (sl_generation (st_slots t ! n))) ?B"
    by (auto simp: inj_on_def live_slots_of_def sid_encode_inject)
  ultimately have c: "card {i. \<exists>s. sessions_of t i = Some s \<and> s_user_id s = u} = card ?B" by (simp add: card_image)
  have "card ?B \<le> st_live_count t" unfolding d(2) by (rule card_mono) auto
  then have "invalidate_user t u = Some (card ?B, t')"
    unfolding invalidate_user_def live_slots_belonging [OF d(1)] Let_def by (simp add: t'_def slots_def)
  then show ?thesis using c inv s by auto
qed

lemma card_sessions:
  assumes "table_inv t"
  shows "card (dom (sessions_of t)) = st_live_count t" "st_live_count t \<le> SESSION_TABLE_CAP"
proof -
  have "dom (sessions_of t) = (\<lambda>n. sid_encode n (sl_generation (st_slots t ! n))) ` live_slots_of t"
    unfolding dom_def using sessions_of_iff [OF assms] by (auto simp: live_slots_of_def)
  moreover have "inj_on (\<lambda>n. sid_encode n (sl_generation (st_slots t ! n))) (live_slots_of t)"
    by (auto simp: inj_on_def live_slots_of_def sid_encode_inject)
  ultimately show "card (dom (sessions_of t)) = st_live_count t" using table_invD(2) [OF assms] by (simp add: card_image)
  have "card (live_slots_of t) \<le> card {..<SESSION_TABLE_CAP}" by (rule card_mono) (auto simp: live_slots_of_def)
  then show "st_live_count t \<le> SESSION_TABLE_CAP" using table_invD(2) [OF assms] by simp
qed

section \<open>The interface of the session store\<close>

text \<open>What the handlers rely on: the store is a map from identifiers to sessions.\<close>

locale session_store =
  fixes inv :: "'t \<Rightarrow> bool"
    and view :: "'t \<Rightarrow> session_id \<Rightarrow> session option"
    and store :: "'t \<Rightarrow> session \<Rightarrow> (session_error, session_id \<times> 't) result"
    and drop_id :: "'t \<Rightarrow> session_id \<Rightarrow> (session_error, session \<times> 't) result option"
    and change :: "'t \<Rightarrow> session_id \<Rightarrow> (session \<Rightarrow> session) \<Rightarrow> (session_error, 't) result"
  assumes store_fresh: "inv t \<Longrightarrow> store t s = Inr (i, t') \<Longrightarrow> inv t' \<and> view t i = None \<and> view t' = (view t)(i \<mapsto> s)"
    and drop_live: "inv t \<Longrightarrow> view t i = Some s \<Longrightarrow> \<exists>t'. drop_id t i = Some (Inr (s, t')) \<and> inv t' \<and> view t' = (view t)(i := None)"
    and drop_stale: "inv t \<Longrightarrow> view t i = None \<Longrightarrow> drop_id t i = Some (Inl Stale)"
    and change_live: "inv t \<Longrightarrow> view t i = Some s \<Longrightarrow> \<exists>t'. change t i f = Inr t' \<and> inv t' \<and> view t' = (view t)(i \<mapsto> f s)"
    and change_stale: "inv t \<Longrightarrow> view t i = None \<Longrightarrow> change t i f = Inl Stale"
begin

lemma store_drop:
  assumes "inv t" "store t s = Inr (i, t')"
  shows "\<exists>t''. drop_id t' i = Some (Inr (s, t'')) \<and> inv t'' \<and> view t'' = view t \<and> drop_id t'' i = Some (Inl Stale)"
proof -
  from store_fresh [OF assms] have t': "inv t'" "view t i = None" "view t' = (view t)(i \<mapsto> s)" by auto
  with drop_live [OF t'(1), of i s] obtain t'' where "drop_id t' i = Some (Inr (s, t''))" "inv t''" "view t'' = (view t')(i := None)" by auto
  moreover then have "view t'' = view t" using t'(2,3) by (auto simp: fun_eq_iff)
  ultimately show ?thesis using drop_stale t'(2) by auto
qed

lemma store_keeps_others:
  assumes "inv t" "store t s = Inr (i, t')" "view t j = Some r"
  shows "j \<noteq> i \<and> view t' j = Some r"
  using store_fresh [OF assms(1,2)] assms(3) by auto

end

interpretation ss: session_store table_inv sessions_of acquire release update_session
proof
  fix t s i t' f
  assume inv: "table_inv t"
  show "acquire t s = Inr (i, t') \<Longrightarrow> table_inv t' \<and> sessions_of t i = None \<and> sessions_of t' = (sessions_of t)(i \<mapsto> s)"
    by (rule acquire_ok [OF inv])
  show "sessions_of t i = Some s \<Longrightarrow> \<exists>t'. release t i = Some (Inr (s, t')) \<and> table_inv t' \<and> sessions_of t' = (sessions_of t)(i := None)"
    using release_session_ok [OF inv, of i] by simp
  show "sessions_of t i = None \<Longrightarrow> release t i = Some (Inl Stale)" using release_session_ok [OF inv, of i] by simp
  show "sessions_of t i = Some s \<Longrightarrow> \<exists>t'. update_session t i f = Inr t' \<and> table_inv t' \<and> sessions_of t' = (sessions_of t)(i \<mapsto> f s)"
    using update_session_ok [OF inv, of i f] by simp
  show "sessions_of t i = None \<Longrightarrow> update_session t i f = Inl Stale" using update_session_ok [OF inv, of i f] by simp
qed


section \<open>Sweeping\<close>

lemma table_iter_sessions:
  assumes "table_inv t"
  shows "set (table_iter t) = {(i, s). sessions_of t i = Some s}" "distinct (map fst (table_iter t))"
proof -
  let ?e = "\<lambda>n. sid_encode n (sl_generation (st_slots t ! n))"
  let ?f = "\<lambda>n. case sl_session (st_slots t ! n) of None \<Rightarrow> [] | Some s \<Rightarrow> [(?e n, s)]"
  show "set (table_iter t) = {(i, s). sessions_of t i = Some s}"
    unfolding sessions_of_iff [OF assms] by (auto simp: table_iter_def split: option.splits)
  have "distinct (map fst (concat (map ?f [0..<m])))" if "m \<le> SESSION_TABLE_CAP" for m
    using that
  proof (induction m)
    case (Suc m)
    have "?e m \<notin> fst ` set (concat (map ?f [0..<m]))"
      using Suc.prems by (auto simp: sid_encode_inject split: option.splits)
    then show ?case using Suc by (auto split: option.splits)
  qed simp
  from this [of SESSION_TABLE_CAP] show "distinct (map fst (table_iter t))" by (simp add: table_iter_def)
qed

lemma sweep_loop_ok:
  "table_inv t \<Longrightarrow> distinct is \<Longrightarrow> \<forall>i \<in> set is. sessions_of t i \<noteq> None \<Longrightarrow>
     \<exists>t'. sweep_loop is t = Some (length is, map (\<lambda>i. (i, the (sessions_of t i))) is, t') \<and> table_inv t' \<and>
       sessions_of t' = (sessions_of t) |` (- set is)"
proof (induction "is" arbitrary: t)
  case (Cons i js)
  from Cons.prems(3) obtain s where s: "sessions_of t i = Some s" by auto
  from ss.drop_live [OF Cons.prems(1) s] obtain t1 where
    t1: "release t i = Some (Inr (s, t1))" "table_inv t1" "sessions_of t1 = (sessions_of t)(i := None)" by blast
  have "\<forall>j \<in> set js. sessions_of t1 j = sessions_of t j" using t1(3) Cons.prems(2) by auto
  then have m: "map (\<lambda>j. (j, the (sessions_of t1 j))) js = map (\<lambda>j. (j, the (sessions_of t j))) js" by simp
  have "\<forall>j \<in> set js. sessions_of t1 j \<noteq> None" using t1(3) Cons.prems(2,3) by auto
  from Cons.IH [OF t1(2) _ this] Cons.prems(2) m obtain t' where
    t': "sweep_loop js t1 = Some (length js, map (\<lambda>j. (j, the (sessions_of t j))) js, t')" "table_inv t'"
      "sessions_of t' = (sessions_of t1) |` (- set js)" by auto
  have "sessions_of t' = (sessions_of t) |` (- set (i # js))" unfolding t'(3) t1(3) by (auto simp: restrict_map_def fun_eq_iff)
  moreover have "lookup_session t i = Inr s" using s lookup_cases [of t i] by auto
  ultimately show ?case using t1(1) t'(1,2) s by auto
qed (simp add: restrict_map_def)

text \<open>
  The sweep ends exactly the idle sessions. In every state of the table one tick of the sweeper
  ends every session that has been inactive for longer than its role allows and no other, whatever
  the clock says, reports each of them once and with its data, and returns their number; a session
  whose last activity lies in the future of a clock that was set back is kept.\<close>

theorem sweep_ends_exactly_idle_sessions:
  assumes "table_inv t"
  shows "\<exists>events t'. sweep_tick p now t = Some (length events, events, t') \<and> table_inv t' \<and> distinct (map fst events) \<and>
    set events = {(i, s). sessions_of t i = Some s \<and> is_idle p now s} \<and>
    (\<forall>i. sessions_of t' i = (case sessions_of t i of None \<Rightarrow> None | Some s \<Rightarrow> if is_idle p now s then None else Some s)) \<and>
    (\<forall>s. is_idle p now s \<longleftrightarrow> unat (s_last_activity s) + unat (for_role p (s_role s)) < unat now)"
proof -
  let ?ids = "map fst (filter (\<lambda>(i, s). is_idle p now s) (table_iter t))"
  note it = table_iter_sessions [OF assms]
  have ids: "i \<in> set ?ids \<longleftrightarrow> (\<exists>s. sessions_of t i = Some s \<and> is_idle p now s)" for i using it(1) by force
  have "distinct ?ids" using it(2) by (rule distinct_map_filter)
  moreover have "\<forall>i \<in> set ?ids. sessions_of t i \<noteq> None" unfolding Ball_def ids by auto
  ultimately obtain t' where t': "sweep_loop ?ids t = Some (length ?ids, map (\<lambda>i. (i, the (sessions_of t i))) ?ids, t')" "table_inv t'"
    "sessions_of t' = (sessions_of t) |` (- set ?ids)" using sweep_loop_ok [OF assms] by blast
  define events where "events = map (\<lambda>i. (i, the (sessions_of t i))) ?ids"
  have "set events = {(i, s). sessions_of t i = Some s \<and> is_idle p now s}" 
    unfolding events_def set_map [of _ ?ids] using ids by (auto simp del: set_map set_filter simp: image_def)
  moreover have "map fst events = ?ids" by (simp add: events_def comp_def)
  moreover have "sessions_of t' i = (case sessions_of t i of None \<Rightarrow> None | Some s \<Rightarrow> if is_idle p now s then None else Some s)" for i
    unfolding t'(3) restrict_map_def Compl_iff ids by (auto split: option.splits)
  moreover have "is_idle p now s \<longleftrightarrow> unat (s_last_activity s) + unat (for_role p (s_role s)) < unat now" for s
    by (auto simp: is_idle_def saturating_sub_def word_less_nat_alt word_le_nat_alt unat_sub)
  moreover have "sweep_tick p now t = Some (length events, events, t')" using t'(1) by (simp add: sweep_tick_def events_def)
  ultimately show ?thesis using t'(2) \<open>distinct ?ids\<close> by (intro exI [of _ events] exI [of _ t']) simp
qed

section \<open>Identifiers are not given out twice\<close>

text \<open>
  Every history of the table, with the identifiers given out so far and the number of sessions
  that have ended.\<close>

inductive sess_run :: "session_table \<Rightarrow> session_id set \<Rightarrow> nat \<Rightarrow> bool" where
  sr_new: "sess_run table_new {} 0"
| sr_acquire: "sess_run t I n \<Longrightarrow> acquire t s = Inr (i, t') \<Longrightarrow> sess_run t' (insert i I) n"
| sr_release: "sess_run t I n \<Longrightarrow> release t i = Some (Inr (s, t')) \<Longrightarrow> sess_run t' I (Suc n)"
| sr_update: "sess_run t I n \<Longrightarrow> update_session t i f = Inr t' \<Longrightarrow> sess_run t' I n"
| sr_invalidate: "sess_run t I n \<Longrightarrow> invalidate_user t u = Some (c, t') \<Longrightarrow> sess_run t' I (n + c)"

lemma sweep_loop_run: "sess_run t I n \<Longrightarrow> sweep_loop is t = Some (c, events, t') \<Longrightarrow> sess_run t' I (n + c)"
proof (induction "is" arbitrary: t n c events)
  case (Cons i js)
  show ?case
  proof (cases "lookup_session t i")
    case (Inl e)
    with Cons show ?thesis by auto
  next
    case (Inr s)
    with Cons.prems(2) obtain r c' ev' where r: "release t i = Some r" "sweep_loop js (case r of Inl _ \<Rightarrow> t | Inr (_, t1) \<Rightarrow> t1) = Some (c', ev', t')"
      "c = (case r of Inl _ \<Rightarrow> 0 | Inr _ \<Rightarrow> 1) + c'" by (auto split: bind_splits)
    show ?thesis
    proof (cases r)
      case (Inl e)
      with Cons.IH [OF Cons.prems(1)] r show ?thesis by simp
    next
      case (Inr x)
      with r Cons.IH [OF sr_release [OF Cons.prems(1)], of i "fst x" "snd x" c' ev'] show ?thesis by (cases x) auto
    qed
  qed
qed auto

text \<open>An identifier of a slot is older than the slot's generation, or it is the live one.\<close>

definition issued_inv :: "session_table \<Rightarrow> session_id set \<Rightarrow> nat \<Rightarrow> bool" where
  "issued_inv t I n \<longleftrightarrow> table_inv t \<and> (\<forall>m < SESSION_TABLE_CAP. unat (sl_generation (st_slots t ! m)) \<le> n) \<and>
     (\<forall>i \<in> I. \<exists>m. sid_slot i = Some m \<and> (unat (sid_generation i) < unat (sl_generation (st_slots t ! m)) \<or>
        sid_generation i = sl_generation (st_slots t ! m) \<and> sl_session (st_slots t ! m) \<noteq> None)) \<and>
     dom (sessions_of t) \<subseteq> I"

lemma bump_unat: "unat g + 1 < 2 ^ 24 \<Longrightarrow> unat (bump g) = unat g + 1"
proof -
  assume g: "unat g + 1 < 2 ^ 24"
  have e: "unat (g + 1) = unat g + 1" using g by (simp add: unat_word_ariths)
  have "bump g = take_bit 24 (g + 1)" unfolding bump_def GEN_MASK_mask take_bit_eq_mask ..
  then have "unat (bump g) = take_bit 24 (unat (g + 1))" by (simp only: unsigned_take_bit_eq)
  also have "\<dots> = unat g + 1" unfolding e using g by (rule take_bit_nat_eq_self)
  finally show ?thesis .
qed

lemma issued_slot:
  assumes "issued_inv t I n" "i \<in> I"
  obtains m where "sid_slot i = Some m" "m < SESSION_TABLE_CAP" "unat (sid_generation i) < unat (sl_generation (st_slots t ! m)) \<or>
        sid_generation i = sl_generation (st_slots t ! m) \<and> sl_session (st_slots t ! m) \<noteq> None"
  using assms sid_slot_bound unfolding issued_inv_def by blast

lemma issued_inv_table: "issued_inv t I n \<Longrightarrow> table_inv t"
  by (simp add: issued_inv_def)

text \<open>A free slot has no identifier of its generation, so the one it gives out next is new.\<close>

lemma acquire_issued:
  assumes "issued_inv t I n" "acquire t s = Inr (i, t')"
  shows "i \<notin> I \<and> issued_inv t' (insert i I) n"
proof -
  have inv: "table_inv t" using assms(1) by (rule issued_inv_table)
  note d = table_invD [OF inv]
  from assms(2) obtain m where m: "position (\<lambda>sl. sl_session sl = None) (st_slots t) = Some m"
    "i = sid_encode m (sl_generation (st_slots t ! m))"
    "st_slots t' = (st_slots t)[m := (st_slots t ! m)\<lparr>sl_session := Some s\<rparr>]"
    by (auto simp: acquire_def split: option.splits)
  from position_SomeD [OF m(1)] d(1) have ml: "m < SESSION_TABLE_CAP" "sl_session (st_slots t ! m) = None" by auto
  have g: "sl_generation (st_slots t' ! k) = sl_generation (st_slots t ! k)" for k
    using m(3) d(1) ml(1) by (cases "k = m") simp_all
  have l: "sl_session (st_slots t ! k) \<noteq> None \<Longrightarrow> sl_session (st_slots t' ! k) \<noteq> None" "sl_session (st_slots t' ! m) \<noteq> None" for k
    using m(3) d(1) ml by (cases "k = m"; simp)+
  have "i \<notin> I"
  proof
    assume "i \<in> I"
    from issued_slot [OF assms(1) this] show False using m(2) ml d(3) [OF ml(1)] by (auto simp del: not_None_eq)
  qed
  moreover have "\<exists>k. sid_slot j = Some k \<and> (unat (sid_generation j) < unat (sl_generation (st_slots t' ! k)) \<or>
      sid_generation j = sl_generation (st_slots t' ! k) \<and> sl_session (st_slots t' ! k) \<noteq> None)" if "j \<in> insert i I" for j
  proof (cases "j = i")
    case True
    then show ?thesis using m(2) ml(1) l(2) d(3) [OF ml(1)] by (simp add: g del: not_None_eq)
  next
    case False
    with that have "j \<in> I" by simp
    from issued_slot [OF assms(1) this] show ?thesis using l(1) by (metis g)
  qed
  moreover have "dom (sessions_of t') \<subseteq> insert i I" "table_inv t'"
    using ss.store_fresh [OF inv assms(2)] assms(1) by (auto simp: issued_inv_def)
  ultimately show ?thesis using assms(1) unfolding issued_inv_def g by blast
qed

text \<open>Ending the sessions of some slots, each with the next generation.\<close>

lemma ended_issued:
  assumes "issued_inv t I n" "table_inv t'" "\<And>i. sessions_of t' i \<noteq> None \<Longrightarrow> sessions_of t i \<noteq> None" "n + c < 2 ^ 24"
    and "\<And>m. m < SESSION_TABLE_CAP \<Longrightarrow> st_slots t' ! m = st_slots t ! m \<or>
      sl_generation (st_slots t' ! m) = bump (sl_generation (st_slots t ! m)) \<and> 0 < c"
  shows "issued_inv t' I (n + c)"
proof -
  have gen: "unat (sl_generation (st_slots t ! m)) \<le> n" if "m < SESSION_TABLE_CAP" for m using that assms(1) by (simp add: issued_inv_def)
  have up: "st_slots t' ! m = st_slots t ! m \<or> unat (sl_generation (st_slots t' ! m)) = unat (sl_generation (st_slots t ! m)) + 1 \<and> 0 < c"
    if "m < SESSION_TABLE_CAP" for m
    using assms(5) [OF that] bump_unat [of "sl_generation (st_slots t ! m)"] gen [OF that] assms(4) by fastforce
  have "unat (sl_generation (st_slots t' ! m)) \<le> n + c" if "m < SESSION_TABLE_CAP" for m
    using up [OF that] gen [OF that] by fastforce
  moreover have "\<exists>k. sid_slot j = Some k \<and> (unat (sid_generation j) < unat (sl_generation (st_slots t' ! k)) \<or>
      sid_generation j = sl_generation (st_slots t' ! k) \<and> sl_session (st_slots t' ! k) \<noteq> None)" if "j \<in> I" for j
  proof -
    from issued_slot [OF assms(1) that] obtain k where k: "sid_slot j = Some k" "k < SESSION_TABLE_CAP"
      "unat (sid_generation j) < unat (sl_generation (st_slots t ! k)) \<or> sid_generation j = sl_generation (st_slots t ! k) \<and> sl_session (st_slots t ! k) \<noteq> None" .
    then show ?thesis using up [OF k(2)] by fastforce
  qed
  moreover have "dom (sessions_of t') \<subseteq> I" using assms(1,3) by (auto simp: issued_inv_def dom_def)
  ultimately show ?thesis using assms(2) by (simp add: issued_inv_def)
qed

lemma release_cases:
  assumes "release t i = Some (Inr (s, t'))"
  obtains n where "sid_slot i = Some n" "st_slots t' = (st_slots t)[n := \<lparr>sl_session = None, sl_generation = bump (sl_generation (st_slots t ! n))\<rparr>]"
  using assms by (auto simp: release_def split: option.splits if_splits bind_splits)

lemma update_cases:
  assumes "update_session t i f = Inr t'"
  obtains n s where "sid_slot i = Some n" "sl_session (st_slots t ! n) = Some s"
    "st_slots t' = (st_slots t)[n := (st_slots t ! n)\<lparr>sl_session := Some (f s)\<rparr>]"
  using assms by (auto simp: update_session_def split: option.splits if_splits)

lemma release_issued:
  assumes "issued_inv t I n" "release t i = Some (Inr (s, t'))" "n + 1 < 2 ^ 24"
  shows "issued_inv t' I (n + 1)"
proof -
  have inv: "table_inv t" using assms(1) by (rule issued_inv_table)
  then have r: "table_inv t'" "sessions_of t' = (sessions_of t)(i := None)"
    using release_session_ok [OF inv, of i] assms(2) by (auto split: option.splits)
  obtain m where m: "st_slots t' = (st_slots t)[m := \<lparr>sl_session = None, sl_generation = bump (sl_generation (st_slots t ! m))\<rparr>]"
    using release_cases [OF assms(2)] .
  show ?thesis
  proof (rule ended_issued [OF assms(1) r(1) _ assms(3)])
    show "sessions_of t' j \<noteq> None \<Longrightarrow> sessions_of t j \<noteq> None" for j by (auto simp: r(2) split: if_splits)
    show "st_slots t' ! k = st_slots t ! k \<or> sl_generation (st_slots t' ! k) = bump (sl_generation (st_slots t ! k)) \<and> 0 < (1 :: nat)"
      if "k < SESSION_TABLE_CAP" for k
      using m that table_invD(1) [OF inv] by (cases "k = m") simp_all
  qed
qed

lemma update_issued:
  assumes "issued_inv t I n" "update_session t i f = Inr t'"
  shows "issued_inv t' I n"
proof -
  have inv: "table_inv t" using assms(1) by (rule issued_inv_table)
  from update_session_ok [OF inv, of i f] assms(2) have r: "table_inv t'" "dom (sessions_of t') = dom (sessions_of t)"
    by (auto split: option.splits)
  from update_cases [OF assms(2)] obtain m s where m: "sl_session (st_slots t ! m) = Some s"
    "st_slots t' = (st_slots t)[m := (st_slots t ! m)\<lparr>sl_session := Some (f s)\<rparr>]" by metis
  have "sl_generation (st_slots t' ! k) = sl_generation (st_slots t ! k) \<and> (sl_session (st_slots t' ! k) = None \<longleftrightarrow> sl_session (st_slots t ! k) = None)" for k
    unfolding m(2) using m(1) by (cases "k = m"; cases "m < length (st_slots t)") (simp_all add: list_update_beyond)
  then show ?thesis using assms(1) r by (simp add: issued_inv_def)
qed

lemma invalidate_issued:
  assumes "issued_inv t I n" "invalidate_user t u = Some (c, t')" "n + c < 2 ^ 24"
  shows "issued_inv t' I (n + c)"
proof -
  have inv: "table_inv t" using assms(1) by (rule issued_inv_table)
  from invalidate_user_ok [OF inv, of u] assms(2) have r: "table_inv t'" "\<And>i. sessions_of t' i \<noteq> None \<Longrightarrow> sessions_of t i \<noteq> None"
    by (auto split: option.splits)
  from assms(2) have m: "c = length (filter (belongs_to u) (st_slots t))"
    "st_slots t' = map (\<lambda>sl. if belongs_to u sl then \<lparr>sl_session = None, sl_generation = bump (sl_generation sl)\<rparr> else sl) (st_slots t)"
    by (auto simp: invalidate_user_def Let_def split: bind_splits)
  show ?thesis
  proof (rule ended_issued [OF assms(1) r assms(3)])
    fix k assume k: "k < SESSION_TABLE_CAP"
    have "0 < c" if "belongs_to u (st_slots t ! k)"
    proof -
      have "st_slots t ! k \<in> set (filter (belongs_to u) (st_slots t))" using that k table_invD(1) [OF inv] by simp
      then show ?thesis unfolding m(1) by (rule length_pos_if_in_set)
    qed
    then show "st_slots t' ! k = st_slots t ! k \<or> sl_generation (st_slots t' ! k) = bump (sl_generation (st_slots t ! k)) \<and> 0 < c"
      using m(2) k table_invD(1) [OF inv] by simp
  qed
qed

lemma issued_inv_run: "sess_run t I n \<Longrightarrow> n < 2 ^ 24 \<Longrightarrow> issued_inv t I n"
proof (induction rule: sess_run.induct)
  case sr_new
  show ?case by (simp add: issued_inv_def table_inv_new sessions_of_new) (simp add: table_new_def)
next
  case (sr_acquire t I n s i t')
  then show ?case using acquire_issued by blast
next
  case (sr_release t I n i s t')
  then show ?case using release_issued [of t I n i s t'] by simp
next
  case (sr_update t I n i f t')
  then show ?case using update_issued by blast
next
  case (sr_invalidate t I n u c t')
  then show ?case using invalidate_issued [of t I n u c t'] by simp
qed

text \<open>
  C12. A session identifier is never given out twice. In every history of the session table, made of
  logins, logouts, updates, removals of a user and sweeps, in which fewer than \<open>2^24\<close> sessions have
  ended, every live identifier was given out by a login, and the next login gives out an identifier
  that no earlier login returned: the identifier of an ended session never comes to name the session
  of another login.\<close>

theorem session_ids_never_reissued:
  assumes "sess_run t I n" "n < 2 ^ 24" "sweep_tick p now t = Some (c, events, t1)" "n + c < 2 ^ 24"
    and "acquire t1 s = Inr (i, t2)"
  shows "dom (sessions_of t1) \<subseteq> I \<and> i \<notin> I \<and> sess_run t2 (insert i I) (n + c)"
proof -
  have r: "sess_run t1 I (n + c)" using sweep_loop_run [OF assms(1)] assms(3) by (simp add: sweep_tick_def)
  from issued_inv_run [OF this assms(4)] have inv: "issued_inv t1 I (n + c)" .
  then have "dom (sessions_of t1) \<subseteq> I" by (simp add: issued_inv_def)
  then show ?thesis using acquire_issued [OF inv assms(5)] sr_acquire [OF r assms(5)] by blast
qed

text \<open>
  C19. The session table implements a map. In every state of the table a login fails exactly when
  32 sessions are live and otherwise adds its session under an identifier that was not live; a logout
  or an update fails with \<open>Stale\<close> exactly on identifiers that are not live and otherwise changes that
  entry alone; removing a user ends exactly the sessions of that user and returns their number. The
  counter of live sessions never underflows.\<close>

theorem session_table_refines_map:
  assumes "table_inv t"
  shows "(case acquire t s of
        Inl e \<Rightarrow> e = TableFull \<and> card (dom (sessions_of t)) = SESSION_TABLE_CAP
      | Inr (i, t') \<Rightarrow> table_inv t' \<and> card (dom (sessions_of t)) < SESSION_TABLE_CAP \<and> i \<notin> dom (sessions_of t) \<and> sessions_of t' = (sessions_of t)(i \<mapsto> s)) \<and>
    (case sessions_of t i of
        None \<Rightarrow> release t i = Some (Inl Stale) \<and> update_session t i f = Inl Stale
      | Some r \<Rightarrow> \<exists>t' t''. release t i = Some (Inr (r, t')) \<and> table_inv t' \<and> sessions_of t' = (sessions_of t)(i := None) \<and>
          update_session t i f = Inr t'' \<and> table_inv t'' \<and> sessions_of t'' = (sessions_of t)(i \<mapsto> f r)) \<and>
    (\<exists>t'. invalidate_user t u = Some (card {i. \<exists>r. sessions_of t i = Some r \<and> s_user_id r = u}, t') \<and> table_inv t' \<and>
       (\<forall>i. sessions_of t' i = (case sessions_of t i of None \<Rightarrow> None | Some r \<Rightarrow> if s_user_id r = u then None else Some r)))"
    (is "?a \<and> ?b \<and> ?c")
proof (intro conjI)
  have card: "card (dom (sessions_of t)) = st_live_count t" "st_live_count t \<le> SESSION_TABLE_CAP"
    by (rule card_sessions [OF assms])+
  show ?a
  proof (cases "acquire t s")
    case (Inl e)
    then have "e = TableFull" by (auto simp: acquire_def split: option.splits)
    then show ?thesis using Inl acquire_full [OF assms, of s] card by simp
  next
    case (Inr x)
    then show ?thesis using acquire_full [OF assms, of s] card ss.store_fresh [OF assms, of s "fst x" "snd x"] by (cases x) auto
  qed
  show ?b using release_session_ok [OF assms, of i] update_session_ok [OF assms, of i f] by (cases "sessions_of t i") auto
  show ?c by (rule invalidate_user_ok [OF assms])
qed

section \<open>Witnesses\<close>

definition sample_session :: session where
  "sample_session = \<lparr>s_user_id = 7, s_username = replicate 64 0, s_username_len = 3, s_role = Root, s_login = 100,
     s_last_activity = 100, s_peer = None, s_flags = 0, s_must_change_password = False\<rparr>"

definition sample_sessions :: session_table where
  "sample_sessions = \<lparr>st_slots = \<lparr>sl_session = Some sample_session, sl_generation = 0\<rparr> # replicate 31 \<lparr>sl_session = None, sl_generation = 0\<rparr>,
     st_live_count = 1\<rparr>"

lemma sample_acquired: "acquire table_new sample_session = Inr (0, sample_sessions)"
  by code_simp

lemma sample_sessions_inv: "table_inv sample_sessions" "sessions_of sample_sessions = [0 \<mapsto> sample_session]"
  using acquire_ok [OF table_inv_new sample_acquired] by (simp_all add: sessions_of_new)

theorem session_ids_never_reissued_witness:
  "\<exists>c events t1 i t2. sweep_tick idle_defaults 2000 sample_sessions = Some (c, events, t1) \<and> c = 1 \<and>
    acquire t1 sample_session = Inr (i, t2) \<and> i = 1 \<and> i \<notin> {0}"
proof -
  have r: "sess_run sample_sessions {0} 0" using sr_acquire [OF sr_new sample_acquired] by simp
  define out where "out = the (sweep_tick idle_defaults 2000 sample_sessions)"
  have o: "sweep_tick idle_defaults 2000 sample_sessions = Some (1, fst (snd out), snd (snd out))"
    unfolding out_def by code_simp
  have a: "acquire (snd (snd out)) sample_session = Inr (1, snd (projr (acquire (snd (snd out)) sample_session)))"
    unfolding out_def by code_simp
  from session_ids_never_reissued [OF r _ o _ a] o a show ?thesis
    by (intro exI [of _ "1 :: nat"] exI [of _ "fst (snd out)"] exI [of _ "snd (snd out)"] exI conjI) auto
qed

theorem session_table_refines_map_witness:
  "table_inv sample_sessions \<and> (\<exists>t'. release sample_sessions 0 = Some (Inr (sample_session, t')) \<and> sessions_of t' = Map.empty) \<and>
    release sample_sessions 1 = Some (Inl Stale)"
proof (intro conjI)
  have "[0 \<mapsto> sample_session](0 := None) = Map.empty" by (rule ext) simp
  then show "\<exists>t'. release sample_sessions 0 = Some (Inr (sample_session, t')) \<and> sessions_of t' = Map.empty"
    using session_table_refines_map [OF sample_sessions_inv(1), of sample_session 0 id] sample_sessions_inv(2) by auto
  show "release sample_sessions 1 = Some (Inl Stale)"
    using session_table_refines_map [OF sample_sessions_inv(1), of sample_session 1 id] sample_sessions_inv(2) by auto
qed (rule sample_sessions_inv)

theorem sweep_ends_exactly_idle_sessions_witness:
  "table_inv sample_sessions \<and> (\<exists>events t'. sweep_tick idle_defaults 1000 sample_sessions = Some (length events, events, t') \<and> events = [] \<and>
    sessions_of t' 0 = Some sample_session)"
proof -
  have n: "\<not> is_idle idle_defaults 1000 sample_session" by code_simp
  from sweep_ends_exactly_idle_sessions [OF sample_sessions_inv(1), of idle_defaults 1000] obtain events t' where
    e: "sweep_tick idle_defaults 1000 sample_sessions = Some (length events, events, t')"
      "set events = {(i, s). sessions_of sample_sessions i = Some s \<and> is_idle idle_defaults 1000 s}"
      "\<forall>i. sessions_of t' i = (case sessions_of sample_sessions i of None \<Rightarrow> None | Some s \<Rightarrow> if is_idle idle_defaults 1000 s then None else Some s)"
    by metis
  have "set events = {}" unfolding e(2) sample_sessions_inv(2) using n by (auto split: if_splits)
  then show ?thesis using e(1,3) n sample_sessions_inv by auto
qed

end
