(* ===== verification/Kernel_State.thy ===== *)
theory Kernel_State
  imports Global_Alloc Tensor_Pool Capability Csprng Scheduler Sessions
begin

text \<open>
  The state behind the system calls: the singletons of \<open>kernel/src/state.rs\<close> and the statics of
  the modules of \<open>kernel/src/syscall\<close>, the result codes of \<open>syscall/mod.rs\<close>, the two error
  conversions, the capability test every guarded call goes through, and the task calls of
  \<open>syscall/task.rs\<close>. A handler takes the state and the six register arguments and returns the
  64-bit signed result and the new state, or \<open>None\<close> for a panic or an undefined access.\<close>

section \<open>Result codes\<close>

datatype syscall_error = Success | NoSys | PermissionDenied | InvalidArgument | OutOfMemory | NotFound | AlreadyExists
  | TimedOut | Busy | BufferTooSmall | InvalidHandle | NotSupported | IoError | DeviceError | ModelError
  | InferenceError | BadAddress

fun as_i64 :: "syscall_error \<Rightarrow> int" where
  "as_i64 Success = 0"
| "as_i64 NoSys = -1"
| "as_i64 PermissionDenied = -2"
| "as_i64 InvalidArgument = -3"
| "as_i64 syscall_error.OutOfMemory = -4"
| "as_i64 syscall_error.NotFound = -5"
| "as_i64 AlreadyExists = -6"
| "as_i64 TimedOut = -7"
| "as_i64 Busy = -8"
| "as_i64 BufferTooSmall = -9"
| "as_i64 InvalidHandle = -10"
| "as_i64 NotSupported = -11"
| "as_i64 IoError = -12"
| "as_i64 DeviceError = -13"
| "as_i64 ModelError = -14"
| "as_i64 InferenceError = -15"
| "as_i64 BadAddress = -16"

definition from_i64 :: "int \<Rightarrow> syscall_error option" where
  "from_i64 v =
     (if v = 0 then Some Success else if v = -1 then Some NoSys else if v = -2 then Some PermissionDenied
      else if v = -3 then Some InvalidArgument else if v = -4 then Some syscall_error.OutOfMemory
      else if v = -5 then Some syscall_error.NotFound else if v = -6 then Some AlreadyExists
      else if v = -7 then Some TimedOut else if v = -8 then Some Busy else if v = -9 then Some BufferTooSmall
      else if v = -10 then Some InvalidHandle else if v = -11 then Some NotSupported else if v = -12 then Some IoError
      else if v = -13 then Some DeviceError else if v = -14 then Some ModelError
      else if v = -15 then Some InferenceError else if v = -16 then Some BadAddress else None)"

text \<open>The cast of an unsigned register to the result type.\<close>

definition to_i64 :: "u64 \<Rightarrow> int" where
  "to_i64 w = sint w"

lemma from_as_i64: "from_i64 (as_i64 e) = Some e"
  by (cases e) (simp_all add: from_i64_def)

lemma to_i64_small: "unat w < 2 ^ 63 \<Longrightarrow> to_i64 w = int (unat w)"
proof -
  assume "unat w < 2 ^ 63"
  then have "int (unat w) < int (2 ^ 63)" by (simp only: of_nat_less_iff)
  then have "int (unat w) < 2 ^ 63" by (simp only: of_nat_power of_nat_numeral)
  moreover have "- (2 ^ 63) \<le> int (unat w)" by (rule order_trans [OF _ of_nat_0_le_iff]) simp
  ultimately have "signed_take_bit 63 (int (unat w)) = int (unat w)" by (intro signed_take_bit_int_eq_self)
  then show ?thesis by (simp add: to_i64_def sint_uint)
qed

section \<open>Devices\<close>

datatype device_type = Unknown | UsbHost | UsbDevice | UsbGadget | SdrDevice

record device_entry =
  dev_type :: device_type
  dev_vendor :: u16
  dev_product :: u16
  dev_ident :: u16
  dev_active :: bool

definition device_empty :: device_entry where
  "device_empty = \<lparr>dev_type = Unknown, dev_vendor = 0, dev_product = 0, dev_ident = 0, dev_active = False\<rparr>"

record handle_entry =
  he_device :: u16
  he_active :: bool

definition handle_empty :: handle_entry where
  "handle_empty = \<lparr>he_device = 0, he_active = False\<rparr>"

definition MAX_DEVICES :: nat where
  "MAX_DEVICES = 32"

definition MAX_HANDLES :: nat where
  "MAX_HANDLES = 64"

section \<open>The kernel state\<close>

text \<open>
  \<open>ks_mem\<close> is the memory the callers pass pointers into. The slab allocator keeps its own store,
  as its pages belong to the kernel.\<close>

record kernel =
  ks_buddy :: buddy
  ks_slab :: slab_allocator
  ks_pool :: tensor_pool
  ks_caps :: cap_registry
  ks_csprng :: csprng
  ks_initialized :: bool
  ks_current_task :: u64
  ks_next_task :: u64
  ks_devices :: "device_entry list"
  ks_handles :: "handle_entry list"
  ks_generation :: u32
  ks_session :: u32
  ks_auth_gate :: bool
  ks_mem :: "nat \<Rightarrow> u8"

text \<open>The identifier that says that no session is installed.\<close>

definition kernel_new :: "nat \<Rightarrow> slab_store \<Rightarrow> (nat \<Rightarrow> u8) \<Rightarrow> kernel" where
  "kernel_new max_pages st mem = \<lparr>ks_buddy = buddy_new max_pages, ks_slab = slab_new st, ks_pool = pool_new,
     ks_caps = reg_new, ks_csprng = csprng_new, ks_initialized = False, ks_current_task = 0, ks_next_task = 1,
     ks_devices = replicate MAX_DEVICES device_empty, ks_handles = replicate MAX_HANDLES handle_empty,
     ks_generation = 1, ks_session = SESSION_NONE, ks_auth_gate = False, ks_mem = mem\<rparr>"

definition mark_initialized :: "kernel \<Rightarrow> kernel" where
  "mark_initialized k = k\<lparr>ks_initialized := True\<rparr>"

definition set_current_task :: "u64 \<Rightarrow> kernel \<Rightarrow> kernel" where
  "set_current_task t k = k\<lparr>ks_current_task := t\<rparr>"

text \<open>Little-endian words and byte buffers in the memory of the callers.\<close>

definition load_u64 :: "(nat \<Rightarrow> u8) \<Rightarrow> nat \<Rightarrow> u64" where
  "load_u64 mem p = from_le_bytes (map (\<lambda>i. mem (p + i)) [0..<8])"

definition write_bytes :: "nat \<Rightarrow> u8 list \<Rightarrow> (nat \<Rightarrow> u8) \<Rightarrow> nat \<Rightarrow> u8" where
  "write_bytes p bs mem = (\<lambda>a. if p \<le> a \<and> a < p + length bs then bs ! (a - p) else mem a)"

text \<open>What a call reads from the machine: the overflow checks of the build, the timer, the answer
  of the installed boot-success provider and the architecture.\<close>

datatype boot_success_error = BsNotImplemented | BsStorage string | BsRetry string | BsAlreadyCommitted

record env =
  env_checks :: bool
  env_now :: u64
  env_commit :: "(boot_success_error, u64 \<times> bool) result"
  env_arch :: u32

type_synonym handler = "env \<Rightarrow> kernel \<Rightarrow> u64 list \<Rightarrow> (int \<times> kernel) option"

abbreviation fail_with :: "kernel \<Rightarrow> syscall_error \<Rightarrow> (int \<times> kernel) option" where
  "fail_with k e \<equiv> Some (as_i64 e, k)"

section \<open>Error conversion and the capability test\<close>

fun mem_error_to_syscall :: "mem_error \<Rightarrow> int" where
  "mem_error_to_syscall mem_error.OutOfMemory = as_i64 syscall_error.OutOfMemory"
| "mem_error_to_syscall BadAlignment = as_i64 InvalidArgument"
| "mem_error_to_syscall InvalidAddress = as_i64 BadAddress"
| "mem_error_to_syscall DoubleFree = as_i64 InvalidArgument"
| "mem_error_to_syscall SizeTooLarge = as_i64 InvalidArgument"
| "mem_error_to_syscall OrderTooLarge = as_i64 InvalidArgument"
| "mem_error_to_syscall SlabExhausted = as_i64 syscall_error.OutOfMemory"
| "mem_error_to_syscall TensorPoolExhausted = as_i64 syscall_error.OutOfMemory"
| "mem_error_to_syscall MappingError = as_i64 IoError"
| "mem_error_to_syscall NotMapped = as_i64 syscall_error.NotFound"
| "mem_error_to_syscall AlreadyMapped = as_i64 AlreadyExists"

fun cap_error_to_syscall :: "cap_error \<Rightarrow> int" where
  "cap_error_to_syscall cap_error.NotFound = as_i64 syscall_error.NotFound"
| "cap_error_to_syscall Expired = as_i64 InvalidHandle"
| "cap_error_to_syscall WrongResource = as_i64 InvalidArgument"
| "cap_error_to_syscall InsufficientPermissions = as_i64 PermissionDenied"
| "cap_error_to_syscall DelegationExceedsPermissions = as_i64 PermissionDenied"
| "cap_error_to_syscall Revoked = as_i64 InvalidHandle"
| "cap_error_to_syscall TooManyCaps = as_i64 syscall_error.OutOfMemory"
| "cap_error_to_syscall SystemLimitReached = as_i64 syscall_error.OutOfMemory"
| "cap_error_to_syscall InvalidId = as_i64 InvalidHandle"

definition check_capability :: "kernel \<Rightarrow> u64 \<Rightarrow> resource_ref \<Rightarrow> permissions \<Rightarrow> (int, cap_id) result" where
  "check_capability k task resource required =
     map_sum cap_error_to_syscall id (check_access (ks_caps k) task resource required 0)"

definition require_capability :: "kernel \<Rightarrow> resource_type \<Rightarrow> u64 \<Rightarrow> permissions \<Rightarrow> (int, unit) result" where
  "require_capability k rt inst perm =
     map_sum id (\<lambda>_. ()) (check_capability k (ks_current_task k) \<lparr>rr_type = rt, rr_instance = inst\<rparr> perm)"

text \<open>\<open>Permissions::WRITE\<close> and \<open>Permissions::EXECUTE\<close>.\<close>

definition PERM_WRITE :: permissions where
  "PERM_WRITE = 2"

definition PERM_EXECUTE :: permissions where
  "PERM_EXECUTE = 4"

section \<open>Task calls\<close>

definition MAX_SCHEDULING_CLASS :: u64 where
  "MAX_SCHEDULING_CLASS = 2"

definition sys_task_spawn :: handler where
  "sys_task_spawn e k a =
     (if a ! 0 = 0 then fail_with k InvalidArgument
      else if a ! 2 > MAX_SCHEDULING_CLASS then fail_with k InvalidArgument
      else case task_id_new (ks_next_task k) of (i, n) \<Rightarrow> Some (to_i64 i, k\<lparr>ks_next_task := n\<rparr>))"

definition sys_task_yield :: handler where
  "sys_task_yield e k a = Some (as_i64 Success, k)"

definition sys_task_exit :: handler where
  "sys_task_exit e k a = Some (as_i64 Success, k)"

definition sys_task_join :: handler where
  "sys_task_join e k a = (if a ! 0 = 0 then fail_with k InvalidArgument else fail_with k NotSupported)"

definition sys_task_set_priority :: handler where
  "sys_task_set_priority e k a =
     (if a ! 0 = 0 then fail_with k InvalidArgument
      else if a ! 1 > 255 then fail_with k InvalidArgument
      else Some (as_i64 Success, k))"

definition sys_task_set_class :: handler where
  "sys_task_set_class e k a =
     (if a ! 0 = 0 then fail_with k InvalidArgument
      else if a ! 1 > MAX_SCHEDULING_CLASS then fail_with k InvalidArgument
      else Some (as_i64 Success, k))"

definition sys_task_current :: handler where
  "sys_task_current e k a = Some (to_i64 (ks_current_task k), k)"

end
