(* ===== verification/Sys_Memory.thy ===== *)
theory Sys_Memory
  imports Kernel_State
begin

text \<open>
  The memory and tensor calls of \<open>kernel/src/syscall/memory.rs\<close> over the buddy, slab and tensor
  allocators of the kernel state.\<close>

section \<open>Handlers\<close>

datatype kernel_dtype = Float32 | Float16 | Int8 | Uint8 | Int32 | Int64 | Float64 | BFloat16

fun element_size :: "kernel_dtype \<Rightarrow> nat" where
  "element_size Float32 = 4"
| "element_size Int32 = 4"
| "element_size Float16 = 2"
| "element_size BFloat16 = 2"
| "element_size Int8 = 1"
| "element_size Uint8 = 1"
| "element_size Int64 = 8"
| "element_size Float64 = 8"

definition dtype_from_u32 :: "u32 \<Rightarrow> kernel_dtype option" where
  "dtype_from_u32 v =
     (if v = 0 then Some Float32 else if v = 1 then Some Float16 else if v = 2 then Some Int8
      else if v = 3 then Some Uint8 else if v = 4 then Some Int32 else if v = 5 then Some Int64
      else if v = 6 then Some Float64 else if v = 7 then Some BFloat16 else None)"

definition size_to_order :: "nat \<Rightarrow> nat" where
  "size_to_order sz = (let pages = (sz + PAGE_SIZE_4K - 1) div PAGE_SIZE_4K in
     if pages \<le> 1 then 0 else 64 - leading_zeros (pages - 1))"

definition unit_mem_result :: "kernel \<Rightarrow> (mem_error, kernel) result \<Rightarrow> int \<times> kernel" where
  "unit_mem_result k r = (case r of Inr k' \<Rightarrow> (as_i64 Success, k') | Inl err \<Rightarrow> (mem_error_to_syscall err, k))"

definition use_slab :: "nat \<Rightarrow> nat \<Rightarrow> u32 \<Rightarrow> bool" where
  "use_slab sz align flags \<longleftrightarrow> sz \<le> 2048 \<and> flags = 0 \<and> (align = 0 \<or> align \<le> 16)"

definition sys_mem_alloc :: handler where
  "sys_mem_alloc e k a =
     (let sz = unat (a ! 0); align = unat (a ! 1); flags = ucast (a ! 2) in
      if sz = 0 then fail_with k InvalidArgument
      else if align \<noteq> 0 \<and> \<not> is_power_of_two align then fail_with k InvalidArgument
      else if use_slab sz align flags then do {
        r \<leftarrow> slab_allocate (env_checks e) (ks_slab k) sz;
        Some (case r of Inr (ptr, s) \<Rightarrow> (to_i64 (of_nat ptr), k\<lparr>ks_slab := s\<rparr>) | Inl err \<Rightarrow> (mem_error_to_syscall err, k)) }
      else do {
        r \<leftarrow> allocate (ks_buddy k) (size_to_order sz);
        Some (case r of Inr (ptr, b) \<Rightarrow> (to_i64 (of_nat ptr), k\<lparr>ks_buddy := b\<rparr>) | Inl err \<Rightarrow> (mem_error_to_syscall err, k)) })"

definition sys_mem_free :: handler where
  "sys_mem_free e k a =
     (let ptr = unat (a ! 0); sz = unat (a ! 1) in
      if ptr = 0 then fail_with k InvalidArgument
      else if sz = 0 then fail_with k InvalidArgument
      else if sz \<le> 2048 then do {
        r \<leftarrow> slab_free (env_checks e) (ks_slab k) ptr sz;
        Some (unit_mem_result k (map_sum id (\<lambda>s. k\<lparr>ks_slab := s\<rparr>) r)) }
      else do {
        r \<leftarrow> free (ks_buddy k) ptr (size_to_order sz);
        Some (unit_mem_result k (map_sum id (\<lambda>b. k\<lparr>ks_buddy := b\<rparr>) r)) })"

definition sys_mem_map :: handler where
  "sys_mem_map e k a =
     (if a ! 2 = 0 then fail_with k InvalidArgument
      else case require_capability k Device 0 PERM_WRITE of
        Inl err \<Rightarrow> Some (err, k) | Inr _ \<Rightarrow> fail_with k NotSupported)"

definition sys_mem_protect :: handler where
  "sys_mem_protect e k a =
     (if a ! 0 = 0 \<or> a ! 1 = 0 then fail_with k InvalidArgument
      else case require_capability k Device 0 PERM_WRITE of
        Inl err \<Rightarrow> Some (err, k) | Inr _ \<Rightarrow> fail_with k NotSupported)"

text \<open>The checked product of the dimensions; \<open>None\<close> for a dimension of zero or an overflow.\<close>

fun shape_product :: "nat \<Rightarrow> nat list \<Rightarrow> nat option" where
  "shape_product acc [] = Some acc"
| "shape_product acc (d # ds) =
     (if d = 0 then None else if acc * d \<ge> 2 ^ 64 then None else shape_product (acc * d) ds)"

text \<open>The slice of the dimensions; a pointer that is not aligned to a word is undefined.\<close>

definition shape_at :: "(nat \<Rightarrow> u8) \<Rightarrow> nat \<Rightarrow> nat \<Rightarrow> nat list option" where
  "shape_at mem p n = (if 8 dvd p then Some (map (\<lambda>i. unat (load_u64 mem (p + 8 * i))) [0..<n]) else None)"

definition sys_tensor_alloc :: handler where
  "sys_tensor_alloc e k a =
     (if a ! 0 = 0 \<or> a ! 1 = 0 then fail_with k InvalidArgument
      else if a ! 1 > 8 then fail_with k InvalidArgument
      else case dtype_from_u32 (ucast (a ! 2)) of
        None \<Rightarrow> fail_with k InvalidArgument
      | Some dtype \<Rightarrow> (case require_capability k TensorBuffer 0 PERM_WRITE of
          Inl err \<Rightarrow> Some (err, k)
        | Inr _ \<Rightarrow> do {
            shape \<leftarrow> shape_at (ks_mem k) (unat (a ! 0)) (unat (a ! 1));
            case shape_product 1 shape of
              None \<Rightarrow> fail_with k InvalidArgument
            | Some total_elements \<Rightarrow>
                if total_elements * element_size dtype \<ge> 2 ^ 64 then fail_with k InvalidArgument
                else do {
                  r \<leftarrow> pool_allocate (env_checks e) (ks_pool k) (total_elements * element_size dtype);
                  Some (case r of Inr ((h, _), p) \<Rightarrow> (to_i64 (ucast h + 1), k\<lparr>ks_pool := p\<rparr>)
                    | Inl err \<Rightarrow> (mem_error_to_syscall err, k)) } }))"

definition sys_tensor_free :: handler where
  "sys_tensor_free e k a =
     (let handle_raw = a ! 0 in
      if handle_raw = 0 then fail_with k InvalidHandle
      else case require_capability k TensorBuffer handle_raw PERM_WRITE of
        Inl err \<Rightarrow> Some (err, k)
      | Inr _ \<Rightarrow> do {
          r \<leftarrow> pool_release (env_checks e) (ks_pool k) (ucast (handle_raw - 1));
          Some (unit_mem_result k (map_sum id (\<lambda>p. k\<lparr>ks_pool := p\<rparr>) r)) })"

definition validate_tensor_gpu_request :: "kernel \<Rightarrow> u64 \<Rightarrow> u64 \<Rightarrow> (int, unit) result" where
  "validate_tensor_gpu_request k handle device =
     (if handle = 0 then Inl (as_i64 InvalidHandle)
      else case require_capability k TensorBuffer handle PERM_WRITE of
        Inl err \<Rightarrow> Inl err | Inr _ \<Rightarrow> require_capability k GpuDevice device PERM_EXECUTE)"

definition sys_tensor_map_gpu :: handler where
  "sys_tensor_map_gpu e k a = (case validate_tensor_gpu_request k (a ! 0) (a ! 1) of
     Inl err \<Rightarrow> Some (err, k) | Inr _ \<Rightarrow> fail_with k NotSupported)"

definition sys_tensor_unmap_gpu :: handler where
  "sys_tensor_unmap_gpu e k a = (case validate_tensor_gpu_request k (a ! 0) (a ! 1) of
     Inl err \<Rightarrow> Some (err, k) | Inr _ \<Rightarrow> fail_with k NotSupported)"

section \<open>Orders\<close>

lemma leading_zeros_bit_length: "n < 2 ^ 64 \<Longrightarrow> 64 - leading_zeros n = bit_length n"
  by (simp add: leading_zeros_def bit_length_le_iff)

text \<open>The smallest order whose blocks hold the size.\<close>

lemma size_to_order_least:
  assumes "0 < sz" "sz < 2 ^ 64"
  shows "sz \<le> 2 ^ n * PAGE_SIZE_4K \<longleftrightarrow> size_to_order sz \<le> n"
proof -
  define pages where "pages = (sz + PAGE_SIZE_4K - 1) div PAGE_SIZE_4K"
  have o: "size_to_order sz = (if pages \<le> 1 then 0 else 64 - leading_zeros (pages - 1))"
    unfolding size_to_order_def Let_def pages_def ..
  have p: "sz \<le> m * PAGE_SIZE_4K \<longleftrightarrow> pages \<le> m" for m
  proof -
    have "pages \<le> m \<longleftrightarrow> sz + PAGE_SIZE_4K - 1 < Suc m * PAGE_SIZE_4K"
      unfolding pages_def less_Suc_eq_le [symmetric] by (rule div_less_iff_less_mult) (simp add: PAGE_SIZE_4K_def)
    then show ?thesis by (simp add: PAGE_SIZE_4K_def less_Suc_eq_le)
  qed
  have "pages \<le> 2 ^ 52" using assms(2) unfolding p [symmetric] by (simp add: PAGE_SIZE_4K_def)
  then have b: "0 < pages" "pages < 2 ^ 64" using assms(1) p [of 0] by (simp_all add: PAGE_SIZE_4K_def)
  show ?thesis
  proof (cases "pages \<le> 1")
    case True
    then have "pages \<le> 2 ^ n" using b(1) by (metis One_nat_def Suc_leI le_trans one_le_numeral one_le_power)
    with True show ?thesis by (simp add: p o)
  next
    case False
    then have "size_to_order sz = bit_length (pages - 1)"
      using b(2) leading_zeros_bit_length [of "pages - 1"] by (simp add: o)
    moreover have "bit_length (pages - 1) \<le> n \<longleftrightarrow> pages - 1 < 2 ^ n" by (rule bit_length_le_iff)
    moreover have "pages - 1 < 2 ^ n \<longleftrightarrow> pages \<le> 2 ^ n" using b(1) by linarith
    ultimately show ?thesis by (simp only: p)
  qed
qed


section \<open>Blocks of the buddy allocator\<close>

text \<open>The call that takes a block of the buddy allocator.\<close>

lemma sys_mem_alloc_buddy:
  assumes "unat (a ! 0) \<noteq> 0" "unat (a ! 1) = 0 \<or> is_power_of_two (unat (a ! 1))"
    "\<not> use_slab (unat (a ! 0)) (unat (a ! 1)) (ucast (a ! 2))"
    "allocate (ks_buddy k) (size_to_order (unat (a ! 0))) = Some (Inr (x, b))"
  shows "sys_mem_alloc e k a = Some (to_i64 (of_nat x), k\<lparr>ks_buddy := b\<rparr>)"
  using assms by (auto simp: sys_mem_alloc_def Let_def)

text \<open>
  C23. A large block that \<open>mem_alloc\<close> returned is given back by \<open>mem_free\<close> with the same size. In every
  state of the buddy allocator and for every size above 2048 bytes, if the call succeeds with block
  \<open>x\<close> then the block lies behind a whole number of pages that hold the size, no smaller order would
  do, the release returns success with the free and allocated pages of before, and a second release
  of the block is refused.\<close>

theorem mem_alloc_free_roundtrip:
  assumes "buddy_inv (ks_buddy k)" "2048 < unat sz"
    and "allocate (ks_buddy k) (size_to_order (unat sz)) = Some (Inr (x, b))" "0 < x" "x < 2 ^ 64"
  shows "\<exists>k1 k2. sys_mem_alloc e k [sz, 0, fl, 0, 0, 0] = Some (to_i64 (of_nat x), k1) \<and>
    unat sz \<le> 2 ^ size_to_order (unat sz) * PAGE_SIZE_4K \<and>
    (\<forall>n. unat sz \<le> 2 ^ n * PAGE_SIZE_4K \<longrightarrow> size_to_order (unat sz) \<le> n) \<and>
    sys_mem_free e k1 [of_nat x, sz, 0, 0, 0, 0] = Some (as_i64 Success, k2) \<and>
    free_set (ks_buddy k2) = free_set (ks_buddy k) \<and> alloc_set (ks_buddy k2) = alloc_set (ks_buddy k) \<and>
    sys_mem_free e k2 [of_nat x, sz, 0, 0, 0, 0] = Some (as_i64 InvalidArgument, k2)"
proof -
  let ?n = "size_to_order (unat sz)" and ?k1 = "k\<lparr>ks_buddy := b\<rparr>"
  have ord: "unat sz \<le> 2 ^ n * PAGE_SIZE_4K \<longleftrightarrow> ?n \<le> n" for n
    using assms(2) unsigned_less [of sz] by (intro size_to_order_least) simp_all
  have a: "sys_mem_alloc e k [sz, 0, fl, 0, 0, 0] = Some (to_i64 (of_nat x), ?k1)"
    using assms(2,3) by (intro sys_mem_alloc_buddy) (simp_all add: use_slab_def)
  from pa.alloc_InrD [OF assms(1,3)] obtain i where i: "?n \<le> MAX_ORDER" "x = block_addr b ?n i"
    "buddy_inv b" "blk ?n i \<subseteq> alloc_set b" by auto
  from pa.alloc_release [OF assms(1,3)] obtain b' where b': "free b x ?n = Some (Inr b')" "buddy_inv b'"
    "free_set b' = free_set (ks_buddy k)" "alloc_set b' = alloc_set (ks_buddy k)" by blast
  have d: "free b' x ?n = Some (Inl DoubleFree)" using pa.release_twice [of b ?n i b'] i b'(1) by auto
  have x: "unat (of_nat x :: u64) = x" using assms(5) by (simp add: unat_of_nat take_bit_nat_eq_self)
  have "sys_mem_free e ?k1 [of_nat x, sz, 0, 0, 0, 0] = Some (as_i64 Success, k\<lparr>ks_buddy := b'\<rparr>)"
    using assms(2,4) x b'(1) by (simp add: sys_mem_free_def Let_def unit_mem_result_def)
  moreover have "sys_mem_free e (k\<lparr>ks_buddy := b'\<rparr>) [of_nat x, sz, 0, 0, 0, 0] = Some (as_i64 InvalidArgument, k\<lparr>ks_buddy := b'\<rparr>)"
    using assms(2,4) x d by (simp add: sys_mem_free_def Let_def unit_mem_result_def)
  ultimately show ?thesis using a ord [of ?n] ord b' by (intro exI [of _ ?k1] exI [of _ "k\<lparr>ks_buddy := b'\<rparr>"]) simp
qed

text \<open>
  A small block with flags or an alignment cannot be given back. \<open>mem_alloc\<close> serves such a
  request from the buddy allocator, and \<open>mem_free\<close>, which only sees the size, hands the pointer to
  the slab allocator, which refuses it: the call returns the code of a bad address, the state does
  not change and the page stays allocated.\<close>

theorem small_flagged_block_leaks:
  assumes "slab_state (ks_slab k) H" "0 < unat sz" "unat sz \<le> 2048" "fl \<noteq> 0" "unat fl < 2 ^ 32"
    and "allocate (ks_buddy k) (size_to_order (unat sz)) = Some (Inr (x, b))" "0 < x" "x < 2 ^ 64"
    and "align_down_usize x PAGE_SIZE_4K \<notin> slab_pages (ks_slab k)"
  shows "\<exists>k1. sys_mem_alloc e k [sz, 0, fl, 0, 0, 0] = Some (to_i64 (of_nat x), k1) \<and> ks_buddy k1 = b \<and>
    sys_mem_free e k1 [of_nat x, sz, 0, 0, 0, 0] = Some (as_i64 BadAddress, k1)"
proof -
  have "(ucast fl :: u32) \<noteq> 0"
  proof
    assume "(ucast fl :: u32) = 0"
    then have "unat (ucast fl :: u32) = 0" by simp
    then have "unat fl = 0" using assms(5) by (simp add: unsigned_ucast_eq take_bit_nat_eq_self)
    with assms(4) show False by (simp add: unsigned_eq_0_iff)
  qed
  then have a: "sys_mem_alloc e k [sz, 0, fl, 0, 0, 0] = Some (to_i64 (of_nat x), k\<lparr>ks_buddy := b\<rparr>)"
    using assms(2,6) by (intro sys_mem_alloc_buddy) (simp_all add: use_slab_def)
  have x: "unat (of_nat x :: u64) = x" using assms(8) by (simp add: unat_of_nat take_bit_nat_eq_self)
  obtain s where "actual_size (unat sz) = Some s" using size_class_None [of "unat sz"] assms(3) by (auto simp: actual_size_def)
  from sl.release_foreign [OF assms(1) this assms(9), of "env_checks e"]
  have "sys_mem_free e (k\<lparr>ks_buddy := b\<rparr>) [of_nat x, sz, 0, 0, 0, 0] = Some (as_i64 BadAddress, k\<lparr>ks_buddy := b\<rparr>)"
    using assms(2,3,7) x by (simp add: sys_mem_free_def Let_def unit_mem_result_def)
  with a show ?thesis by (intro exI [of _ "k\<lparr>ks_buddy := b\<rparr>"]) simp
qed


section \<open>Tensor buffers\<close>

lemma shape_product_eq:
  "0 < acc \<Longrightarrow> acc < 2 ^ 64 \<Longrightarrow>
     shape_product acc ds = (if 0 \<in> set ds \<or> 2 ^ 64 \<le> acc * prod_list ds then None else Some (acc * prod_list ds))"
proof (induction ds arbitrary: acc)
  case (Cons d ds)
  show ?case
  proof (cases "d = 0 \<or> 0 \<in> set ds \<or> acc * d < 2 ^ 64")
    case True
    then show ?thesis using Cons by (auto simp: mult.assoc)
  next
    case False
    then have "1 \<le> prod_list ds" by (induction ds) (auto simp: Suc_le_eq)
    then have "acc * d * 1 \<le> acc * d * prod_list ds" by (rule mult_le_mono2)
    with False have "2 ^ 64 \<le> acc * prod_list (d # ds)" unfolding prod_list.Cons mult.assoc by linarith
    with False show ?thesis by simp
  qed
qed simp

lemma require_capability_cases: "require_capability k rt i p = Inl (as_i64 PermissionDenied) \<or> require_capability k rt i p = Inr ()"
  by (auto simp: require_capability_def check_capability_def check_access_def split: option.splits)

lemma element_size_pos: "0 < element_size d" "element_size d \<le> 8"
  by (cases d; simp)+

text \<open>The dimensions and the number of bytes that a request asks for.\<close>

definition request_dims :: "kernel \<Rightarrow> u64 list \<Rightarrow> nat list" where
  "request_dims k a = map (\<lambda>i. unat (load_u64 (ks_mem k) (unat (a ! 0) + 8 * i))) [0..<unat (a ! 1)]"



text \<open>A kernel whose current task holds one capability, with a used tensor pool and one page of free memory.\<close>

definition one_cap :: "resource_type \<Rightarrow> u64 \<Rightarrow> permissions \<Rightarrow> cap_registry" where
  "one_cap rt i p = reg_new\<lparr>reg_caps := [Some \<lparr>cap_id = 1, cap_resource = \<lparr>rr_type = rt, rr_instance = i\<rparr>, cap_permissions = p,
     cap_expires = 0, cap_owner = 7, cap_parent = 0\<rparr>], reg_next_id := 2\<rparr>"

definition sample_kernel :: "(nat \<Rightarrow> u8) \<Rightarrow> kernel" where
  "sample_kernel mem = (kernel_new 16 \<lparr>word_at = \<lambda>_. 0, half_at = \<lambda>_. 0\<rparr> mem)
     \<lparr>ks_caps := one_cap TensorBuffer 0 PERM_WRITE, ks_current_task := 7, ks_pool := used_pool\<rparr>"

lemma not_revoked_new: "reg_revoked r = replicate (REVOKED_BITMAP_SIZE div 64) 0 \<Longrightarrow> \<not> is_revoked r i"
  by (simp add: is_revoked_def revoked_idx_def REVOKED_BITMAP_SIZE_def)

lemma require_one_cap:
  assumes "ks_caps k = one_cap rt i p" "ks_current_task k = 7" "perm_contains p q"
  shows "require_capability k rt i q = Inr ()"
  using assms not_revoked_new [of "one_cap rt i p"]
  by (simp add: require_capability_def check_capability_def check_access_def one_cap_def reg_new_def flatten_opt_def cap_check_def is_expired_def)

text \<open>The memory of the caller with one word in it.\<close>

lemma load_u64_written: "load_u64 (write_bytes p (to_le_bytes 8 w) mem) p = w"
proof -
  have "map (\<lambda>i. write_bytes p (to_le_bytes 8 w) mem (p + i)) [0..<8] = to_le_bytes 8 w"
    by (rule nth_equalityI) (simp_all add: write_bytes_def)
  then show ?thesis by (simp add: load_u64_def)
qed

definition dims_memory :: "u64 \<Rightarrow> nat \<Rightarrow> u8" where
  "dims_memory w = write_bytes 4096 (to_le_bytes 8 w) (\<lambda>_. 0)"

lemma request_dims_one: "ks_mem k = dims_memory w \<Longrightarrow> request_dims k [4096, 1, t, 0, 0, 0] = [unat w]"
  by (simp add: request_dims_def dims_memory_def load_u64_written)


text \<open>
  In the release profile a task that may allocate tensors can make the pool hand out memory that
  is in use. A one-dimensional byte tensor of 2 to the 64 minus the aligned offset passes every test of the
  call, although no arena is that large, the call returns a handle, and the pool starts
  again at the beginning of its arena; with overflow checks the same call panics.\<close>

theorem tensor_alloc_accepts_wrapping_size:
  assumes "pool_inv (ks_pool k)" "0 < aligned_bump (ks_pool k)" "card (live_slots (ks_pool k)) < MAX_TENSOR_BUFFERS"
    and "require_capability k TensorBuffer 0 PERM_WRITE = Inr ()"
    and "ptr \<noteq> 0" "8 dvd unat ptr" "unat (load_u64 (ks_mem k) (unat ptr)) = 2 ^ 64 - aligned_bump (ks_pool k)"
  shows "\<exists>h k'. sys_tensor_alloc (e\<lparr>env_checks := False\<rparr>) k [ptr, 1, 2, 0, 0, 0] = Some (h, k') \<and> 0 < h \<and>
      tp_bump_offset (ks_pool k') = 0 \<and> live_slots (ks_pool k) \<subset> live_slots (ks_pool k') \<and>
    sys_tensor_alloc (e\<lparr>env_checks := True\<rparr>) k [ptr, 1, 2, 0, 0, 0] = None"
proof -
  let ?b = "2 ^ 64 - aligned_bump (ks_pool k)"
  have d: "request_dims k [ptr, 1, 2, 0, 0, 0] = [?b]" using assms(7) by (simp add: request_dims_def)
  have t: "dtype_from_u32 (ucast (2 :: u64)) = Some Int8" by (simp add: dtype_from_u32_def)
  have nz: "0 < ?b" "?b < 2 ^ 64" using assms(1,2) aligned_bump_bounds(2) [of "ks_pool k"] by (auto simp: pool_inv_def)
  from pool_allocate_wraps [OF assms(1-3)] obtain i p where i: "i < MAX_TENSOR_BUFFERS" "i \<notin> live_slots (ks_pool k)"
    and p: "p = (ks_pool k)\<lparr>tp_entries := (tp_entries (ks_pool k))[i := fresh_entry (ks_pool k) ?b], tp_bump_offset := 0,
         tp_active_count := tp_active_count (ks_pool k) + 1\<rparr>"
    and w: "pool_allocate False (ks_pool k) ?b = Some (Inr ((of_nat i, tp_base (ks_pool k) + aligned_bump (ks_pool k)), p))"
      "pool_allocate True (ks_pool k) ?b = None" by blast
  have l: "live_slots p = insert i (live_slots (ks_pool k))"
    using i(1) assms(1) by (simp add: p live_update fresh_entry_def pool_inv_def)
  have "unat (ucast (of_nat i :: u32) + 1 :: u64) = i + 1"
    using i(1) by (simp add: MAX_TENSOR_BUFFERS_def unat_word_ariths unsigned_ucast_eq unat_of_nat take_bit_nat_eq_self)
  then have h: "to_i64 (ucast (of_nat i :: u32) + 1) = int (i + 1)" using i(1) by (subst to_i64_small) (simp_all add: MAX_TENSOR_BUFFERS_def)
  have ex: "sys_tensor_alloc e' k [ptr, 1, 2, 0, 0, 0] =
      map_option (\<lambda>r. case r of Inl err \<Rightarrow> (mem_error_to_syscall err, k) | Inr ((h, _), p) \<Rightarrow> (to_i64 (ucast h + 1), k\<lparr>ks_pool := p\<rparr>))
       (pool_allocate (env_checks e') (ks_pool k) ?b)" for e'
    using assms(4-6) nz t shape_product_eq [of 1 "[?b]"] d
    by (simp add: sys_tensor_alloc_def shape_at_def request_dims_def map_option_case split: option.splits)
  show ?thesis using i(2) l h w by (simp add: ex p) blast
qed


theorem tensor_alloc_accepts_wrapping_size_witness:
  "\<forall>e. \<exists>h k'. sys_tensor_alloc (e\<lparr>env_checks := False\<rparr>) (sample_kernel (dims_memory (- 64))) [4096, 1, 2, 0, 0, 0] = Some (h, k') \<and>
     0 < h \<and> tp_bump_offset (ks_pool k') = 0"
proof
  fix e :: env
  let ?k = "sample_kernel (dims_memory (- 64))"
  have p: "ks_pool ?k = used_pool" "ks_mem ?k = dims_memory (- 64)" by (simp_all add: sample_kernel_def kernel_new_def)
  have b: "aligned_bump used_pool = 64" by (simp add: used_pool_def aligned_bump_def pool_init_def)
  have c: "require_capability ?k TensorBuffer 0 PERM_WRITE = Inr ()"
    by (rule require_one_cap [of _ _ _ PERM_WRITE]) (simp_all add: sample_kernel_def perm_contains_def)
  have "load_u64 (ks_mem ?k) (unat (4096 :: u64)) = - 64" unfolding p(2) unfolding dims_memory_def by (simp add: load_u64_written)
  then have r: "unat (load_u64 (ks_mem ?k) (unat (4096 :: u64))) = 2 ^ 64 - aligned_bump (ks_pool ?k)" by (simp add: p(1) b)
  have "\<exists>h k'. sys_tensor_alloc (e\<lparr>env_checks := False\<rparr>) ?k [4096, 1, 2, 0, 0, 0] = Some (h, k') \<and> 0 < h \<and>
      tp_bump_offset (ks_pool k') = 0 \<and> live_slots (ks_pool ?k) \<subset> live_slots (ks_pool k') \<and>
      sys_tensor_alloc (e\<lparr>env_checks := True\<rparr>) ?k [4096, 1, 2, 0, 0, 0] = None"
    by (rule tensor_alloc_accepts_wrapping_size [OF _ _ _ c _ _ r]) (simp_all add: p(1) b used_pool_inv used_pool_live MAX_TENSOR_BUFFERS_def)
  then show "\<exists>h k'. sys_tensor_alloc (e\<lparr>env_checks := False\<rparr>) ?k [4096, 1, 2, 0, 0, 0] = Some (h, k') \<and> 0 < h \<and> tp_bump_offset (ks_pool k') = 0"
    by blast
qed

section \<open>Instances\<close>

text \<open>A buddy allocator with sixteen free pages behind the first one, and a block of it.\<close>

lemma sample_block:
  assumes "n \<le> 4"
  shows "\<exists>b x b'. buddy_inv b \<and> allocate b n = Some (Inr (x, b')) \<and> 0 < x \<and> x < 2 ^ 64"
proof -
  from buddy_boot_spec [of 4096 65536 16] obtain b where b: "buddy_inv b" "free_set b = {..<16}" "bd_base b = 4096"
    by (auto simp: PAGE_SIZE_4K_def)
  have "(2::nat) ^ n \<le> 2 ^ 4" using assms by (rule power_increasing) simp
  then have "blk n 0 \<subseteq> free_set b" unfolding b(2) blk_subset_mult by simp
  with pa.alloc_cases [OF b(1), of n] assms obtain i b' where
    i: "allocate b n = Some (Inr (block_addr b n i, b'))" "blk n i \<subseteq> {..<16}" by (auto simp: MAX_ORDER_def b(2))
  from i(2) have "i * 2 ^ n + 2 ^ n \<le> 16" unfolding blk_subset_mult .
  then have "block_addr b n i \<le> 4096 + 16 * 4096" by (simp add: block_addr_def b(3) PAGE_SIZE_4K_def)
  moreover have "0 < block_addr b n i" by (simp add: block_addr_def b(3))
  ultimately show ?thesis using b(1) i(1) by (intro exI [of _ b] exI [of _ "block_addr b n i"] exI [of _ b']) simp
qed

theorem mem_alloc_free_roundtrip_witness:
  "\<forall>e. \<exists>k x k1 k2. sys_mem_alloc e k [5000, 0, 0, 0, 0, 0] = Some (to_i64 (of_nat x), k1) \<and>
    sys_mem_free e k1 [of_nat x, 5000, 0, 0, 0, 0] = Some (0, k2) \<and> sys_mem_free e k2 [of_nat x, 5000, 0, 0, 0, 0] = Some (-3, k2)"
proof
  fix e :: env
  have o: "size_to_order (unat (5000 :: u64)) = 1" by code_simp
  obtain b x b' where b: "buddy_inv b" "allocate b 1 = Some (Inr (x, b'))" "0 < x" "x < 2 ^ 64" using sample_block [of 1] by auto
  let ?k = "(sample_kernel (\<lambda>_. 0))\<lparr>ks_buddy := b\<rparr>"
  from mem_alloc_free_roundtrip [of ?k 5000 x b' e 0, unfolded o] b
  show "\<exists>k x k1 k2. sys_mem_alloc e k [5000, 0, 0, 0, 0, 0] = Some (to_i64 (of_nat x), k1) \<and>
    sys_mem_free e k1 [of_nat x, 5000, 0, 0, 0, 0] = Some (0, k2) \<and> sys_mem_free e k2 [of_nat x, 5000, 0, 0, 0, 0] = Some (-3, k2)"
    by auto
qed

theorem small_flagged_block_leaks_witness:
  "\<forall>e. \<exists>k x k1. sys_mem_alloc e k [100, 0, 4, 0, 0, 0] = Some (to_i64 (of_nat x), k1) \<and> ks_buddy k1 \<noteq> ks_buddy k \<and>
    sys_mem_free e k1 [of_nat x, 100, 0, 0, 0, 0] = Some (-16, k1)"
proof
  fix e :: env
  have o: "size_to_order (unat (100 :: u64)) = 0" by code_simp
  obtain b x b' where b: "buddy_inv b" "allocate b 0 = Some (Inr (x, b'))" "0 < x" "x < 2 ^ 64" using sample_block [of 0] by auto
  let ?k = "(sample_kernel (\<lambda>_. 0))\<lparr>ks_buddy := b\<rparr>"
  have s: "slab_state (slab_new st) {}" "slab_pages (slab_new st) = {}" for st
    using slab_inv_new(1) [of st] slab_inv_new(2) by (auto simp: slab_state_def slab_held_def slab_pages_def)
  have ks: "ks_slab ?k = slab_new \<lparr>word_at = \<lambda>_. 0, half_at = \<lambda>_. 0\<rparr>" by (simp add: sample_kernel_def kernel_new_def)
  from pa.alloc_cases [OF b(1), of 0] b(2) have "alloc_set b' \<noteq> alloc_set b"
    using pa.frees_allocs_disjoint [OF b(1)] by (auto simp: blk_def MAX_ORDER_def)
  then have "b' \<noteq> b" by blast
  moreover from small_flagged_block_leaks [of ?k "{}" 100 4 x b' e, unfolded o ks] s b obtain k1 where
    "sys_mem_alloc e ?k [100, 0, 4, 0, 0, 0] = Some (to_i64 (of_nat x), k1)" "ks_buddy k1 = b'"
    "sys_mem_free e k1 [of_nat x, 100, 0, 0, 0, 0] = Some (-16, k1)" by auto
  ultimately show "\<exists>k x k1. sys_mem_alloc e k [100, 0, 4, 0, 0, 0] = Some (to_i64 (of_nat x), k1) \<and> ks_buddy k1 \<noteq> ks_buddy k \<and>
    sys_mem_free e k1 [of_nat x, 100, 0, 0, 0, 0] = Some (-16, k1)"
    by (intro exI [of _ ?k] exI [of _ x] exI [of _ k1]) simp
qed

end
