(* ===== verification/Sys_Cap.thy ===== *)
theory Sys_Cap
  imports Sys_Memory
begin

text \<open>
  The capability calls of \<open>kernel/src/syscall/capability.rs\<close> over the registry of theory
  \<open>Capability\<close>, and what they mean for the test that the guarded calls make.\<close>

section \<open>Handlers\<close>

definition cap_id_result :: "kernel \<Rightarrow> (cap_error, cap_id \<times> cap_registry) result \<Rightarrow> int \<times> kernel" where
  "cap_id_result k r = (case r of Inr (i, reg) \<Rightarrow> (to_i64 i, k\<lparr>ks_caps := reg\<rparr>) | Inl err \<Rightarrow> (cap_error_to_syscall err, k))"

definition bad_permissions :: "u32 \<Rightarrow> bool" where
  "bad_permissions raw \<longleftrightarrow> raw AND NOT 15 \<noteq> 0 \<or> raw = 0"

definition sys_cap_create :: handler where
  "sys_cap_create e k a =
     (case resource_type_from_u8 (ucast (a ! 0)) of
        None \<Rightarrow> fail_with k InvalidArgument
      | Some rt \<Rightarrow>
          if bad_permissions (ucast (a ! 2)) then fail_with k InvalidArgument
          else Some (cap_id_result k (create (ks_caps k) (ks_current_task k) \<lparr>rr_type = rt, rr_instance = a ! 1\<rparr>
            (perm_from_bits (ucast (a ! 2))) (a ! 3))))"

definition sys_cap_revoke :: handler where
  "sys_cap_revoke e k a =
     (if a ! 0 = 0 then fail_with k InvalidHandle
      else do {
        r \<leftarrow> revoke (ks_caps k) (a ! 0);
        Some (case r of Inr reg \<Rightarrow> (as_i64 Success, k\<lparr>ks_caps := reg\<rparr>) | Inl err \<Rightarrow> (cap_error_to_syscall err, k)) })"

definition sys_cap_delegate :: handler where
  "sys_cap_delegate e k a =
     (if a ! 0 = 0 then fail_with k InvalidHandle
      else if a ! 1 = 0 then fail_with k InvalidArgument
      else if bad_permissions (ucast (a ! 2)) then fail_with k InvalidArgument
      else Some (cap_id_result k (delegate (ks_caps k) (a ! 0) (a ! 1) (perm_from_bits (ucast (a ! 2))) (a ! 3) 0)))"

definition sys_cap_check :: handler where
  "sys_cap_check e k a =
     (if a ! 0 = 0 then fail_with k InvalidHandle
      else case resource_type_from_u8 (ucast (a ! 1)) of
        None \<Rightarrow> fail_with k InvalidArgument
      | Some rt \<Rightarrow>
          if bad_permissions (ucast (a ! 3)) then fail_with k InvalidArgument
          else Some ((case lookup_cap (ks_caps k) (a ! 0) 0 of
              Inl err \<Rightarrow> cap_error_to_syscall err
            | Inr c \<Rightarrow> (case cap_check c \<lparr>rr_type = rt, rr_instance = a ! 2\<rparr> (perm_from_bits (ucast (a ! 3))) 0 of
                Inl err \<Rightarrow> cap_error_to_syscall err | Inr _ \<Rightarrow> as_i64 Success)), k))"

text \<open>The buffer is a slice of words: a pointer that is not aligned to a word is undefined.\<close>

definition sys_cap_list :: handler where
  "sys_cap_list e k a =
     (let buf_ptr = unat (a ! 1); buf_len = unat (a ! 2);
          task_id = (if a ! 0 = 0 then ks_current_task k else a ! 0);
          clamped_len = (if buf_len > MAX_CAPS_PER_TASK then MAX_CAPS_PER_TASK else buf_len);
          total = count_for_task (ks_caps k) task_id in
      if buf_ptr = 0 \<and> buf_len > 0 then fail_with k BadAddress
      else if buf_ptr = 0 \<or> clamped_len = 0 \<or> total = 0 then Some (int total, k)
      else if \<not> 8 dvd buf_ptr then None
      else let ids = list_for_task (ks_caps k) task_id (if clamped_len < total then clamped_len else total) in
        Some (int (length ids), k\<lparr>ks_mem := write_bytes buf_ptr (concat (map (to_le_bytes 8) ids)) (ks_mem k)\<rparr>))"

section \<open>The capability test\<close>

lemma is_expired_0: "\<not> is_expired c 0"
  by (simp add: is_expired_def)

lemma require_capability_iff:
  "require_capability k rt i p = Inr () \<longleftrightarrow>
     (\<exists>c \<in> set (caps (ks_caps k)). cap_owner c = ks_current_task k \<and> \<not> is_revoked (ks_caps k) (cap_id c) \<and>
        cap_resource c = \<lparr>rr_type = rt, rr_instance = i\<rparr> \<and> perm_contains (cap_permissions c) p)"
proof -
  have "require_capability k rt i p = Inr () \<longleftrightarrow>
      (\<exists>j. check_access (ks_caps k) (ks_current_task k) \<lparr>rr_type = rt, rr_instance = i\<rparr> p 0 = Inr j)"
    by (cases "check_access (ks_caps k) (ks_current_task k) \<lparr>rr_type = rt, rr_instance = i\<rparr> p 0")
      (auto simp: require_capability_def check_capability_def)
  then show ?thesis by (simp add: check_access_iff is_expired_0)
qed


text \<open>The registry with the expiry of every capability replaced.\<close>

definition with_expiry :: "u64 \<Rightarrow> cap_registry \<Rightarrow> cap_registry" where
  "with_expiry t r = r\<lparr>reg_caps := map (map_option (\<lambda>c. c\<lparr>cap_expires := t\<rparr>)) (reg_caps r)\<rparr>"

lemma caps_with_expiry: "caps (with_expiry t r) = map (\<lambda>c. c\<lparr>cap_expires := t\<rparr>) (caps r)"
proof -
  have "flatten_opt (map (map_option f) ss) = map f (flatten_opt ss)" for f :: "capability \<Rightarrow> capability" and ss
    by (induction ss) (auto simp: flatten_opt_def split: option.splits)
  then show ?thesis by (simp add: caps_def with_expiry_def)
qed

lemma is_revoked_with_expiry [simp]: "is_revoked (with_expiry t r) i = is_revoked r i"
  by (simp add: is_revoked_def with_expiry_def)

lemma find_cap_with_expiry: "find_cap (with_expiry t r) i = map_option (\<lambda>c. c\<lparr>cap_expires := t\<rparr>) (find_cap r i)"
proof -
  have "find (\<lambda>c. cap_id c = i) (map (\<lambda>c. c\<lparr>cap_expires := t\<rparr>) cs) = map_option (\<lambda>c. c\<lparr>cap_expires := t\<rparr>) (find (\<lambda>c. cap_id c = i) cs)" for cs
    by (induction cs) simp_all
  then show ?thesis using caps_with_expiry [of t r] by (simp add: find_cap_def caps_def)
qed

text \<open>
  Expiry is not enforced at the system calls. The test of the guarded calls and \<open>cap_check\<close> give the
  same answer whatever the expiry times of the capabilities are: they compare with the time 0,
  at which nothing has expired. A guarded call passes exactly when the current task owns a
  capability that is not revoked, names exactly the resource and contains the permissions.\<close>

theorem expiry_not_enforced:
  shows "require_capability (k\<lparr>ks_caps := with_expiry t (ks_caps k)\<rparr>) rt i p = require_capability k rt i p \<and>
    map_option fst (sys_cap_check e (k\<lparr>ks_caps := with_expiry t (ks_caps k)\<rparr>) a) = map_option fst (sys_cap_check e k a) \<and>
    (require_capability k rt i p = Inr () \<longleftrightarrow>
     (\<exists>c. c \<in> set (caps (ks_caps k)) \<and> cap_owner c = ks_current_task k \<and> \<not> is_revoked (ks_caps k) (cap_id c) \<and>
        cap_resource c = \<lparr>rr_type = rt, rr_instance = i\<rparr> \<and> perm_contains (cap_permissions c) p))"
proof -
  let ?k = "k\<lparr>ks_caps := with_expiry t (ks_caps k)\<rparr>"
  have "require_capability ?k rt i p = Inr () \<longleftrightarrow> require_capability k rt i p = Inr ()"
    unfolding require_capability_iff by (simp add: caps_with_expiry)
  then have r: "require_capability ?k rt i p = require_capability k rt i p"
    using require_capability_cases [of ?k rt i p] require_capability_cases [of k rt i p] by auto
  have "(case lookup_cap (with_expiry t r) j 0 of Inl err \<Rightarrow> cap_error_to_syscall err
            | Inr c \<Rightarrow> (case cap_check c res q 0 of Inl err \<Rightarrow> cap_error_to_syscall err | Inr _ \<Rightarrow> as_i64 Success)) =
        (case lookup_cap r j 0 of Inl err \<Rightarrow> cap_error_to_syscall err
            | Inr c \<Rightarrow> (case cap_check c res q 0 of Inl err \<Rightarrow> cap_error_to_syscall err | Inr _ \<Rightarrow> as_i64 Success))" for r j res q
    by (cases "find_cap r j") (simp_all add: lookup_cap_def find_cap_with_expiry is_expired_0 cap_check_def)
  then have "map_option fst (sys_cap_check e ?k a) = map_option fst (sys_cap_check e k a)"
    by (simp add: sys_cap_check_def split: option.splits)
  with r require_capability_iff [of k rt i p] show ?thesis by blast
qed

section \<open>Granting\<close>

lemma resource_type_roundtrip: "resource_type_from_u8 (resource_type_code rt) = Some rt"
  by (cases rt) (simp_all add: resource_type_from_u8_def)

lemma ucast_code: "(ucast (ucast (resource_type_code rt) :: u64) :: u8) = resource_type_code rt"
  by (cases rt) simp_all

text \<open>
  The capability test restrains no task that has room for one more capability. \<open>cap_create\<close> asks for no
  authority: for every resource type, instance and set of permissions it records a capability
  for the calling task, and right after it the guarded calls of the task on that resource pass.\<close>

theorem any_task_grants_itself:
  assumes "count_for_task (ks_caps k) (ks_current_task k) < MAX_CAPS_PER_TASK" "None \<in> set (reg_caps (ks_caps k))"
    and "\<not> is_revoked (ks_caps k) (reg_next_id (ks_caps k))"
    and "perms \<noteq> 0" "perms \<le> 15" "perm_contains (ucast perms) q"
  shows "\<exists>k'. sys_cap_create e k [ucast (resource_type_code rt), i, perms, 0, 0, 0] = Some (to_i64 (reg_next_id (ks_caps k)), k') \<and>
    require_capability k' rt i q = Inr ()"
proof -
  let ?r = "ks_caps k" and ?res = "\<lparr>rr_type = rt, rr_instance = i\<rparr>" and ?p = "ucast perms :: u32"
  have u: "unat perms \<le> 15" using assms(5) by (simp add: word_le_nat_alt)
  then have up: "unat ?p = unat perms" by (simp add: unsigned_ucast_eq take_bit_nat_eq_self)
  then have "?p < 16" using u by (simp add: word_less_nat_alt)
  then have t: "?p AND 15 = ?p" using less_mask_eq [of ?p 4] by (simp add: mask_eq_exp_minus_1)
  then have "?p AND NOT 15 = 0" by (metis and.assoc and.right_neutral bit.conj_cancel_right and_zero_eq)
  moreover have "?p \<noteq> 0" using assms(4) up by (metis unat_eq_zero unat_0)
  ultimately have np: "\<not> bad_permissions ?p" by (simp add: bad_permissions_def)
  obtain slot where "position (\<lambda>s. s = None) (reg_caps ?r) = Some slot"
    using assms(2) position_None_iff [of "\<lambda>s. s = None" "reg_caps ?r"] by (cases "position (\<lambda>s. s = None) (reg_caps ?r)") auto
  then obtain reg where c: "create ?r (ks_current_task k) ?res ?p 0 = Inr (reg_next_id ?r, reg)"
    using assms(1) by (auto simp: create_def insert_cap_def Let_def)
  from insert_cap_InrD [OF c [unfolded create_def]] obtain xs ys where
    "caps reg = xs @ \<lparr>cap_id = reg_next_id ?r, cap_resource = ?res, cap_permissions = ?p, cap_expires = 0, cap_owner = ks_current_task k, cap_parent = 0\<rparr> # ys"
    and rv: "reg_revoked reg = reg_revoked ?r" by blast
  moreover have "\<not> is_revoked reg (reg_next_id ?r)" using assms(3) rv by (simp add: is_revoked_def)
  ultimately have "require_capability (k\<lparr>ks_caps := reg\<rparr>) rt i q = Inr ()"
    unfolding require_capability_iff using assms(6) by auto
  then show ?thesis using np c t by (simp add: sys_cap_create_def ucast_code resource_type_roundtrip perm_from_bits_def cap_id_result_def)
qed


theorem any_task_grants_itself_witness:
  "\<forall>e. \<exists>k'. sys_cap_create e (kernel_new 16 \<lparr>word_at = \<lambda>_. 0, half_at = \<lambda>_. 0\<rparr> (\<lambda>_. 0)) [6, 0, 4, 0, 0, 0] = Some (1, k') \<and>
     require_capability k' SystemControl 0 PERM_EXECUTE = Inr ()"
proof
  fix e :: env
  let ?k = "kernel_new 16 \<lparr>word_at = \<lambda>_. 0, half_at = \<lambda>_. 0\<rparr> (\<lambda>_. 0)"
  have r: "ks_caps ?k = packed [] 4096 1" by (simp add: kernel_new_def reg_new_packed)
  have o: "to_i64 1 = 1" by (subst to_i64_small) simp_all
  have "perm_contains (ucast (4 :: u64)) PERM_EXECUTE" by (simp add: perm_contains_def PERM_EXECUTE_def)
  moreover have "None \<in> set (reg_caps (packed [] 4096 1))" by (simp add: packed_def)
  ultimately show "\<exists>k'. sys_cap_create e ?k [6, 0, 4, 0, 0, 0] = Some (1, k') \<and> require_capability k' SystemControl 0 PERM_EXECUTE = Inr ()"
    using any_task_grants_itself [of ?k 4 PERM_EXECUTE e SystemControl 0, unfolded r] o
    by (simp add: count_for_task_eq MAX_CAPS_PER_TASK_def)
qed

section \<open>Listing\<close>

lemma length_concat_words: "length (concat (map (to_le_bytes 8) ws)) = 8 * length ws"
  by (induction ws) simp_all

lemma nth_concat_words: "i < 8 \<Longrightarrow> j < length ws \<Longrightarrow> concat (map (to_le_bytes 8) ws) ! (8 * j + i) = to_le_bytes 8 (ws ! j) ! i"
proof (induction ws arbitrary: j)
  case (Cons w ws)
  then show ?case by (cases j) (auto simp: nth_append)
qed simp

lemma load_u64_words:
  assumes "j < length ws"
  shows "load_u64 (write_bytes p (concat (map (to_le_bytes 8) ws)) mem) (p + 8 * j) = ws ! j"
proof -
  have "map (\<lambda>i. write_bytes p (concat (map (to_le_bytes 8) ws)) mem (p + 8 * j + i)) [0..<8] = to_le_bytes 8 (ws ! j)"
    by (rule nth_equalityI) (use assms in \<open>auto simp: write_bytes_def length_concat_words nth_concat_words add.assoc\<close>)
  then show ?thesis by (simp add: load_u64_def)
qed

definition held_ids :: "cap_registry \<Rightarrow> u64 \<Rightarrow> cap_id list" where
  "held_ids r t = map cap_id (filter (\<lambda>c. cap_owner c = t \<and> \<not> is_revoked r (cap_id c)) (caps r))"

text \<open>
  \<open>cap_list\<close> reports exactly the capabilities a task holds. With a buffer of \<open>n\<close> words it returns the
  number of ids written, which is the smaller of \<open>n\<close> and the number of capabilities of the task that
  are not revoked; the words of the buffer are their ids, in the order of the registry, and no byte
  outside these words changes. Without a buffer it returns the number of capabilities.\<close>

theorem cap_list_exact:
  assumes "ptr \<noteq> 0" "8 dvd unat ptr" "t \<noteq> 0" "0 < unat n" "unat n \<le> MAX_CAPS_PER_TASK"
    and "m = min (unat n) (length (held_ids (ks_caps k) t))"
  shows "(\<exists>k'. sys_cap_list e k [t, ptr, n, 0, 0, 0] = Some (int m, k') \<and> ks_caps k' = ks_caps k \<and>
      (\<forall>j. j < m \<longrightarrow> load_u64 (ks_mem k') (unat ptr + 8 * j) = held_ids (ks_caps k) t ! j) \<and>
      (\<forall>x. x < unat ptr \<or> unat ptr + 8 * m \<le> x \<longrightarrow> ks_mem k' x = ks_mem k x)) \<and>
    sys_cap_list e k [t, 0, 0, 0, 0, 0] = Some (int (length (held_ids (ks_caps k) t)), k)"
proof -
  let ?ids = "held_ids (ks_caps k) t"
  have c: "count_for_task (ks_caps k) t = length ?ids" by (simp add: count_for_task_eq held_ids_def)
  have l: "list_for_task (ks_caps k) t i = take i ?ids" for i by (simp add: list_for_task_def held_ids_def caps_def)
  have p: "unat ptr \<noteq> 0" using assms(1) by (simp add: unsigned_eq_0_iff)
  let ?k' = "k\<lparr>ks_mem := write_bytes (unat ptr) (concat (map (to_le_bytes 8) (take m ?ids))) (ks_mem k)\<rparr>"
  have ml: "(if unat n < length ?ids then unat n else length ?ids) = m" "length (take m ?ids) = m" using assms(6) by simp_all
  have z: "write_bytes q [] mem = mem" for q mem by (auto simp: write_bytes_def fun_eq_iff)
  have "sys_cap_list e k [t, ptr, n, 0, 0, 0] = Some (int m, ?k')"
  proof (cases "?ids = []")
    case True
    then show ?thesis using assms c p by (simp add: sys_cap_list_def Let_def z)
  next
    case False
    then show ?thesis using assms(2-6) p by (cases "unat n < length ?ids") (simp_all add: sys_cap_list_def Let_def c l)
  qed
  moreover have "load_u64 (ks_mem ?k') (unat ptr + 8 * j) = ?ids ! j" if "j < m" for j
    using load_u64_words [of j "take m ?ids" "unat ptr" "ks_mem k"] that ml(2) by simp
  moreover have "ks_mem ?k' x = ks_mem k x" if "x < unat ptr \<or> unat ptr + 8 * m \<le> x" for x
    using that ml(2) by (auto simp: write_bytes_def length_concat_words)
  ultimately show ?thesis using assms(3) by (auto simp: sys_cap_list_def Let_def c)
qed

theorem cap_list_exact_witness:
  "\<forall>e. \<exists>k'. sys_cap_list e (sample_kernel (\<lambda>_. 0)) [7, 64, 4, 0, 0, 0] = Some (1, k') \<and> load_u64 (ks_mem k') 64 = 1"
proof
  fix e :: env
  let ?k = "sample_kernel (\<lambda>_. 0)"
  have "held_ids (ks_caps ?k) 7 = [1]"
    by (simp add: held_ids_def caps_def sample_kernel_def one_cap_def flatten_opt_def not_revoked_new reg_new_def)
  then show "\<exists>k'. sys_cap_list e ?k [7, 64, 4, 0, 0, 0] = Some (1, k') \<and> load_u64 (ks_mem k') 64 = 1"
    using cap_list_exact [of 64 7 4 1 ?k e] by (auto simp: MAX_CAPS_PER_TASK_def)
qed

end
