(* ===== verification/Sys_Device.thy ===== *)
theory Sys_Device
  imports Kernel_State
begin

text \<open>
  The device table and the device calls of \<open>kernel/src/syscall/device.rs\<close>: registration, handles,
  enumeration into a caller's buffer and control commands. The main results are that an open
  handle always names a registered device and that the enumeration can be read back.\<close>

section \<open>The tables\<close>

definition MAX_DMA_SIZE :: nat where
  "MAX_DMA_SIZE = 256 * 1024 * 1024"

fun device_type_code :: "device_type \<Rightarrow> u8" where
  "device_type_code Unknown = 0"
| "device_type_code UsbHost = 1"
| "device_type_code UsbDevice = 2"
| "device_type_code UsbGadget = 3"
| "device_type_code SdrDevice = 4"

definition register_device :: "device_entry \<Rightarrow> kernel \<Rightarrow> nat option \<times> kernel" where
  "register_device entry k = (case position (\<lambda>d. \<not> dev_active d) (ks_devices k) of
     Some i \<Rightarrow> (Some i, k\<lparr>ks_devices := (ks_devices k)[i := entry\<lparr>dev_active := True\<rparr>]\<rparr>)
   | None \<Rightarrow> (None, k))"

definition unregister_device :: "nat \<Rightarrow> kernel \<Rightarrow> bool \<times> kernel" where
  "unregister_device index k =
     (if index < MAX_DEVICES \<and> dev_active (ks_devices k ! index) then
        (True, k\<lparr>ks_devices := (ks_devices k)[index := (ks_devices k ! index)\<lparr>dev_active := False\<rparr>],
          ks_handles := map (\<lambda>h. if he_active h \<and> unat (he_device h) = index then h\<lparr>he_active := False\<rparr> else h) (ks_handles k)\<rparr>)
      else (False, k))"

definition device_count :: "kernel \<Rightarrow> nat" where
  "device_count k = length (filter dev_active (ks_devices k))"

definition get_device :: "nat \<Rightarrow> kernel \<Rightarrow> device_entry option" where
  "get_device index k = (if index < MAX_DEVICES \<and> dev_active (ks_devices k ! index) then Some (ks_devices k ! index) else None)"

section \<open>Handlers\<close>

definition device_bytes :: "device_entry \<Rightarrow> u8 list" where
  "device_bytes d = [device_type_code (dev_type d), ucast (dev_vendor d), ucast (drop_bit 8 (dev_vendor d)),
     ucast (dev_product d), ucast (drop_bit 8 (dev_product d)), ucast (dev_ident d), ucast (drop_bit 8 (dev_ident d)), 0]"

text \<open>The loop over the table; \<open>room\<close> is the part of the buffer that is left.\<close>

fun enum_loop :: "nat \<Rightarrow> device_entry list \<Rightarrow> u8 list" where
  "enum_loop room [] = []"
| "enum_loop room (d # ds) =
     (if \<not> dev_active d then enum_loop room ds
      else if 8 > room then []
      else device_bytes d @ enum_loop (room - 8) ds)"

definition sys_dev_enumerate :: handler where
  "sys_dev_enumerate e k a =
     (let buf_ptr = unat (a ! 0); buf_len = unat (a ! 1) in
      if buf_ptr = 0 \<and> buf_len = 0 then Some (int (device_count k), k)
      else if buf_ptr = 0 then fail_with k InvalidArgument
      else if buf_len > 2 ^ 63 - 1 then fail_with k InvalidArgument
      else let out = enum_loop buf_len (ks_devices k) in
        Some (int (length out), k\<lparr>ks_mem := write_bytes buf_ptr out (ks_mem k)\<rparr>))"

definition sys_dev_open :: handler where
  "sys_dev_open e k a =
     (let device_index = unat (a ! 0) in
      if device_index \<ge> MAX_DEVICES then fail_with k syscall_error.NotFound
      else if \<not> dev_active (ks_devices k ! device_index) then fail_with k syscall_error.NotFound
      else case position (\<lambda>h. \<not> he_active h) (ks_handles k) of
        Some i \<Rightarrow> Some (int (i + 1), k\<lparr>ks_handles := (ks_handles k)[i := \<lparr>he_device = ucast (a ! 0), he_active = True\<rparr>],
          ks_generation := ks_generation k + 1\<rparr>)
      | None \<Rightarrow> fail_with k Busy)"

definition sys_dev_close :: handler where
  "sys_dev_close e k a =
     (let handle = unat (a ! 0) in
      if handle = 0 then fail_with k InvalidHandle
      else let i = handle - 1 in
        if i \<ge> MAX_HANDLES then fail_with k InvalidHandle
        else if \<not> he_active (ks_handles k ! i) then fail_with k InvalidHandle
        else Some (as_i64 Success, k\<lparr>ks_handles := (ks_handles k)[i := (ks_handles k ! i)\<lparr>he_active := False\<rparr>]\<rparr>))"

definition DEV_GET_TYPE :: u64 where
  "DEV_GET_TYPE = 0x0001"

definition DEV_GET_VID :: u64 where
  "DEV_GET_VID = 0x0002"

definition DEV_GET_PID :: u64 where
  "DEV_GET_PID = 0x0003"

definition USB_COMMANDS :: "u64 list" where
  "USB_COMMANDS = [0x0100, 0x0101, 0x0102, 0x0103, 0x0104]"

definition SDR_COMMANDS :: "u64 list" where
  "SDR_COMMANDS = [0x0200, 0x0201, 0x0202, 0x0203, 0x0204, 0x0205]"

definition ioctl_result :: "device_entry \<Rightarrow> u64 \<Rightarrow> int" where
  "ioctl_result d cmd =
     (if cmd = DEV_GET_TYPE then int (unat (device_type_code (dev_type d)))
      else if cmd = DEV_GET_VID then int (unat (dev_vendor d))
      else if cmd = DEV_GET_PID then int (unat (dev_product d))
      else if cmd \<in> set USB_COMMANDS then
        (case dev_type d of UsbHost \<Rightarrow> as_i64 NotSupported | UsbDevice \<Rightarrow> as_i64 NotSupported | UsbGadget \<Rightarrow> as_i64 NotSupported
          | _ \<Rightarrow> as_i64 InvalidArgument)
      else if cmd \<in> set SDR_COMMANDS then
        (if dev_type d \<noteq> SdrDevice then as_i64 InvalidArgument else as_i64 NotSupported)
      else as_i64 InvalidArgument)"

definition sys_dev_ioctl :: handler where
  "sys_dev_ioctl e k a =
     (let handle = unat (a ! 0) in
      if handle = 0 then fail_with k InvalidHandle
      else let i = handle - 1 in
        if i \<ge> MAX_HANDLES then fail_with k InvalidHandle
        else if \<not> he_active (ks_handles k ! i) then fail_with k InvalidHandle
        else let dev_idx = unat (he_device (ks_handles k ! i)) in
          if dev_idx \<ge> MAX_DEVICES \<or> \<not> dev_active (ks_devices k ! dev_idx) then fail_with k DeviceError
          else Some (ioctl_result (ks_devices k ! dev_idx) (a ! 1), k))"

definition sys_dev_dma_alloc :: handler where
  "sys_dev_dma_alloc e k a =
     (let sz = unat (a ! 0); align = unat (a ! 1) in
      if sz = 0 then fail_with k InvalidArgument
      else if sz > MAX_DMA_SIZE then fail_with k InvalidArgument
      else if align \<noteq> 0 \<and> \<not> is_power_of_two align then fail_with k InvalidArgument
      else fail_with k NotSupported)"

section \<open>Open handles name registered devices\<close>

definition dev_inv :: "kernel \<Rightarrow> bool" where
  [inv_defs]: "dev_inv k \<longleftrightarrow> length (ks_devices k) = MAX_DEVICES \<and> length (ks_handles k) = MAX_HANDLES \<and>
     (\<forall>h \<in> set (ks_handles k). he_active h \<longrightarrow> unat (he_device h) < MAX_DEVICES \<and> dev_active (ks_devices k ! unat (he_device h)))"

lemma dev_inv_new: "dev_inv (kernel_new n st mem)"
  by (simp add: dev_inv_def kernel_new_def handle_empty_def)

lemma active_update: "dev_active (ds ! j) \<Longrightarrow> j < length ds \<Longrightarrow> dev_active (ds[i := d\<lparr>dev_active := True\<rparr>] ! j)"
  by (cases "i = j") simp_all

lemma register_device_inv: "dev_inv k \<Longrightarrow> dev_inv (snd (register_device d k))"
  by (auto simp: dev_inv_def register_device_def active_update split: option.splits)

lemma unregister_device_inv: "dev_inv k \<Longrightarrow> dev_inv (snd (unregister_device i k))"
  by (auto simp: dev_inv_def unregister_device_def)

lemma dev_open_inv:
  assumes "dev_inv k" "sys_dev_open e k a = Some (r, k')"
  shows "dev_inv k'"
proof (cases "unat (a ! 0) < MAX_DEVICES \<and> dev_active (ks_devices k ! unat (a ! 0))")
  case True
  have u: "unat (ucast (a ! 0) :: u16) = unat (a ! 0)"
    using True by (simp add: unsigned_ucast_eq take_bit_nat_eq_self MAX_DEVICES_def)
  show ?thesis using assms True u
    by (auto simp: dev_inv_def sys_dev_open_def Let_def split: option.splits dest!: subsetD [OF set_update_subset_insert])
next
  case False
  then show ?thesis using assms by (auto simp: sys_dev_open_def Let_def split: if_splits)
qed

lemma dev_close_inv:
  assumes "dev_inv k" "sys_dev_close e k a = Some (r, k')"
  shows "dev_inv k'"
  using assms by (auto simp: dev_inv_def sys_dev_close_def Let_def split: if_splits dest!: subsetD [OF set_update_subset_insert])

text \<open>What the kernel and its callers do with the tables, as one step relation.\<close>

inductive dev_run :: "kernel \<Rightarrow> bool" where
  run_new: "dev_run (kernel_new n st mem)"
| run_register: "dev_run k \<Longrightarrow> dev_run (snd (register_device d k))"
| run_unregister: "dev_run k \<Longrightarrow> dev_run (snd (unregister_device i k))"
| run_open: "dev_run k \<Longrightarrow> sys_dev_open e k a = Some (r, k') \<Longrightarrow> dev_run k'"
| run_close: "dev_run k \<Longrightarrow> sys_dev_close e k a = Some (r, k') \<Longrightarrow> dev_run k'"

lemma dev_run_inv: "dev_run k \<Longrightarrow> dev_inv k"
  by (induction rule: dev_run.induct) (auto intro: dev_inv_new register_device_inv unregister_device_inv dev_open_inv dev_close_inv)


lemma uint_nonneg_code: "uint w \<noteq> - 13"
  using uint_ge_0 [of w] by linarith

text \<open>
  C21. An open handle always names a registered device. After any interleaving of registrations,
  removals, opens and closes, a command on an open handle reaches the device the handle was opened
  for, which is still registered, so the error for a vanished device never occurs; on any other
  number the command is refused as an invalid handle, and no command changes the state.\<close>

theorem device_handles_never_dangle:
  assumes "dev_run k"
  shows "if a ! 0 \<noteq> 0 \<and> unat (a ! 0) \<le> MAX_HANDLES \<and> he_active (ks_handles k ! (unat (a ! 0) - 1))
    then \<exists>d. get_device (unat (he_device (ks_handles k ! (unat (a ! 0) - 1)))) k = Some d \<and>
      sys_dev_ioctl e k a = Some (ioctl_result d (a ! 1), k) \<and> ioctl_result d (a ! 1) \<noteq> as_i64 DeviceError
    else sys_dev_ioctl e k a = Some (as_i64 InvalidHandle, k)"
proof -
  let ?i = "unat (a ! 0) - 1"
  have z: "unat (a ! 0) = 0 \<longleftrightarrow> a ! 0 = 0" by (simp add: unsigned_eq_0_iff)
  have r: "ioctl_result d c \<noteq> as_i64 DeviceError" for d c
    by (auto simp: ioctl_result_def uint_nonneg_code split: device_type.splits)
  show ?thesis
  proof (cases "a ! 0 \<noteq> 0 \<and> unat (a ! 0) \<le> MAX_HANDLES \<and> he_active (ks_handles k ! ?i)")
    case True
    then have i: "?i < MAX_HANDLES" "unat (a ! 0) \<noteq> 0" using z by (auto simp: MAX_HANDLES_def)
    then have "ks_handles k ! ?i \<in> set (ks_handles k)" using dev_run_inv [OF assms] by (simp add: dev_inv_def)
    with True dev_run_inv [OF assms] have "unat (he_device (ks_handles k ! ?i)) < MAX_DEVICES"
      "dev_active (ks_devices k ! unat (he_device (ks_handles k ! ?i)))" unfolding dev_inv_def by blast+
    with True i r show ?thesis by (simp add: get_device_def sys_dev_ioctl_def Let_def)
  next
    case False
    then show ?thesis using z by (auto simp: sys_dev_ioctl_def Let_def MAX_HANDLES_def)
  qed
qed

section \<open>Enumeration\<close>

definition active_devices :: "kernel \<Rightarrow> device_entry list" where
  "active_devices k = filter dev_active (ks_devices k)"

lemma length_device_bytes [simp]: "length (device_bytes d) = 8"
  by (simp add: device_bytes_def)

lemma enum_loop_eq: "enum_loop room ds = concat (map device_bytes (take (room div 8) (filter dev_active ds)))"
proof (induction room ds rule: enum_loop.induct)
  case (2 room d ds)
  show ?case
  proof (cases "dev_active d \<and> 8 \<le> room")
    case True
    then have "room div 8 = Suc ((room - 8) div 8)" by (simp add: le_div_geq)
    with 2 True show ?thesis by simp
  next
    case False
    with 2 show ?thesis by (auto simp: not_le)
  qed
qed simp

text \<open>A reader of the buffer, following the layout that the source documents.\<close>

definition code_device_type :: "u8 \<Rightarrow> device_type" where
  "code_device_type c = (if c = 1 then UsbHost else if c = 2 then UsbDevice else if c = 3 then UsbGadget
     else if c = 4 then SdrDevice else Unknown)"

definition read_entry :: "u8 list \<Rightarrow> device_entry" where
  "read_entry bs = \<lparr>dev_type = code_device_type (bs ! 0), dev_vendor = from_le_bytes [bs ! 1, bs ! 2],
     dev_product = from_le_bytes [bs ! 3, bs ! 4], dev_ident = from_le_bytes [bs ! 5, bs ! 6], dev_active = True\<rparr>"

fun read_entries :: "u8 list \<Rightarrow> device_entry list" where
  "read_entries [] = []"
| "read_entries (b # bs) = read_entry (take 8 (b # bs)) # read_entries (drop 7 bs)"

lemma u16_bytes: "from_le_bytes [ucast w, ucast (drop_bit 8 w)] = (w :: u16)"
proof -
  have "to_le_bytes 2 w = [ucast w, ucast (drop_bit 8 w)]" by (simp add: to_le_bytes_def upt_rec)
  then show ?thesis using from_to_le_bytes [of 2 w] by simp
qed

lemma read_entry_bytes: "dev_active d \<Longrightarrow> read_entry (device_bytes d) = d"
  by (cases d; cases "dev_type d") (simp_all add: read_entry_def device_bytes_def u16_bytes code_device_type_def del: from_le_bytes.simps)

lemma read_entries_bytes: "\<forall>d \<in> set ds. dev_active d \<Longrightarrow> read_entries (concat (map device_bytes ds)) = ds"
proof (induction ds)
  case (Cons d ds)
  obtain b bs where b: "device_bytes d = b # bs" "length bs = 7" by (simp add: device_bytes_def)
  then have "read_entries (device_bytes d @ xs) = read_entry (device_bytes d) # read_entries xs" for xs by simp
  with Cons show ?case by (simp add: read_entry_bytes)
qed simp

lemma read_back: "map (\<lambda>i. write_bytes p bs mem (p + i)) [0..<length bs] = bs"
  by (rule nth_equalityI) (simp_all add: write_bytes_def)

text \<open>
  The device list can be read back. For every buffer the call returns eight times the number of
  entries written, which is the smaller of the room and the number of registered devices; reading
  the entries back by the documented layout gives exactly the first registered devices with all
  their fields, and no byte behind them changes. Without a buffer the call returns how many there are.\<close>

theorem device_enumeration_roundtrip:
  assumes "0 < unat ptr" "unat len < 2 ^ 63" "ds = take (unat len div 8) (active_devices k)"
  shows "(\<exists>k'. sys_dev_enumerate e k [ptr, len, 0, 0, 0, 0] = Some (int (8 * length ds), k') \<and>
      read_entries (map (\<lambda>i. ks_mem k' (unat ptr + i)) [0..<8 * length ds]) = ds \<and>
      (\<forall>x. x < unat ptr \<or> unat ptr + unat len \<le> x \<longrightarrow> ks_mem k' x = ks_mem k x)) \<and>
    sys_dev_enumerate e k [0, 0, 0, 0, 0, 0] = Some (int (length (active_devices k)), k)"
proof -
  let ?out = "concat (map device_bytes ds)"
  let ?k' = "k\<lparr>ks_mem := write_bytes (unat ptr) ?out (ks_mem k)\<rparr>"
  have o: "enum_loop (unat len) (ks_devices k) = ?out" using assms(3) by (simp add: enum_loop_eq active_devices_def)
  have l: "length ?out = 8 * length ds" by (induction ds) simp_all
  have "\<forall>d \<in> set ds. dev_active d" using assms(3) set_take_subset by (fastforce simp: active_devices_def)
  then have "read_entries (map (\<lambda>i. ks_mem ?k' (unat ptr + i)) [0..<8 * length ds]) = ds"
    using read_back [of "unat ptr" ?out "ks_mem k"] read_entries_bytes [of ds] by (simp add: l)
  moreover have "length ds \<le> unat len div 8" using assms(3) by simp
  then have "8 * length ds \<le> unat len" by linarith
  then have "ks_mem ?k' x = ks_mem k x" if "x < unat ptr \<or> unat ptr + unat len \<le> x" for x
    using that l by (auto simp: write_bytes_def)
  moreover have "sys_dev_enumerate e k [ptr, len, 0, 0, 0, 0] = Some (int (8 * length ds), ?k')"
    using assms(1,2) o l by (simp add: sys_dev_enumerate_def Let_def)
  ultimately show ?thesis by (auto simp: sys_dev_enumerate_def device_count_def active_devices_def)
qed

section \<open>Instances\<close>

definition sample_device :: device_entry where
  "sample_device = \<lparr>dev_type = SdrDevice, dev_vendor = 0x0BDA, dev_product = 0x2838, dev_ident = 9, dev_active = True\<rparr>"

definition device_kernel :: kernel where
  "device_kernel = snd (register_device sample_device (kernel_new 16 \<lparr>word_at = \<lambda>_. 0, half_at = \<lambda>_. 0\<rparr> (\<lambda>_. 0)))"

lemma position_replicate: "p x \<Longrightarrow> 0 < n \<Longrightarrow> position p (replicate n x) = Some 0"
  by (cases n) simp_all

lemma device_kernel_devices: "ks_devices device_kernel = sample_device # replicate 31 device_empty"
  "ks_handles device_kernel = replicate 64 handle_empty"
  by (simp_all add: device_kernel_def register_device_def kernel_new_def position_replicate device_empty_def MAX_DEVICES_def MAX_HANDLES_def
      sample_device_def numeral_eq_Suc)

theorem device_handles_never_dangle_witness:
  "\<forall>e. \<exists>k. sys_dev_open e device_kernel [0, 0, 0, 0, 0, 0] = Some (1, k) \<and> sys_dev_ioctl e k [1, 3, 0, 0, 0, 0] = Some (0x2838, k)"
proof
  fix e :: env
  define k where "k = device_kernel\<lparr>ks_handles := \<lparr>he_device = 0, he_active = True\<rparr> # replicate 63 handle_empty,
    ks_generation := ks_generation device_kernel + 1\<rparr>"
  have o: "sys_dev_open e device_kernel [0, 0, 0, 0, 0, 0] = Some (1, k)"
    by (simp add: sys_dev_open_def device_kernel_devices k_def position_replicate handle_empty_def MAX_DEVICES_def sample_device_def numeral_eq_Suc)
  have "dev_run k" by (rule run_open [OF _ o]) (simp add: device_kernel_def run_new run_register)
  from device_handles_never_dangle [OF this, of "[1, 3, 0, 0, 0, 0]" e]
  have "sys_dev_ioctl e k [1, 3, 0, 0, 0, 0] = Some (0x2838, k)"
    by (simp add: k_def MAX_HANDLES_def MAX_DEVICES_def get_device_def device_kernel_devices ioctl_result_def DEV_GET_TYPE_def DEV_GET_VID_def
        DEV_GET_PID_def sample_device_def)
  with o show "\<exists>k. sys_dev_open e device_kernel [0, 0, 0, 0, 0, 0] = Some (1, k) \<and> sys_dev_ioctl e k [1, 3, 0, 0, 0, 0] = Some (0x2838, k)"
    by blast
qed

theorem device_enumeration_roundtrip_witness:
  "\<forall>e. \<exists>k'. sys_dev_enumerate e device_kernel [4096, 64, 0, 0, 0, 0] = Some (8, k') \<and>
     read_entries (map (\<lambda>i. ks_mem k' (4096 + i)) [0..<8]) = [sample_device]"
proof
  fix e :: env
  have "active_devices device_kernel = [sample_device]"
    by (simp add: active_devices_def device_kernel_devices sample_device_def device_empty_def)
  then show "\<exists>k'. sys_dev_enumerate e device_kernel [4096, 64, 0, 0, 0, 0] = Some (8, k') \<and>
      read_entries (map (\<lambda>i. ks_mem k' (4096 + i)) [0..<8]) = [sample_device]"
    using device_enumeration_roundtrip [of 4096 64 "[sample_device]" device_kernel e] by auto
qed

end
