(* ===== verification/Sys_Misc.thy ===== *)
theory Sys_Misc
  imports Kernel_State
begin

text \<open>
  The remaining system calls: messaging (\<open>kernel/src/syscall/ipc.rs\<close>), inference (\<open>onnx.rs\<close>),
  system information and randomness (\<open>system.rs\<close>), the POSIX layer (\<open>posix.rs\<close>) and the
  entries of the authentication calls in the dispatch table (\<open>auth.rs\<close>). Most of them check their
  arguments and report that the operation is not there yet; the checks are modelled as they are.\<close>

section \<open>Messaging\<close>

definition MAX_IPC_MESSAGE_SIZE :: u64 where
  "MAX_IPC_MESSAGE_SIZE = 64 * 1024 * 1024"

definition MAX_KEY_EXPR_LEN :: u64 where
  "MAX_KEY_EXPR_LEN = 256"

definition sys_ipc_publish :: handler where
  "sys_ipc_publish e k a =
     (if a ! 0 = 0 \<or> a ! 1 = 0 then fail_with k InvalidArgument
      else if a ! 1 > MAX_KEY_EXPR_LEN then fail_with k InvalidArgument
      else if a ! 3 > MAX_IPC_MESSAGE_SIZE then fail_with k InvalidArgument
      else fail_with k NotSupported)"

definition sys_ipc_subscribe :: handler where
  "sys_ipc_subscribe e k a =
     (if a ! 0 = 0 \<or> a ! 1 = 0 then fail_with k InvalidArgument
      else if a ! 1 > MAX_KEY_EXPR_LEN then fail_with k InvalidArgument
      else fail_with k NotSupported)"

definition sys_ipc_recv :: handler where
  "sys_ipc_recv e k a =
     (if a ! 0 = 0 then fail_with k InvalidHandle
      else if a ! 1 = 0 \<or> a ! 2 = 0 then fail_with k InvalidArgument
      else fail_with k NotSupported)"

definition sys_ipc_query :: handler where
  "sys_ipc_query e k a =
     (if a ! 0 = 0 \<or> a ! 1 = 0 then fail_with k InvalidArgument
      else if a ! 1 > MAX_KEY_EXPR_LEN then fail_with k InvalidArgument
      else if a ! 3 > MAX_IPC_MESSAGE_SIZE then fail_with k InvalidArgument
      else if a ! 4 = 0 \<or> a ! 5 = 0 then fail_with k InvalidArgument
      else fail_with k NotSupported)"

definition sys_ipc_channel_create :: handler where
  "sys_ipc_channel_create e k a =
     (if a ! 0 = 0 \<or> a ! 1 = 0 then fail_with k InvalidArgument else fail_with k NotSupported)"

definition sys_ipc_channel_send :: handler where
  "sys_ipc_channel_send e k a =
     (if a ! 0 = 0 then fail_with k InvalidHandle
      else if a ! 2 > MAX_IPC_MESSAGE_SIZE then fail_with k InvalidArgument
      else fail_with k NotSupported)"

definition sys_ipc_channel_recv :: handler where
  "sys_ipc_channel_recv e k a =
     (if a ! 0 = 0 then fail_with k InvalidHandle
      else if a ! 1 = 0 \<or> a ! 2 = 0 then fail_with k InvalidArgument
      else fail_with k NotSupported)"

definition sys_ipc_channel_close :: handler where
  "sys_ipc_channel_close e k a = (if a ! 0 = 0 then fail_with k InvalidHandle else fail_with k NotSupported)"

section \<open>Inference\<close>

definition MAX_MODEL_SIZE :: u64 where
  "MAX_MODEL_SIZE = 2 * 1024 * 1024 * 1024"

definition MAX_IO_TENSORS :: u64 where
  "MAX_IO_TENSORS = 64"

definition sys_onnx_load :: handler where
  "sys_onnx_load e k a =
     (if a ! 0 = 0 then fail_with k InvalidArgument
      else if a ! 1 = 0 then fail_with k InvalidArgument
      else if a ! 1 > MAX_MODEL_SIZE then fail_with k InvalidArgument
      else fail_with k NotSupported)"

definition sys_onnx_unload :: handler where
  "sys_onnx_unload e k a = (if a ! 0 = 0 then fail_with k InvalidHandle else fail_with k NotSupported)"

definition sys_onnx_create_session :: handler where
  "sys_onnx_create_session e k a = (if a ! 0 = 0 then fail_with k InvalidHandle else fail_with k NotSupported)"

definition sys_onnx_run :: handler where
  "sys_onnx_run e k a =
     (if a ! 0 = 0 then fail_with k InvalidHandle
      else if a ! 1 = 0 \<or> a ! 2 = 0 then fail_with k InvalidArgument
      else if a ! 3 = 0 \<or> a ! 4 = 0 then fail_with k InvalidArgument
      else if a ! 2 > MAX_IO_TENSORS \<or> a ! 4 > MAX_IO_TENSORS then fail_with k InvalidArgument
      else fail_with k NotSupported)"

definition sys_onnx_get_metadata :: handler where
  "sys_onnx_get_metadata e k a =
     (if a ! 0 = 0 then fail_with k InvalidHandle
      else if a ! 1 = 0 \<or> a ! 2 = 0 then fail_with k InvalidArgument
      else fail_with k NotSupported)"

definition sys_onnx_list_providers :: handler where
  "sys_onnx_list_providers e k a =
     (if a ! 0 = 0 \<and> a ! 1 = 0 then fail_with k NotSupported
      else if a ! 0 = 0 then fail_with k InvalidArgument
      else fail_with k NotSupported)"

definition sys_onnx_model_add :: handler where
  "sys_onnx_model_add e k a = Some (-38, k)"

definition sys_onnx_model_remove :: handler where
  "sys_onnx_model_remove e k a = Some (-38, k)"

section \<open>System\<close>

datatype log_level = LogError | LogWarn | LogInfo | LogDebug | LogTrace

definition log_level_from_u32 :: "u32 \<Rightarrow> log_level option" where
  "log_level_from_u32 v = (if v = 0 then Some LogError else if v = 1 then Some LogWarn else if v = 2 then Some LogInfo
     else if v = 3 then Some LogDebug else if v = 4 then Some LogTrace else None)"

definition MAX_LOG_MSG_LEN :: u64 where
  "MAX_LOG_MSG_LEN = 4096"

definition MAX_RANDOM_LEN :: nat where
  "MAX_RANDOM_LEN = 256"

record system_info =
  si_version_major :: u16
  si_version_minor :: u16
  si_version_patch :: u16
  si_cpu_count :: u16
  si_total_memory :: u64
  si_free_memory :: u64
  si_arch :: u32
  si_initialized :: u32

text \<open>The C layout of the structure has no padding.\<close>

definition system_info_bytes :: "system_info \<Rightarrow> u8 list" where
  "system_info_bytes i = to_le_bytes 2 (si_version_major i) @ to_le_bytes 2 (si_version_minor i) @
     to_le_bytes 2 (si_version_patch i) @ to_le_bytes 2 (si_cpu_count i) @ to_le_bytes 8 (si_total_memory i) @
     to_le_bytes 8 (si_free_memory i) @ to_le_bytes 4 (si_arch i) @ to_le_bytes 4 (si_initialized i)"

definition SYSTEM_INFO_SIZE :: nat where
  "SYSTEM_INFO_SIZE = 32"

definition current_info :: "env \<Rightarrow> kernel \<Rightarrow> system_info" where
  "current_info e k = \<lparr>si_version_major = 0, si_version_minor = 1, si_version_patch = 0, si_cpu_count = 1,
     si_total_memory = 0, si_free_memory = 0, si_arch = env_arch e, si_initialized = (if ks_initialized k then 1 else 0)\<rparr>"

definition sys_info :: handler where
  "sys_info e k a =
     (let buf_ptr = unat (a ! 0) in
      if buf_ptr = 0 then Some (int SYSTEM_INFO_SIZE, k)
      else if unat (a ! 1) < SYSTEM_INFO_SIZE then fail_with k BufferTooSmall
      else if \<not> 8 dvd buf_ptr then fail_with k BadAddress
      else Some (as_i64 Success, k\<lparr>ks_mem := write_bytes buf_ptr (system_info_bytes (current_info e k)) (ks_mem k)\<rparr>))"

definition sys_time :: handler where
  "sys_time e k a = Some (to_i64 (env_now e AND 0x7FFFFFFFFFFFFFFF), k)"

definition sys_shutdown :: handler where
  "sys_shutdown e k a = (case require_capability k SystemControl 0 PERM_EXECUTE of
     Inl err \<Rightarrow> Some (err, k) | Inr _ \<Rightarrow> Some (as_i64 Success, k))"

definition sys_log :: handler where
  "sys_log e k a =
     (if log_level_from_u32 (ucast (a ! 0)) = None then fail_with k InvalidArgument
      else if a ! 1 = 0 \<or> a ! 2 = 0 then fail_with k InvalidArgument
      else if a ! 2 > MAX_LOG_MSG_LEN then fail_with k InvalidArgument
      else Some (as_i64 Success, k))"

definition sys_random :: handler where
  "sys_random e k a =
     (let buf_ptr = unat (a ! 0); buf_len = unat (a ! 1) in
      if buf_ptr = 0 then fail_with k InvalidArgument
      else if buf_len = 0 \<or> buf_len > MAX_RANDOM_LEN then fail_with k InvalidArgument
      else do {
        r \<leftarrow> csprng_generate (env_checks e) (ks_csprng k) buf_len;
        Some (case r of Inr (bytes, g) \<Rightarrow> (as_i64 Success, k\<lparr>ks_csprng := g, ks_mem := write_bytes buf_ptr bytes (ks_mem k)\<rparr>)
          | Inl _ \<Rightarrow> (as_i64 NotSupported, k)) })"

definition sys_watchdog_pet :: handler where
  "sys_watchdog_pet e k a = Some (as_i64 Success, k)"

definition sys_watchdog_remaining :: handler where
  "sys_watchdog_remaining e k a = Some (30000, k)"

definition sys_boot_success :: handler where
  "sys_boot_success e k a = Some ((case env_commit e of
       Inr _ \<Rightarrow> as_i64 Success
     | Inl BsNotImplemented \<Rightarrow> -38
     | Inl (BsStorage _) \<Rightarrow> as_i64 IoError
     | Inl (BsRetry _) \<Rightarrow> as_i64 Busy
     | Inl BsAlreadyCommitted \<Rightarrow> as_i64 Success), k)"

section \<open>POSIX\<close>

definition POSIX_ENOSYS :: int where
  "POSIX_ENOSYS = -38"

definition POSIX_EINVAL :: int where
  "POSIX_EINVAL = -22"

definition POSIX_EBADF :: int where
  "POSIX_EBADF = -9"

text \<open>The cast of a register to \<open>i32\<close>.\<close>

definition as_i32 :: "u64 \<Rightarrow> int" where
  "as_i32 w = sint (ucast w :: u32)"

definition sys_posix_open :: handler where
  "sys_posix_open e k a = (if a ! 0 = 0 \<or> a ! 1 = 0 then fail_with k InvalidArgument else Some (POSIX_ENOSYS, k))"

definition sys_posix_close :: handler where
  "sys_posix_close e k a = Some (POSIX_ENOSYS, k)"

definition sys_posix_read :: handler where
  "sys_posix_read e k a =
     (if a ! 1 = 0 \<and> a ! 2 > 0 then fail_with k BadAddress
      else if as_i32 (a ! 0) < 0 then Some (POSIX_EBADF, k)
      else Some (POSIX_ENOSYS, k))"

definition sys_posix_write :: handler where
  "sys_posix_write e k a =
     (if a ! 1 = 0 \<and> a ! 2 > 0 then fail_with k BadAddress
      else if as_i32 (a ! 0) < 0 then Some (POSIX_EBADF, k)
      else Some (POSIX_ENOSYS, k))"

definition sys_posix_fstat :: handler where
  "sys_posix_fstat e k a =
     (if a ! 1 = 0 then fail_with k BadAddress
      else if as_i32 (a ! 0) < 0 then Some (POSIX_EBADF, k)
      else Some (POSIX_ENOSYS, k))"

definition sys_posix_dup :: handler where
  "sys_posix_dup e k a = (if as_i32 (a ! 0) < 0 then Some (POSIX_EBADF, k) else Some (POSIX_ENOSYS, k))"

definition sys_posix_dup2 :: handler where
  "sys_posix_dup2 e k a =
     (if as_i32 (a ! 0) < 0 \<or> as_i32 (a ! 1) < 0 then Some (POSIX_EBADF, k) else Some (POSIX_ENOSYS, k))"

definition sys_posix_lseek :: handler where
  "sys_posix_lseek e k a =
     (if as_i32 (a ! 0) < 0 then Some (POSIX_EBADF, k)
      else if (ucast (a ! 2) :: u32) > 2 then Some (POSIX_EINVAL, k)
      else Some (POSIX_ENOSYS, k))"

definition sys_posix_mmap :: handler where
  "sys_posix_mmap e k a = (if a ! 1 = 0 then Some (POSIX_EINVAL, k) else Some (POSIX_ENOSYS, k))"

definition sys_posix_munmap :: handler where
  "sys_posix_munmap e k a =
     (if a ! 1 = 0 \<or> \<not> 4096 dvd unat (a ! 0) then Some (POSIX_EINVAL, k) else Some (POSIX_ENOSYS, k))"

definition sys_posix_mprotect :: handler where
  "sys_posix_mprotect e k a =
     (if a ! 1 = 0 \<or> \<not> 4096 dvd unat (a ! 0) then Some (POSIX_EINVAL, k) else Some (POSIX_ENOSYS, k))"

definition sys_posix_epoll_create :: handler where
  "sys_posix_epoll_create e k a =
     (if as_i32 (a ! 0) \<noteq> 0 \<and> as_i32 (a ! 0) \<noteq> 524288 then Some (POSIX_EINVAL, k) else Some (POSIX_ENOSYS, k))"

definition sys_posix_epoll_ctl :: handler where
  "sys_posix_epoll_ctl e k a =
     (if as_i32 (a ! 0) < 0 then Some (POSIX_EBADF, k)
      else if \<not> (1 \<le> as_i32 (a ! 1) \<and> as_i32 (a ! 1) \<le> 3) then Some (POSIX_EINVAL, k)
      else Some (POSIX_ENOSYS, k))"

definition sys_posix_epoll_wait :: handler where
  "sys_posix_epoll_wait e k a =
     (if as_i32 (a ! 0) < 0 then Some (POSIX_EBADF, k)
      else if a ! 1 = 0 \<or> as_i32 (a ! 2) \<le> 0 then Some (POSIX_EINVAL, k)
      else Some (POSIX_ENOSYS, k))"

definition sys_posix_clock_gettime :: handler where
  "sys_posix_clock_gettime e k a =
     (if a ! 1 = 0 then fail_with k BadAddress
      else if (ucast (a ! 0) :: u32) > 3 then Some (POSIX_EINVAL, k)
      else Some (POSIX_ENOSYS, k))"

definition sys_posix_nanosleep :: handler where
  "sys_posix_nanosleep e k a = (if a ! 0 = 0 then fail_with k BadAddress else Some (POSIX_ENOSYS, k))"

definition sys_posix_getrandom :: handler where
  "sys_posix_getrandom e k a =
     (if a ! 0 = 0 \<and> a ! 1 > 0 then fail_with k BadAddress
      else if a ! 1 = 0 then Some (0, k)
      else Some (POSIX_ENOSYS, k))"

definition sys_posix_socket :: handler where
  "sys_posix_socket e k a =
     (if as_i32 (a ! 0) \<noteq> 2 \<and> as_i32 (a ! 0) \<noteq> 10 then Some (POSIX_EINVAL, k)
      else if as_i32 (a ! 1) \<noteq> 1 \<and> as_i32 (a ! 1) \<noteq> 2 then Some (POSIX_EINVAL, k)
      else Some (POSIX_ENOSYS, k))"

definition sys_posix_nosys :: handler where
  "sys_posix_nosys e k a = Some (POSIX_ENOSYS, k)"

section \<open>Entries of the authentication calls\<close>

definition ERRNO_EINVAL :: int where
  "ERRNO_EINVAL = -22"

definition ERRNO_EACCES :: int where
  "ERRNO_EACCES = -13"

definition ERRNO_ENOSYS :: int where
  "ERRNO_ENOSYS = -38"

definition ERRNO_EAUTHEXPIRED :: int where
  "ERRNO_EAUTHEXPIRED = -81"

definition USERNAME_MAX_LEN :: nat where
  "USERNAME_MAX_LEN = 64"

definition clear_current_session :: "kernel \<Rightarrow> kernel" where
  "clear_current_session k = k\<lparr>ks_session := SESSION_NONE\<rparr>"

definition sys_auth_login :: handler where
  "sys_auth_login e k a = Some (ERRNO_ENOSYS, k)"

definition sys_auth_logout :: handler where
  "sys_auth_logout e k a =
     (if ks_session k = SESSION_NONE then Some (ERRNO_EACCES, k) else Some (0, clear_current_session k))"

definition sys_auth_change_password :: handler where
  "sys_auth_change_password e k a = Some (ERRNO_ENOSYS, k)"

definition sys_auth_create_user :: handler where
  "sys_auth_create_user e k a = Some (ERRNO_ENOSYS, k)"

definition sys_auth_whoami :: handler where
  "sys_auth_whoami e k a = Some (ERRNO_ENOSYS, k)"

definition sys_auth_totp_setup :: handler where
  "sys_auth_totp_setup e k a =
     (if a ! 0 = 0 \<or> a ! 1 = 0 \<or> unat (a ! 1) > USERNAME_MAX_LEN \<or> a ! 2 = 0 then Some (ERRNO_EINVAL, k)
      else Some (ERRNO_ENOSYS, k))"

end
