(* ===== verification/Syscalls.thy ===== *)
theory Syscalls
  imports Sys_Cap Sys_Device Sys_Misc
begin

text \<open>
  The dispatcher of \<open>kernel/src/syscall/mod.rs\<close>: the numbers of the calls, the dispatch table, the
  role and password gates, and what every sequence of system calls keeps of the kernel state.\<close>

section \<open>Numbers\<close>

definition SYSCALL_TABLE_SIZE :: nat where
  "SYSCALL_TABLE_SIZE = 0xA0"

abbreviation MEM_ALLOC :: nat where
  "MEM_ALLOC \<equiv> 0x00"

abbreviation MEM_FREE :: nat where
  "MEM_FREE \<equiv> 0x01"

abbreviation MEM_MAP :: nat where
  "MEM_MAP \<equiv> 0x02"

abbreviation MEM_PROTECT :: nat where
  "MEM_PROTECT \<equiv> 0x03"

abbreviation TENSOR_ALLOC :: nat where
  "TENSOR_ALLOC \<equiv> 0x04"

abbreviation TENSOR_FREE :: nat where
  "TENSOR_FREE \<equiv> 0x05"

abbreviation TENSOR_MAP_GPU :: nat where
  "TENSOR_MAP_GPU \<equiv> 0x06"

abbreviation TENSOR_UNMAP_GPU :: nat where
  "TENSOR_UNMAP_GPU \<equiv> 0x07"

abbreviation TASK_SPAWN :: nat where
  "TASK_SPAWN \<equiv> 0x10"

abbreviation TASK_YIELD :: nat where
  "TASK_YIELD \<equiv> 0x11"

abbreviation TASK_EXIT :: nat where
  "TASK_EXIT \<equiv> 0x12"

abbreviation TASK_JOIN :: nat where
  "TASK_JOIN \<equiv> 0x13"

abbreviation TASK_SET_PRIORITY :: nat where
  "TASK_SET_PRIORITY \<equiv> 0x14"

abbreviation TASK_SET_CLASS :: nat where
  "TASK_SET_CLASS \<equiv> 0x15"

abbreviation TASK_CURRENT :: nat where
  "TASK_CURRENT \<equiv> 0x16"

abbreviation IPC_PUBLISH :: nat where
  "IPC_PUBLISH \<equiv> 0x20"

abbreviation IPC_SUBSCRIBE :: nat where
  "IPC_SUBSCRIBE \<equiv> 0x21"

abbreviation IPC_RECV :: nat where
  "IPC_RECV \<equiv> 0x22"

abbreviation IPC_QUERY :: nat where
  "IPC_QUERY \<equiv> 0x23"

abbreviation IPC_CHANNEL_CREATE :: nat where
  "IPC_CHANNEL_CREATE \<equiv> 0x24"

abbreviation IPC_CHANNEL_SEND :: nat where
  "IPC_CHANNEL_SEND \<equiv> 0x25"

abbreviation IPC_CHANNEL_RECV :: nat where
  "IPC_CHANNEL_RECV \<equiv> 0x26"

abbreviation IPC_CHANNEL_CLOSE :: nat where
  "IPC_CHANNEL_CLOSE \<equiv> 0x27"

abbreviation ONNX_LOAD :: nat where
  "ONNX_LOAD \<equiv> 0x30"

abbreviation ONNX_UNLOAD :: nat where
  "ONNX_UNLOAD \<equiv> 0x31"

abbreviation ONNX_CREATE_SESSION :: nat where
  "ONNX_CREATE_SESSION \<equiv> 0x32"

abbreviation ONNX_RUN :: nat where
  "ONNX_RUN \<equiv> 0x33"

abbreviation ONNX_GET_METADATA :: nat where
  "ONNX_GET_METADATA \<equiv> 0x34"

abbreviation ONNX_LIST_PROVIDERS :: nat where
  "ONNX_LIST_PROVIDERS \<equiv> 0x35"

abbreviation ONNX_MODEL_ADD :: nat where
  "ONNX_MODEL_ADD \<equiv> 0x36"

abbreviation ONNX_MODEL_REMOVE :: nat where
  "ONNX_MODEL_REMOVE \<equiv> 0x37"

abbreviation DEV_ENUMERATE :: nat where
  "DEV_ENUMERATE \<equiv> 0x40"

abbreviation DEV_OPEN :: nat where
  "DEV_OPEN \<equiv> 0x41"

abbreviation DEV_CLOSE :: nat where
  "DEV_CLOSE \<equiv> 0x42"

abbreviation DEV_IOCTL :: nat where
  "DEV_IOCTL \<equiv> 0x43"

abbreviation DEV_DMA_ALLOC :: nat where
  "DEV_DMA_ALLOC \<equiv> 0x44"

abbreviation SYS_INFO :: nat where
  "SYS_INFO \<equiv> 0x50"

abbreviation SYS_TIME :: nat where
  "SYS_TIME \<equiv> 0x51"

abbreviation SYS_SHUTDOWN :: nat where
  "SYS_SHUTDOWN \<equiv> 0x52"

abbreviation SYS_LOG :: nat where
  "SYS_LOG \<equiv> 0x53"

abbreviation SYS_RANDOM :: nat where
  "SYS_RANDOM \<equiv> 0x54"

abbreviation SYS_WATCHDOG_PET :: nat where
  "SYS_WATCHDOG_PET \<equiv> 0x55"

abbreviation SYS_WATCHDOG_REMAINING :: nat where
  "SYS_WATCHDOG_REMAINING \<equiv> 0x56"

abbreviation SYS_BOOT_SUCCESS :: nat where
  "SYS_BOOT_SUCCESS \<equiv> 0x57"

abbreviation CAP_CREATE :: nat where
  "CAP_CREATE \<equiv> 0x60"

abbreviation CAP_REVOKE :: nat where
  "CAP_REVOKE \<equiv> 0x61"

abbreviation CAP_DELEGATE :: nat where
  "CAP_DELEGATE \<equiv> 0x62"

abbreviation CAP_CHECK :: nat where
  "CAP_CHECK \<equiv> 0x63"

abbreviation CAP_LIST :: nat where
  "CAP_LIST \<equiv> 0x64"

abbreviation POSIX_OPEN :: nat where
  "POSIX_OPEN \<equiv> 0x70"

abbreviation POSIX_CLOSE :: nat where
  "POSIX_CLOSE \<equiv> 0x71"

abbreviation POSIX_READ :: nat where
  "POSIX_READ \<equiv> 0x72"

abbreviation POSIX_WRITE :: nat where
  "POSIX_WRITE \<equiv> 0x73"

abbreviation POSIX_FSTAT :: nat where
  "POSIX_FSTAT \<equiv> 0x74"

abbreviation POSIX_DUP :: nat where
  "POSIX_DUP \<equiv> 0x75"

abbreviation POSIX_DUP2 :: nat where
  "POSIX_DUP2 \<equiv> 0x76"

abbreviation POSIX_LSEEK :: nat where
  "POSIX_LSEEK \<equiv> 0x77"

abbreviation POSIX_MMAP :: nat where
  "POSIX_MMAP \<equiv> 0x78"

abbreviation POSIX_MUNMAP :: nat where
  "POSIX_MUNMAP \<equiv> 0x79"

abbreviation POSIX_MPROTECT :: nat where
  "POSIX_MPROTECT \<equiv> 0x7A"

abbreviation POSIX_EPOLL_CREATE :: nat where
  "POSIX_EPOLL_CREATE \<equiv> 0x7B"

abbreviation POSIX_EPOLL_CTL :: nat where
  "POSIX_EPOLL_CTL \<equiv> 0x7C"

abbreviation POSIX_EPOLL_WAIT :: nat where
  "POSIX_EPOLL_WAIT \<equiv> 0x7D"

abbreviation POSIX_CLOCK_GETTIME :: nat where
  "POSIX_CLOCK_GETTIME \<equiv> 0x7E"

abbreviation POSIX_NANOSLEEP :: nat where
  "POSIX_NANOSLEEP \<equiv> 0x7F"

abbreviation POSIX_GETRANDOM :: nat where
  "POSIX_GETRANDOM \<equiv> 0x80"

abbreviation POSIX_SOCKET :: nat where
  "POSIX_SOCKET \<equiv> 0x81"

abbreviation AUTH_LOGIN :: nat where
  "AUTH_LOGIN \<equiv> 0x90"

abbreviation AUTH_LOGOUT :: nat where
  "AUTH_LOGOUT \<equiv> 0x91"

abbreviation AUTH_CHANGE_PASSWORD :: nat where
  "AUTH_CHANGE_PASSWORD \<equiv> 0x92"

abbreviation AUTH_CREATE_USER :: nat where
  "AUTH_CREATE_USER \<equiv> 0x93"

abbreviation AUTH_WHOAMI :: nat where
  "AUTH_WHOAMI \<equiv> 0x94"

abbreviation AUTH_TOTP_SETUP :: nat where
  "AUTH_TOTP_SETUP \<equiv> 0x95"

section \<open>The table\<close>

definition sys_nosys :: handler where
  "sys_nosys e k a = Some (as_i64 NoSys, k)"

definition build_syscall_table :: "(nat \<times> handler) list" where
  "build_syscall_table = [
     (MEM_ALLOC, sys_mem_alloc),
     (MEM_FREE, sys_mem_free),
     (MEM_MAP, sys_mem_map),
     (MEM_PROTECT, sys_mem_protect),
     (TENSOR_ALLOC, sys_tensor_alloc),
     (TENSOR_FREE, sys_tensor_free),
     (TENSOR_MAP_GPU, sys_tensor_map_gpu),
     (TENSOR_UNMAP_GPU, sys_tensor_unmap_gpu),
     (TASK_SPAWN, sys_task_spawn),
     (TASK_YIELD, sys_task_yield),
     (TASK_EXIT, sys_task_exit),
     (TASK_JOIN, sys_task_join),
     (TASK_SET_PRIORITY, sys_task_set_priority),
     (TASK_SET_CLASS, sys_task_set_class),
     (TASK_CURRENT, sys_task_current),
     (IPC_PUBLISH, sys_ipc_publish),
     (IPC_SUBSCRIBE, sys_ipc_subscribe),
     (IPC_RECV, sys_ipc_recv),
     (IPC_QUERY, sys_ipc_query),
     (IPC_CHANNEL_CREATE, sys_ipc_channel_create),
     (IPC_CHANNEL_SEND, sys_ipc_channel_send),
     (IPC_CHANNEL_RECV, sys_ipc_channel_recv),
     (IPC_CHANNEL_CLOSE, sys_ipc_channel_close),
     (ONNX_LOAD, sys_onnx_load),
     (ONNX_UNLOAD, sys_onnx_unload),
     (ONNX_CREATE_SESSION, sys_onnx_create_session),
     (ONNX_RUN, sys_onnx_run),
     (ONNX_GET_METADATA, sys_onnx_get_metadata),
     (ONNX_LIST_PROVIDERS, sys_onnx_list_providers),
     (ONNX_MODEL_ADD, sys_onnx_model_add),
     (ONNX_MODEL_REMOVE, sys_onnx_model_remove),
     (DEV_ENUMERATE, sys_dev_enumerate),
     (DEV_OPEN, sys_dev_open),
     (DEV_CLOSE, sys_dev_close),
     (DEV_IOCTL, sys_dev_ioctl),
     (DEV_DMA_ALLOC, sys_dev_dma_alloc),
     (SYS_INFO, sys_info),
     (SYS_TIME, sys_time),
     (SYS_SHUTDOWN, sys_shutdown),
     (SYS_LOG, sys_log),
     (SYS_RANDOM, sys_random),
     (SYS_WATCHDOG_PET, sys_watchdog_pet),
     (SYS_WATCHDOG_REMAINING, sys_watchdog_remaining),
     (SYS_BOOT_SUCCESS, sys_boot_success),
     (CAP_CREATE, sys_cap_create),
     (CAP_REVOKE, sys_cap_revoke),
     (CAP_DELEGATE, sys_cap_delegate),
     (CAP_CHECK, sys_cap_check),
     (CAP_LIST, sys_cap_list),
     (POSIX_OPEN, sys_posix_open),
     (POSIX_CLOSE, sys_posix_close),
     (POSIX_READ, sys_posix_read),
     (POSIX_WRITE, sys_posix_write),
     (POSIX_FSTAT, sys_posix_fstat),
     (POSIX_DUP, sys_posix_dup),
     (POSIX_DUP2, sys_posix_dup2),
     (POSIX_LSEEK, sys_posix_lseek),
     (POSIX_MMAP, sys_posix_mmap),
     (POSIX_MUNMAP, sys_posix_munmap),
     (POSIX_MPROTECT, sys_posix_mprotect),
     (POSIX_EPOLL_CREATE, sys_posix_epoll_create),
     (POSIX_EPOLL_CTL, sys_posix_epoll_ctl),
     (POSIX_EPOLL_WAIT, sys_posix_epoll_wait),
     (POSIX_CLOCK_GETTIME, sys_posix_clock_gettime),
     (POSIX_NANOSLEEP, sys_posix_nanosleep),
     (POSIX_GETRANDOM, sys_posix_getrandom),
     (POSIX_SOCKET, sys_posix_socket),
     (AUTH_LOGIN, sys_auth_login),
     (AUTH_LOGOUT, sys_auth_logout),
     (AUTH_CHANGE_PASSWORD, sys_auth_change_password),
     (AUTH_CREATE_USER, sys_auth_create_user),
     (AUTH_WHOAMI, sys_auth_whoami),
     (AUTH_TOTP_SETUP, sys_auth_totp_setup)]"

definition SYSCALL_TABLE :: "nat \<Rightarrow> handler" where
  "SYSCALL_TABLE n = (case map_of build_syscall_table n of Some h \<Rightarrow> h | None \<Rightarrow> sys_nosys)"

section \<open>The gates\<close>

definition min_role_for :: "nat \<Rightarrow> min_role" where
  "min_role_for n =
     (if n \<in> set [AUTH_LOGIN, SYS_INFO, SYS_TIME, SYS_LOG, SYS_WATCHDOG_PET, SYS_WATCHDOG_REMAINING] then MinUnauthenticated
      else if n \<in> set [AUTH_CREATE_USER, SYS_SHUTDOWN, SYS_BOOT_SUCCESS] then MinRoot
      else if n \<in> set [ONNX_LOAD, ONNX_UNLOAD, ONNX_CREATE_SESSION, ONNX_RUN, ONNX_GET_METADATA, ONNX_LIST_PROVIDERS,
        ONNX_MODEL_ADD, ONNX_MODEL_REMOVE] then MinOperator
      else MinAuthenticated)"

definition must_change_password_admits :: "nat \<Rightarrow> bool" where
  "must_change_password_admits n \<longleftrightarrow> n \<in> set [AUTH_CHANGE_PASSWORD, AUTH_WHOAMI, AUTH_LOGOUT]"

text \<open>The dispatcher cannot reach the session table and reports no role for any session.\<close>

definition dispatch_role :: "kernel \<Rightarrow> role option" where
  "dispatch_role k = (if ks_session k = SESSION_NONE then None else None)"

definition current_session_must_change_password :: "kernel \<Rightarrow> bool" where
  "current_session_must_change_password k = False"

definition set_auth_gate_enabled :: "bool \<Rightarrow> kernel \<Rightarrow> bool \<times> kernel" where
  "set_auth_gate_enabled on k = (ks_auth_gate k, k\<lparr>ks_auth_gate := on\<rparr>)"

definition dispatch :: "env \<Rightarrow> kernel \<Rightarrow> nat \<Rightarrow> u64 list \<Rightarrow> (int \<times> kernel) option" where
  "dispatch e k n a =
     (if n \<ge> SYSCALL_TABLE_SIZE then fail_with k NoSys
      else if ks_auth_gate k \<and> current_session_must_change_password k \<and> \<not> must_change_password_admits n then
        Some (ERRNO_EAUTHEXPIRED, k)
      else if ks_auth_gate k \<and> \<not> admits (min_role_for n) (dispatch_role k) then Some (ERRNO_EACCES, k)
      else SYSCALL_TABLE n e k a)"

definition category_name :: "nat \<Rightarrow> string" where
  "category_name n = (let c = n div 16 in
     if c = 0 then ''memory'' else if c = 1 then ''task'' else if c = 2 then ''ipc'' else if c = 3 then ''onnx''
     else if c = 4 then ''device'' else if c = 5 then ''system'' else if c = 6 then ''capability''
     else if c = 7 \<or> c = 8 then ''posix'' else ''unknown'')"

text \<open>The entries of the table that are not the default one; handlers are compared by their slot.\<close>

definition registered_count :: nat where
  "registered_count = length (filter (\<lambda>n. map_of build_syscall_table n \<noteq> None) [0..<SYSCALL_TABLE_SIZE])"

section \<open>What a call keeps\<close>

text \<open>
  The part of the kernel state that no argument of a call can break: the capability registry, the
  device tables and the random generator.\<close>

definition kernel_inv :: "kernel \<Rightarrow> bool" where
  [inv_defs]: "kernel_inv k \<longleftrightarrow> reg_inv (ks_caps k) \<and> dev_inv k \<and> (\<exists>i. rng_rep (ks_csprng k) i)"

definition fits_i64 :: "int \<Rightarrow> bool" where
  "fits_i64 r \<longleftrightarrow> - (2 ^ 63) \<le> r \<and> r < 2 ^ 63"

text \<open>A handler that answers every call and changes nothing.\<close>

definition stub_handler :: "handler \<Rightarrow> bool" where
  "stub_handler h \<longleftrightarrow> (\<forall>e k a. \<exists>r. h e k a = Some (r, k) \<and> fits_i64 r)"

text \<open>A handler whose results fit and that keeps the invariant, the gate and the current task.\<close>

definition safe_handler :: "handler \<Rightarrow> bool" where
  "safe_handler h \<longleftrightarrow> (\<forall>e k a r k'. kernel_inv k \<longrightarrow> reg_next_id (ks_caps k) < - 1 \<longrightarrow> h e k a = Some (r, k') \<longrightarrow>
     fits_i64 r \<and> kernel_inv k' \<and> ks_auth_gate k' = ks_auth_gate k \<and> ks_current_task k' = ks_current_task k \<and>
     ks_devices k' = ks_devices k)"

lemma fits_to_i64 [simp]: "fits_i64 (to_i64 w)"
  using sint_greater_eq [of w] sint_less [of w] by (simp add: fits_i64_def to_i64_def)

lemma fits_error [simp]: "fits_i64 (as_i64 err)"
  by (cases err) (simp_all add: fits_i64_def)

lemma fits_mem_error [simp]: "fits_i64 (mem_error_to_syscall err)"
  by (cases err) (simp_all add: fits_i64_def)

lemma fits_cap_error [simp]: "fits_i64 (cap_error_to_syscall err)"
  by (cases err) (simp_all add: fits_i64_def)

lemma fits_numeral: "n < 2 ^ 63 \<Longrightarrow> fits_i64 (int n)" "n < 2 ^ 63 \<Longrightarrow> fits_i64 (- int n)"
proof -
  assume "n < 2 ^ 63"
  then have "int n < int (2 ^ 63)" by (simp only: of_nat_less_iff)
  then have "int n < 2 ^ 63" by simp
  then show "fits_i64 (int n)" "fits_i64 (- int n)" by (simp_all add: fits_i64_def)
qed

lemma fits_require [simp]: "require_capability k rt i p = Inl err \<Longrightarrow> fits_i64 err"
  by (auto simp: require_capability_def check_capability_def map_sum_def split: sum.splits)

lemma stub_safe: "stub_handler h \<Longrightarrow> safe_handler h"
  unfolding stub_handler_def safe_handler_def by (metis option.inject prod.inject)

lemma ipc_stubs:
  "list_all stub_handler [sys_ipc_publish, sys_ipc_subscribe, sys_ipc_recv, sys_ipc_query, sys_ipc_channel_create,
     sys_ipc_channel_send, sys_ipc_channel_recv, sys_ipc_channel_close]"
  by (simp add: stub_handler_def sys_ipc_publish_def sys_ipc_subscribe_def sys_ipc_recv_def sys_ipc_query_def
      sys_ipc_channel_create_def sys_ipc_channel_send_def sys_ipc_channel_recv_def sys_ipc_channel_close_def fits_i64_def)

lemma onnx_stubs:
  "list_all stub_handler [sys_onnx_load, sys_onnx_unload, sys_onnx_create_session, sys_onnx_run, sys_onnx_get_metadata,
     sys_onnx_list_providers, sys_onnx_model_add, sys_onnx_model_remove]"
  by (simp add: stub_handler_def sys_onnx_load_def sys_onnx_unload_def sys_onnx_create_session_def sys_onnx_run_def
      sys_onnx_get_metadata_def sys_onnx_list_providers_def sys_onnx_model_add_def sys_onnx_model_remove_def fits_i64_def)

lemma posix_stubs:
  "list_all stub_handler [sys_posix_open, sys_posix_close, sys_posix_read, sys_posix_write, sys_posix_fstat, sys_posix_dup,
     sys_posix_dup2, sys_posix_lseek, sys_posix_mmap, sys_posix_munmap, sys_posix_mprotect, sys_posix_epoll_create,
     sys_posix_epoll_ctl, sys_posix_epoll_wait, sys_posix_clock_gettime, sys_posix_nanosleep, sys_posix_getrandom, sys_posix_socket]"
  by (simp add: stub_handler_def sys_posix_open_def sys_posix_close_def sys_posix_read_def sys_posix_write_def
      sys_posix_fstat_def sys_posix_dup_def sys_posix_dup2_def sys_posix_lseek_def sys_posix_mmap_def sys_posix_munmap_def
      sys_posix_mprotect_def sys_posix_epoll_create_def sys_posix_epoll_ctl_def sys_posix_epoll_wait_def
      sys_posix_clock_gettime_def sys_posix_nanosleep_def sys_posix_getrandom_def sys_posix_socket_def fits_i64_def
      POSIX_ENOSYS_def POSIX_EINVAL_def POSIX_EBADF_def)

lemma auth_stubs:
  "list_all stub_handler [sys_auth_login, sys_auth_change_password, sys_auth_create_user, sys_auth_whoami, sys_auth_totp_setup]"
  by (simp add: stub_handler_def sys_auth_login_def sys_auth_change_password_def sys_auth_create_user_def sys_auth_whoami_def
      sys_auth_totp_setup_def fits_i64_def ERRNO_ENOSYS_def ERRNO_EINVAL_def)

lemma task_stubs:
  "list_all stub_handler [sys_task_yield, sys_task_exit, sys_task_join, sys_task_set_priority, sys_task_set_class, sys_task_current]"
  by (simp add: stub_handler_def sys_task_yield_def sys_task_exit_def sys_task_join_def sys_task_set_priority_def
      sys_task_set_class_def sys_task_current_def) (simp add: fits_i64_def)

lemma system_stubs:
  "list_all stub_handler [sys_time, sys_shutdown, sys_log, sys_watchdog_pet, sys_watchdog_remaining, sys_boot_success, sys_nosys]"
proof -
  have "stub_handler sys_shutdown"
    unfolding stub_handler_def sys_shutdown_def by (auto split: sum.splits) (simp add: fits_i64_def)
  moreover have "stub_handler sys_boot_success"
    by (auto simp: stub_handler_def sys_boot_success_def fits_i64_def split: sum.splits boot_success_error.splits)
  moreover have "stub_handler sys_time" by (simp add: stub_handler_def sys_time_def)
  ultimately show ?thesis
    by (simp add: stub_handler_def sys_log_def sys_watchdog_pet_def sys_watchdog_remaining_def sys_nosys_def fits_i64_def)
qed

lemma memory_stubs: "list_all stub_handler [sys_mem_map, sys_mem_protect, sys_tensor_map_gpu, sys_tensor_unmap_gpu]"
proof -
  have "fits_i64 err" if "validate_tensor_gpu_request k h d = Inl err" for k h d err
    using that by (auto simp: validate_tensor_gpu_request_def fits_i64_def split: if_splits sum.splits dest: fits_require [unfolded fits_i64_def])
  then have "stub_handler sys_tensor_map_gpu" "stub_handler sys_tensor_unmap_gpu"
    unfolding stub_handler_def sys_tensor_map_gpu_def sys_tensor_unmap_gpu_def by (auto split: sum.splits) (simp_all add: fits_i64_def)
  moreover have "stub_handler sys_mem_map" "stub_handler sys_mem_protect"
    unfolding stub_handler_def sys_mem_map_def sys_mem_protect_def by (auto split: sum.splits) (simp_all add: fits_i64_def)
  ultimately show ?thesis by simp
qed

lemma device_stubs: "list_all stub_handler [sys_dev_ioctl, sys_dev_dma_alloc]"
proof -
  have "fits_i64 (ioctl_result d c)" for d c
  proof -
    have u: "fits_i64 (int (unat w))" if "unat w < 65536" for w :: "'a::len word"
      using that by (intro fits_numeral) simp
    have "unat (dev_vendor d) < 65536" "unat (dev_product d) < 65536"
      using unsigned_less [of "dev_vendor d"] unsigned_less [of "dev_product d"] by simp_all
    then show ?thesis using u [of "dev_vendor d"] u [of "dev_product d"]
      unfolding ioctl_result_def by (cases "dev_type d") (auto simp: fits_i64_def)
  qed
  then show ?thesis
    unfolding list.pred_inject stub_handler_def sys_dev_ioctl_def sys_dev_dma_alloc_def Let_def by (auto simp: fits_i64_def)
qed

lemma cap_check_stub: "stub_handler sys_cap_check"
  unfolding stub_handler_def sys_cap_check_def
  by (auto split: option.splits sum.splits simp: fits_i64_def [of "as_i64 _"]) (simp_all add: fits_i64_def)

section \<open>The calls that change the state\<close>

definition step_ok :: "kernel \<Rightarrow> (int \<times> kernel) option \<Rightarrow> bool" where
  "step_ok k out \<longleftrightarrow> (\<forall>r k'. out = Some (r, k') \<longrightarrow> fits_i64 r \<and> kernel_inv k' \<and> ks_auth_gate k' = ks_auth_gate k \<and>
     ks_current_task k' = ks_current_task k \<and> ks_devices k' = ks_devices k)"

lemma safeI: "(\<And>e k a. kernel_inv k \<Longrightarrow> reg_next_id (ks_caps k) < - 1 \<Longrightarrow> step_ok k (h e k a)) \<Longrightarrow> safe_handler h"
  by (simp add: safe_handler_def step_ok_def)

lemma step_ok_simps [simp]:
  "step_ok k None" "step_ok k (Some (r, k')) \<longleftrightarrow> fits_i64 r \<and> kernel_inv k' \<and> ks_auth_gate k' = ks_auth_gate k \<and>
     ks_current_task k' = ks_current_task k \<and> ks_devices k' = ks_devices k"
  by (auto simp: step_ok_def)

lemma step_ok_bind: "(\<And>x. m = Some x \<Longrightarrow> step_ok k (f x)) \<Longrightarrow> step_ok k (m \<bind> f)"
  by (cases m) simp_all

lemmas step_ok_intros = step_ok_bind if_split [THEN iffD2] conjI impI

text \<open>A change of the other parts of the state.\<close>

lemma kernel_inv_frame [simp]:
  "kernel_inv (k\<lparr>ks_buddy := b\<rparr>) = kernel_inv k" "kernel_inv (k\<lparr>ks_slab := s\<rparr>) = kernel_inv k"
  "kernel_inv (k\<lparr>ks_pool := p\<rparr>) = kernel_inv k" "kernel_inv (k\<lparr>ks_mem := m\<rparr>) = kernel_inv k"
  "kernel_inv (k\<lparr>ks_next_task := t\<rparr>) = kernel_inv k" "kernel_inv (k\<lparr>ks_session := i\<rparr>) = kernel_inv k"
  "kernel_inv (k\<lparr>ks_auth_gate := g\<rparr>) = kernel_inv k" "kernel_inv (k\<lparr>ks_current_task := c\<rparr>) = kernel_inv k"
  "kernel_inv (k\<lparr>ks_initialized := j\<rparr>) = kernel_inv k"
  by (simp_all add: kernel_inv_def dev_inv_def)

lemma kernel_inv_caps: "kernel_inv k \<Longrightarrow> reg_inv r \<Longrightarrow> kernel_inv (k\<lparr>ks_caps := r\<rparr>)"
  by (simp add: kernel_inv_def dev_inv_def)

lemma map_sum_iffs:
  "map_sum f g x = Inr y \<longleftrightarrow> (\<exists>z. x = Inr z \<and> y = g z)" "map_sum f g x = Inl w \<longleftrightarrow> (\<exists>z. x = Inl z \<and> w = f z)"
  by (cases x; auto)+

lemma memory_safe: "list_all safe_handler [sys_mem_alloc, sys_mem_free, sys_tensor_alloc, sys_tensor_free]"
proof -
  have "safe_handler sys_mem_alloc"
    by (rule safeI) (auto simp: sys_mem_alloc_def Let_def simp del: as_i64.simps mem_error_to_syscall.simps intro!: step_ok_bind split: sum.splits prod.splits)
  moreover have "safe_handler sys_mem_free"
    by (rule safeI) (auto simp: sys_mem_free_def Let_def unit_mem_result_def map_sum_iffs simp del: as_i64.simps mem_error_to_syscall.simps intro!: step_ok_bind split: sum.splits)
  moreover have "safe_handler sys_tensor_alloc"
    by (rule safeI) (auto simp: sys_tensor_alloc_def Let_def simp del: as_i64.simps mem_error_to_syscall.simps intro!: step_ok_bind
        split: sum.splits option.splits prod.splits)
  moreover have "safe_handler sys_tensor_free"
    by (rule safeI) (auto simp: sys_tensor_free_def Let_def unit_mem_result_def map_sum_iffs simp del: as_i64.simps mem_error_to_syscall.simps intro!: step_ok_bind split: sum.splits)
  ultimately show ?thesis by simp
qed

lemma capability_safe: "list_all safe_handler [sys_cap_create, sys_cap_revoke, sys_cap_delegate, sys_cap_list]"
proof -
  have reg: "kernel_inv k \<Longrightarrow> reg_inv (ks_caps k)" for k by (simp add: kernel_inv_def)
  have "safe_handler sys_cap_create"
    by (rule safeI) (auto simp: sys_cap_create_def cap_id_result_def simp del: as_i64.simps cap_error_to_syscall.simps
        split: sum.splits option.splits intro!: kernel_inv_caps dest: reg create_inv)
  moreover have "safe_handler sys_cap_delegate"
    by (rule safeI) (auto simp: sys_cap_delegate_def cap_id_result_def simp del: as_i64.simps cap_error_to_syscall.simps
        split: sum.splits option.splits intro!: kernel_inv_caps dest: reg delegate_inv)
  moreover have rev: "reg_inv r'" if "reg_inv r" "revoke r i = Some (Inr r')" for r i r'
    using that by (cases rule: revoke_cases [OF that(1), of i]) (auto intro: pruned_inv)
  have "safe_handler sys_cap_revoke"
    by (intro safeI) (auto simp: sys_cap_revoke_def simp del: as_i64.simps cap_error_to_syscall.simps
        split: sum.splits intro!: step_ok_bind kernel_inv_caps dest: rev [OF reg])
  moreover have "safe_handler sys_cap_list"
  proof (rule safeI)
    fix e k a assume inv: "kernel_inv k"
    have b: "n \<le> MAX_CAPS_PER_TASK \<Longrightarrow> fits_i64 (int n)" for n
      by (rule fits_numeral(1)) (simp add: MAX_CAPS_PER_TASK_def)
    have cnt: "count_for_task (ks_caps k) t \<le> MAX_CAPS_PER_TASK" for t using reg [OF inv] by (simp add: reg_inv_def)
    have c: "fits_i64 (int (count_for_task (ks_caps k) t))" for t by (rule b [OF cnt])
    have len: "length (list_for_task r t n) \<le> n" for r t n by (simp add: list_for_task_def)
    have "fits_i64 (int (length (list_for_task r t (if n < count_for_task (ks_caps k) u then n else count_for_task (ks_caps k) u))))" for r t n u
      by (rule b, rule order_trans [OF len]) (use cnt [of u] in simp)
    then show "step_ok k (sys_cap_list e k a)" using inv c
      by (auto simp: sys_cap_list_def Let_def simp del: as_i64.simps)
  qed
  ultimately show ?thesis by simp
qed

lemma device_safe: "list_all safe_handler [sys_dev_enumerate, sys_dev_open, sys_dev_close]"
proof -
  have d: "kernel_inv k' \<longleftrightarrow> dev_inv k'" if "kernel_inv k" "ks_caps k' = ks_caps k" "ks_csprng k' = ks_csprng k" for k k'
    using that by (simp add: kernel_inv_def)
  have inv: "kernel_inv k \<Longrightarrow> dev_inv k" for k by (simp add: kernel_inv_def)
  have "safe_handler sys_dev_open"
  proof (rule safeI)
    fix e k a assume k: "kernel_inv k"
    have "i + 1 < 2 ^ 63" if "position (\<lambda>h. \<not> he_active h) (ks_handles k) = Some i" for i
      using position_SomeD [OF that] inv [OF k] by (simp add: dev_inv_def MAX_HANDLES_def)
    note fits = fits_numeral(1) [OF this]
    have "kernel_inv k'" if "sys_dev_open e k a = Some (r, k')" for r k'
      using dev_open_inv [OF inv [OF k] that] that k d [OF k, of k'] by (auto simp: sys_dev_open_def Let_def split: if_splits option.splits)
    moreover have "fits_i64 r \<and> ks_auth_gate k' = ks_auth_gate k \<and> ks_current_task k' = ks_current_task k \<and> ks_devices k' = ks_devices k"
      if "sys_dev_open e k a = Some (r, k')" for r k'
      using that fits by (auto simp: sys_dev_open_def Let_def simp del: as_i64.simps of_nat_add split: if_splits option.splits)
    ultimately show "step_ok k (sys_dev_open e k a)" by (simp add: step_ok_def)
  qed
  moreover have "safe_handler sys_dev_close"
  proof (rule safeI)
    fix e k a assume k: "kernel_inv k"
    have "kernel_inv k'" if "sys_dev_close e k a = Some (r, k')" for r k'
      using dev_close_inv [OF inv [OF k] that] that k d [OF k, of k'] by (auto simp: sys_dev_close_def Let_def split: if_splits)
    moreover have "fits_i64 r \<and> ks_auth_gate k' = ks_auth_gate k \<and> ks_current_task k' = ks_current_task k \<and> ks_devices k' = ks_devices k"
      if "sys_dev_close e k a = Some (r, k')" for r k'
      using that by (auto simp: sys_dev_close_def Let_def simp del: as_i64.simps split: if_splits)
    ultimately show "step_ok k (sys_dev_close e k a)" by (simp add: step_ok_def)
  qed
  moreover have "safe_handler sys_dev_enumerate"
  proof (rule safeI)
    fix e k a assume k: "kernel_inv k"
    have len: "length (ks_devices k) = 32" using inv [OF k] by (simp add: dev_inv_def MAX_DEVICES_def)
    have "length (enum_loop n ds) \<le> 8 * length ds" for n ds
      by (induction n ds rule: enum_loop.induct) (auto simp: device_bytes_def)
    from this [of _ "ks_devices k"] have "length (enum_loop n (ks_devices k)) < 2 ^ 63" for n
      unfolding len by (rule le_less_trans) simp
    moreover have "device_count k \<le> 32" unfolding device_count_def len [symmetric] by (rule length_filter_le)
    then have "device_count k < 2 ^ 63" by (rule le_less_trans) simp
    ultimately show "step_ok k (sys_dev_enumerate e k a)" using k
      by (auto simp: sys_dev_enumerate_def Let_def fits_numeral simp del: as_i64.simps)
  qed
  ultimately show ?thesis by simp
qed

lemma system_safe: "list_all safe_handler [sys_task_spawn, sys_info, sys_random, sys_auth_logout]"
proof -
  have "safe_handler sys_task_spawn"
    by (rule safeI) (auto simp: sys_task_spawn_def simp del: as_i64.simps split: prod.splits)
  moreover have "safe_handler sys_info"
    by (rule safeI) (auto simp: sys_info_def Let_def SYSTEM_INFO_SIZE_def fits_i64_def [of 32] simp del: as_i64.simps)
  moreover have "safe_handler sys_auth_logout"
    by (rule safeI) (auto simp: sys_auth_logout_def clear_current_session_def ERRNO_EACCES_def fits_i64_def)
  moreover have "safe_handler sys_random"
  proof (rule safeI)
    fix e k a assume k: "kernel_inv k"
    have "kernel_inv (k\<lparr>ks_csprng := g, ks_mem := m\<rparr>)" if "csprng_generate c (ks_csprng k) n = Some (Inr (bytes, g))" "n \<le> MAX_RANDOM_LEN" for c n bytes g m
    proof -
      from k obtain i where i: "rng_rep (ks_csprng k) i" by (auto simp: kernel_inv_def)
      have "n < 2 ^ 63" using that(2) by (simp add: MAX_RANDOM_LEN_def)
      then have "rng_rep g (snd (ideal_step (OpGenerate n) i))" using rng_step_rep [OF i, of "OpGenerate n" c] that(1) by auto
      then show ?thesis using k by (auto simp: kernel_inv_def dev_inv_def)
    qed
    then show "step_ok k (sys_random e k a)" using k
      by (auto simp: sys_random_def Let_def simp del: as_i64.simps intro!: step_ok_bind split: sum.splits)
  qed
  ultimately show ?thesis by simp
qed

lemmas stubs = ipc_stubs onnx_stubs posix_stubs auth_stubs task_stubs system_stubs memory_stubs device_stubs cap_check_stub
lemmas safe_calls = memory_safe capability_safe device_safe system_safe

lemma table_safe: "safe_handler (SYSCALL_TABLE n)"
proof -
  have "list_all (\<lambda>(n, h). safe_handler h) build_syscall_table"
    using stubs safe_calls unfolding build_syscall_table_def list.pred_inject by (simp add: stub_safe)
  then have "safe_handler h" if "map_of build_syscall_table n = Some h" for h
    using map_of_SomeD [OF that] by (auto simp: list_all_iff)
  moreover have "safe_handler sys_nosys" using system_stubs stub_safe by simp
  ultimately show ?thesis by (simp add: SYSCALL_TABLE_def split: option.splits)
qed

section \<open>Histories of the kernel\<close>

definition set_current_session :: "u32 \<Rightarrow> kernel \<Rightarrow> u32 \<times> kernel" where
  "set_current_session i k = (ks_session k, k\<lparr>ks_session := i\<rparr>)"

definition seed_csprng :: "seed_bytes \<Rightarrow> kernel \<Rightarrow> kernel option" where
  "seed_csprng sd k = map_option (\<lambda>g. k\<lparr>ks_csprng := g\<rparr>) (csprng_seed (ks_csprng k) sd)"

text \<open>
  What the kernel goes through: system calls with any arguments, interleaved with device hot-plug,
  task switches, seeding, logins and the switch of the gate. A call is followed as long as fewer
  than \<open>2 ^ 64 - 1\<close> capabilities have been given out.\<close>

inductive kernel_run :: "kernel \<Rightarrow> bool" where
  kr_boot: "kernel_run (kernel_new n st mem)"
| kr_call: "kernel_run k \<Longrightarrow> reg_next_id (ks_caps k) < - 1 \<Longrightarrow> dispatch e k n a = Some (r, k') \<Longrightarrow> kernel_run k'"
| kr_init: "kernel_run k \<Longrightarrow> kernel_run (mark_initialized k)"
| kr_seed: "kernel_run k \<Longrightarrow> seed_csprng sd k = Some k' \<Longrightarrow> kernel_run k'"
| kr_switch: "kernel_run k \<Longrightarrow> kernel_run (set_current_task t k)"
| kr_session: "kernel_run k \<Longrightarrow> kernel_run (snd (set_current_session i k))"
| kr_gate: "kernel_run k \<Longrightarrow> kernel_run (snd (set_auth_gate_enabled b k))"
| kr_register: "kernel_run k \<Longrightarrow> kernel_run (snd (register_device d k))"
| kr_unregister: "kernel_run k \<Longrightarrow> kernel_run (snd (unregister_device j k))"

lemma kernel_inv_new: "kernel_inv (kernel_new n st mem)"
proof -
  have "rng_rep csprng_new Unseeded" by (simp add: csprng_new_def)
  moreover have "ks_caps (kernel_new n st mem) = reg_new" "ks_csprng (kernel_new n st mem) = csprng_new" by (simp_all add: kernel_new_def)
  ultimately show ?thesis using dev_inv_new [of n st mem] reg_inv_new unfolding kernel_inv_def by metis
qed

lemma dispatch_ok:
  assumes "kernel_inv k" "reg_next_id (ks_caps k) < - 1"
  shows "step_ok k (dispatch e k n a)"
proof -
  have "step_ok k (SYSCALL_TABLE n e k a)" using table_safe [of n] assms by (simp add: safe_handler_def step_ok_def)
  then show ?thesis using assms(1) by (simp add: dispatch_def ERRNO_EAUTHEXPIRED_def ERRNO_EACCES_def) (simp add: fits_i64_def)
qed

lemma kernel_inv_devices:
  "kernel_inv k \<Longrightarrow> kernel_inv (snd (register_device d k))" "kernel_inv k \<Longrightarrow> kernel_inv (snd (unregister_device j k))"
  using register_device_inv [of k d] unregister_device_inv [of k j]
  by (auto simp: kernel_inv_def) (auto simp: register_device_def unregister_device_def split: option.splits)

lemma seed_csprng_inv: "kernel_inv k \<Longrightarrow> seed_csprng sd k = Some k' \<Longrightarrow> kernel_inv k'"
  using csprng_seed_rep [of "ks_csprng k" sd] by (auto simp: seed_csprng_def kernel_inv_def dev_inv_def simp del: rng_rep.simps)

lemma kernel_run_inv: "kernel_run k \<Longrightarrow> kernel_inv k"
proof (induction rule: kernel_run.induct)
  case (kr_call k e n a r k')
  then show ?case using dispatch_ok [of k e n a] by simp
qed (simp_all add: kernel_inv_new kernel_inv_devices seed_csprng_inv mark_initialized_def set_current_task_def
    set_current_session_def set_auth_gate_enabled_def)

text \<open>
  C3. System calls are well behaved. In every state the kernel reaches through any interleaving of
  system calls with arbitrary arguments, device hot-plug, task switches, seeding, logins and changes
  of the gate, the capability registry, the device tables and the random generator keep their
  invariants; and the result of every call is a 64-bit signed integer, no call changes the current
  task, the gate or the registered devices, and the state after it is again such a state.\<close>

theorem syscalls_well_behaved:
  assumes "kernel_run k"
  shows "reg_inv (ks_caps k) \<and> dev_inv k \<and> (\<exists>i. rng_rep (ks_csprng k) i) \<and>
    (reg_next_id (ks_caps k) < - 1 \<longrightarrow> (\<forall>e n a r k'. dispatch e k n a = Some (r, k') \<longrightarrow>
       - (2 ^ 63) \<le> r \<and> r < 2 ^ 63 \<and> ks_current_task k' = ks_current_task k \<and> ks_auth_gate k' = ks_auth_gate k \<and>
       ks_devices k' = ks_devices k \<and> kernel_run k'))"
proof -
  have inv: "kernel_inv k" using assms by (rule kernel_run_inv)
  have "fits_i64 r \<and> kernel_inv k' \<and> ks_auth_gate k' = ks_auth_gate k \<and> ks_current_task k' = ks_current_task k \<and> ks_devices k' = ks_devices k"
    if "reg_next_id (ks_caps k) < - 1" "dispatch e k n a = Some (r, k')" for e n a r k'
    using dispatch_ok [OF inv that(1), of e n a] that(2) by simp
  then show ?thesis using inv kr_call [OF assms] unfolding kernel_inv_def fits_i64_def by blast
qed

section \<open>The role gate\<close>

text \<open>
  C16. With the gate on, only the six calls of the bootstrap surface work. Whatever session is
  installed, every other number below the table size is refused with \<open>-EACCES\<close> and the state is
  unchanged, because the dispatcher finds no role for any session; the six calls reach their handlers,
  and login itself only answers that it is not implemented, so no session can be opened.\<close>

theorem auth_gate_admits_bootstrap_only:
  assumes "ks_auth_gate k" "n < SYSCALL_TABLE_SIZE"
  shows "dispatch e k n a =
    (if n = AUTH_LOGIN then Some (ERRNO_ENOSYS, k)
     else if n = SYS_INFO then sys_info e k a else if n = SYS_TIME then sys_time e k a
     else if n = SYS_LOG then sys_log e k a else if n = SYS_WATCHDOG_PET then Some (0, k)
     else if n = SYS_WATCHDOG_REMAINING then Some (30000, k)
     else Some (ERRNO_EACCES, k))"
proof -
  let ?six = "[AUTH_LOGIN, SYS_INFO, SYS_TIME, SYS_LOG, SYS_WATCHDOG_PET, SYS_WATCHDOG_REMAINING]"
  have "admits (min_role_for n) None \<longleftrightarrow> n \<in> set ?six" by (simp add: min_role_for_def)
  then have d: "dispatch e k n a = (if n \<in> set ?six then SYSCALL_TABLE n e k a else Some (ERRNO_EACCES, k))"
    using assms by (simp add: dispatch_def current_session_must_change_password_def dispatch_role_def)
  have "SYSCALL_TABLE AUTH_LOGIN = sys_auth_login" "SYSCALL_TABLE SYS_INFO = sys_info" "SYSCALL_TABLE SYS_TIME = sys_time"
    "SYSCALL_TABLE SYS_LOG = sys_log" "SYSCALL_TABLE SYS_WATCHDOG_PET = sys_watchdog_pet"
    "SYSCALL_TABLE SYS_WATCHDOG_REMAINING = sys_watchdog_remaining"
    by (simp_all add: SYSCALL_TABLE_def build_syscall_table_def)
  then show ?thesis unfolding d by (auto simp: sys_auth_login_def sys_watchdog_pet_def sys_watchdog_remaining_def)
qed

section \<open>Mediation\<close>

definition guarded_calls :: "nat list" where
  "guarded_calls = [MEM_MAP, MEM_PROTECT, TENSOR_ALLOC, TENSOR_FREE, TENSOR_MAP_GPU, TENSOR_UNMAP_GPU, SYS_SHUTDOWN]"

lemma cap_error_neg: "cap_error_to_syscall err < 0"
  by (cases err) simp_all

lemma require_none:
  assumes "\<forall>c \<in> set (caps (ks_caps k)). cap_owner c = ks_current_task k \<longrightarrow> is_revoked (ks_caps k) (cap_id c)"
  shows "\<exists>err. require_capability k rt i p = Inl err \<and> err < 0"
proof -
  have "require_capability k rt i p \<noteq> Inr ()" using require_capability_iff [of k rt i p] assms by blast
  then obtain err where "require_capability k rt i p = Inl err" by (cases "require_capability k rt i p") auto
  moreover then have "err < 0"
    by (auto simp: require_capability_def check_capability_def map_sum_iffs cap_error_neg)
  ultimately show ?thesis by blast
qed


section \<open>Randomness\<close>


section \<open>Numbers and categories\<close>

lemma table_numbers: "distinct (map fst build_syscall_table)" "\<forall>n \<in> set (map fst build_syscall_table). n < SYSCALL_TABLE_SIZE"
  by (simp_all add: build_syscall_table_def SYSCALL_TABLE_SIZE_def)

lemma registered_count_length: "registered_count = length build_syscall_table"
proof -
  let ?ns = "map fst build_syscall_table"
  have "registered_count = card (set (filter (\<lambda>n. n \<in> set ?ns) [0..<SYSCALL_TABLE_SIZE]))"
    unfolding registered_count_def map_of_eq_None_iff by (simp add: distinct_card [symmetric])
  also have "set (filter (\<lambda>n. n \<in> set ?ns) [0..<SYSCALL_TABLE_SIZE]) = set ?ns" using table_numbers(2) by auto
  finally show ?thesis using distinct_card [OF table_numbers(1)] by simp
qed

text \<open>
  The table has 73 calls and every other number is refused. The numbers of the table are distinct
  and inside it; each call falls into the category its number names except the authentication
  calls, whose category has no name; a number without an entry answers \<open>NoSys\<close> and changes
  nothing, with the gate off.\<close>

theorem dispatch_table_exact:
  "registered_count = 73 \<and> length build_syscall_table = 73 \<and>
   (\<forall>n h. (n, h) \<in> set build_syscall_table \<longrightarrow> SYSCALL_TABLE n = h) \<and>
   (\<forall>e k n a. n \<notin> fst ` set build_syscall_table \<longrightarrow> \<not> ks_auth_gate k \<longrightarrow> dispatch e k n a = Some (as_i64 NoSys, k)) \<and>
   {n \<in> fst ` set build_syscall_table. category_name n = ''unknown''} = {AUTH_LOGIN, AUTH_LOGOUT, AUTH_CHANGE_PASSWORD, AUTH_CREATE_USER, AUTH_WHOAMI, AUTH_TOTP_SETUP}"
proof (intro conjI allI impI)
  show "length build_syscall_table = 73" by (simp add: build_syscall_table_def)
  then show "registered_count = 73" using registered_count_length by simp
  show "SYSCALL_TABLE n = h" if "(n, h) \<in> set build_syscall_table" for n h
    using map_of_is_SomeI [OF table_numbers(1) that] by (simp add: SYSCALL_TABLE_def)
  show "dispatch e k n a = Some (as_i64 NoSys, k)" if "n \<notin> fst ` set build_syscall_table" "\<not> ks_auth_gate k" for e k n a
  proof -
    have "map_of build_syscall_table n = None" using that(1) by (simp add: map_of_eq_None_iff)
    then show ?thesis using that(2) by (simp add: dispatch_def SYSCALL_TABLE_def sys_nosys_def)
  qed
  show "{n \<in> fst ` set build_syscall_table. category_name n = ''unknown''} = {AUTH_LOGIN, AUTH_LOGOUT, AUTH_CHANGE_PASSWORD, AUTH_CREATE_USER, AUTH_WHOAMI, AUTH_TOTP_SETUP}"
    by (auto simp: build_syscall_table_def category_name_def Let_def)
qed

section \<open>Witnesses\<close>

definition boot_kernel :: kernel where
  "boot_kernel = kernel_new 16 \<lparr>word_at = \<lambda>_. 0, half_at = \<lambda>_. 0\<rparr> (\<lambda>_. 0)"

definition quiet_env :: env where
  "quiet_env = \<lparr>env_checks = True, env_now = 0, env_commit = Inl BsNotImplemented, env_arch = 1\<rparr>"

lemma boot_kernel_simps [simp]:
  "ks_caps boot_kernel = reg_new" "ks_csprng boot_kernel = csprng_new" "ks_auth_gate boot_kernel = False"
  "ks_current_task boot_kernel = 0"
  by (simp_all add: boot_kernel_def kernel_new_def)

theorem syscalls_well_behaved_witness:
  "dispatch quiet_env boot_kernel SYS_WATCHDOG_REMAINING [0, 0, 0, 0, 0, 0] = Some (30000, boot_kernel) \<and> reg_inv (ks_caps boot_kernel) \<and>
    (30000 :: int) < 2 ^ 63 \<and> kernel_run boot_kernel"
proof -
  have run: "kernel_run boot_kernel" unfolding boot_kernel_def by (rule kr_boot)
  have d: "dispatch quiet_env boot_kernel SYS_WATCHDOG_REMAINING [0, 0, 0, 0, 0, 0] = Some (30000, boot_kernel)"
    by (simp add: dispatch_def SYSCALL_TABLE_def build_syscall_table_def SYSCALL_TABLE_SIZE_def sys_watchdog_remaining_def)
  have "(1 :: u64) < - 1" by code_simp
  then have "reg_next_id (ks_caps boot_kernel) < - 1" by (simp add: reg_new_def)
  with syscalls_well_behaved [OF run] d run show ?thesis by blast
qed

theorem auth_gate_admits_bootstrap_only_witness:
  "\<forall>e a. dispatch e (boot_kernel\<lparr>ks_auth_gate := True, ks_session := 0\<rparr>) AUTH_WHOAMI a =
    Some (-13, boot_kernel\<lparr>ks_auth_gate := True, ks_session := 0\<rparr>)"
  using auth_gate_admits_bootstrap_only [of "boot_kernel\<lparr>ks_auth_gate := True, ks_session := 0\<rparr>" AUTH_WHOAMI]
  by (simp add: SYSCALL_TABLE_SIZE_def ERRNO_EACCES_def)



theorem dispatch_table_exact_witness:
  "\<forall>e a. dispatch e boot_kernel 0x08 a = Some (-1, boot_kernel) \<and> SYSCALL_TABLE MEM_ALLOC = sys_mem_alloc"
proof -
  have "0x08 \<notin> fst ` set build_syscall_table" "(MEM_ALLOC, sys_mem_alloc) \<in> set build_syscall_table"
    by (simp_all add: build_syscall_table_def)
  then show ?thesis using dispatch_table_exact boot_kernel_simps(3) by (auto simp del: boot_kernel_simps)
qed

end
