(* ===== verification/Key_Expr.thy ===== *)
theory Key_Expr
  imports Prelude
begin

text \<open>
  Key expressions (\<open>ipc/src/key_expr.rs\<close>) and the errors of the messaging crate. A \<open>str\<close> is the list
  of its bytes; a segment with a byte that is no ASCII letter, digit, underscore or hyphen is
  rejected, as the source rejects the character it belongs to.

  The specification of matching is a language: the concrete keys (lists of literal segments) a
  pattern denotes. \<open>segments_match\<close> is shown to decide whether two patterns denote a common key.
\<close>

section \<open>The model\<close>

datatype ipc_error = InvalidKeyExpression | TableFull | NotFound | BufferFull | InvalidState
  | MessageTooLarge | PacketTooShort | BufferTooSmall | InvalidHeader | InvalidProtocol

type_synonym key_expr = string

definition is_segment_char :: "char \<Rightarrow> bool" where
  "is_segment_char c \<longleftrightarrow> (let n = of_char c :: nat in
     48 \<le> n \<and> n \<le> 57 \<or> 65 \<le> n \<and> n \<le> 90 \<or> 97 \<le> n \<and> n \<le> 122) \<or> c = CHR ''_'' \<or> c = CHR ''-''"

definition is_valid_segment :: "string \<Rightarrow> bool" where
  "is_valid_segment seg =
     (if seg = [] then False
      else if seg = ''*'' \<or> seg = ''**'' then True
      else list_all is_segment_char seg)"

text \<open>\<open>str::split('/')\<close>, \<open>contains("//")\<close> and \<open>ends_with('/')\<close>.\<close>

fun split_slash :: "string \<Rightarrow> string list" where
  "split_slash [] = [[]]"
| "split_slash (c # cs) =
     (if c = CHR ''/'' then [] # split_slash cs
      else case split_slash cs of [] \<Rightarrow> [[c]] | s # ss \<Rightarrow> (c # s) # ss)"

fun contains_double_slash :: "string \<Rightarrow> bool" where
  "contains_double_slash (c # d # cs) \<longleftrightarrow>
     c = CHR ''/'' \<and> d = CHR ''/'' \<or> contains_double_slash (d # cs)"
| "contains_double_slash _ \<longleftrightarrow> False"

definition strip_slash :: "string \<Rightarrow> string" where
  "strip_slash s = (case s of c # cs \<Rightarrow> if c = CHR ''/'' then cs else s | [] \<Rightarrow> s)"

definition key_new :: "string \<Rightarrow> (ipc_error, key_expr) result" where
  "key_new e =
     (if e = [] then Inl InvalidKeyExpression
      else if e = ''/'' then Inr e
      else if contains_double_slash e then Inl InvalidKeyExpression
      else if last e = CHR ''/'' then Inl InvalidKeyExpression
      else if list_all is_valid_segment (split_slash (strip_slash e)) then Inr e
      else Inl InvalidKeyExpression)"

definition segments :: "key_expr \<Rightarrow> string list" where
  "segments e = (if e = ''/'' then [] else split_slash (strip_slash e))"

definition is_wild :: "key_expr \<Rightarrow> bool" where
  "is_wild e \<longleftrightarrow> list_ex (\<lambda>s. s = ''*'' \<or> s = ''**'') (segments e)"

function segments_match :: "string list \<Rightarrow> string list \<Rightarrow> bool" where
  "segments_match a b =
     (case a of
        [] \<Rightarrow> (case b of [] \<Rightarrow> True
             | sb # b' \<Rightarrow> if sb = ''**'' then segments_match a b' else False)
      | sa # a' \<Rightarrow> (case b of
          [] \<Rightarrow> if sa = ''**'' then segments_match a' b else False
        | sb # b' \<Rightarrow>
            if sa = ''**'' then segments_match a' b \<or> segments_match a b'
            else if sb = ''**'' then segments_match a b' \<or> segments_match a' b
            else if sa = ''*'' \<or> sb = ''*'' then segments_match a' b'
            else if sa = sb then segments_match a' b' else False))"
  by pat_completeness auto
termination
  by (relation "measure (\<lambda>(a, b). length a + length b)") auto

declare segments_match.simps [simp del]

definition segments_intersect :: "string list \<Rightarrow> string list \<Rightarrow> bool" where
  "segments_intersect a b = segments_match a b"

definition key_matches :: "key_expr \<Rightarrow> key_expr \<Rightarrow> bool" where
  "key_matches e f = segments_match (segments e) (segments f)"

definition key_intersects :: "key_expr \<Rightarrow> key_expr \<Rightarrow> bool" where
  "key_intersects e f = segments_intersect (segments e) (segments f)"

section \<open>The keys a pattern denotes\<close>

definition is_literal :: "string \<Rightarrow> bool" where
  "is_literal s \<longleftrightarrow> s \<noteq> [] \<and> list_all is_segment_char s"

fun denotes :: "string list \<Rightarrow> string list \<Rightarrow> bool" where
  "denotes [] k \<longleftrightarrow> k = []"
| "denotes (p # ps) k \<longleftrightarrow>
     (if p = ''**'' then \<exists>u v. k = u @ v \<and> denotes ps v
      else \<exists>s k'. k = s # k' \<and> (p = ''*'' \<or> p = s) \<and> denotes ps k')"

definition overlap :: "string list \<Rightarrow> string list \<Rightarrow> bool" where
  "overlap a b \<longleftrightarrow> (\<exists>k. list_all is_literal k \<and> denotes a k \<and> denotes b k)"

lemma star_not_literal [simp]: "\<not> is_literal ''*''" "\<not> is_literal ''**''"
  by (simp_all add: is_literal_def is_segment_char_def)

lemma valid_segment_cases:
  "is_valid_segment s \<longleftrightarrow> s = ''*'' \<or> s = ''**'' \<or> is_literal s"
  by (auto simp: is_valid_segment_def is_literal_def is_segment_char_def)

lemma literal_x: "is_literal ''x''"
  by (simp add: is_literal_def is_segment_char_def)

lemma denotes_dstar: "denotes (''**'' # ps) k \<longleftrightarrow> (\<exists>u v. k = u @ v \<and> denotes ps v)"
  by simp

lemma denotes_dstar_Cons:
  "denotes (''**'' # ps) (s # k) \<longleftrightarrow> denotes ps (s # k) \<or> denotes (''**'' # ps) k"
  by (auto simp: Cons_eq_append_conv)

lemma denotes_dstar_skip: "denotes ps k \<Longrightarrow> denotes (''**'' # ps) k"
  by auto

declare denotes.simps(2) [simp del]

lemma denotes_single: "p \<noteq> ''**'' \<Longrightarrow>
    denotes (p # ps) k \<longleftrightarrow> (\<exists>s k'. k = s # k' \<and> (p = ''*'' \<or> p = s) \<and> denotes ps k')"
  by (simp add: denotes.simps(2))

lemma overlap_commute: "overlap a b \<longleftrightarrow> overlap b a"
  by (auto simp: overlap_def)

lemma overlap_dstar_Nil: "overlap (''**'' # a) [] \<longleftrightarrow> overlap a []"
  by (auto simp: overlap_def denotes_dstar)

lemma overlap_dstar_skip: "overlap a b \<Longrightarrow> overlap (''**'' # a) b"
  by (auto simp: overlap_def intro: denotes_dstar_skip)

text \<open>A common key of two patterns that both start with \<open>**\<close> is split by the one that takes less.\<close>

lemma overlap_dstar_dstar:
  assumes "overlap (''**'' # a) (''**'' # b)"
  shows "overlap a (''**'' # b) \<or> overlap (''**'' # a) b"
proof -
  from assms obtain k where l: "list_all is_literal k" and d: "denotes (''**'' # a) k" "denotes (''**'' # b) k"
    by (auto simp: overlap_def)
  from d(1) obtain u v where u: "k = u @ v" "denotes a v" unfolding denotes_dstar by blast
  from d(2) obtain u' v' where u': "k = u' @ v'" "denotes b v'" unfolding denotes_dstar by blast
  note k = l u u'
  from k(2,4) consider w where "v = w @ v'" | w where "v' = w @ v"
    by (auto simp: append_eq_append_conv2)
  then show ?thesis
  proof cases
    case 1
    then have "denotes (''**'' # b) v" using k(5) by (auto simp: denotes_dstar)
    then show ?thesis using k(1-3) by (auto simp: overlap_def)
  next
    case 2
    then have "denotes (''**'' # a) v'" using k(3) by (auto simp: denotes_dstar)
    then show ?thesis using k(1,4,5) by (auto simp: overlap_def)
  qed
qed

lemma overlap_dstar_single:
  assumes "overlap (''**'' # a) (p # b)" "p \<noteq> ''**''"
  shows "overlap a (p # b) \<or> overlap (''**'' # a) b"
proof -
  from assms(1) obtain l where l: "list_all is_literal l" "denotes (''**'' # a) l" "denotes (p # b) l"
    by (auto simp: overlap_def)
  from l(3) assms(2) obtain s k where "l = s # k" "denotes b k" by (auto simp: denotes_single)
  with l have k: "list_all is_literal (s # k)" "denotes (''**'' # a) (s # k)"
    "denotes (p # b) (s # k)" "denotes b k" by simp_all
  from k(2) show ?thesis unfolding denotes_dstar_Cons using k by (auto simp: overlap_def)
qed

lemma overlap_dstar_take:
  assumes "overlap (''**'' # a) b" "is_valid_segment p"
  shows "overlap (''**'' # a) (p # b)"
proof -
  from assms(1) obtain k where k: "list_all is_literal k" "denotes (''**'' # a) k" "denotes b k"
    by (auto simp: overlap_def)
  consider "p = ''**''" | s where "is_literal s" "p \<noteq> ''**''" "p = ''*'' \<or> p = s"
    using assms(2) literal_x by (auto simp: valid_segment_cases)
  then show ?thesis
  proof cases
    case 1
    with k show ?thesis by (auto simp: overlap_def intro: denotes_dstar_skip)
  next
    case (2 s)
    then have "denotes (p # b) (s # k)" using k(3) by (auto simp: denotes_single)
    with k 2(1) show ?thesis unfolding overlap_def
      by (intro exI [of _ "s # k"]) (simp add: denotes_dstar_Cons)
  qed
qed

lemma overlap_dstar_iff:
  assumes "is_valid_segment p"
  shows "overlap (''**'' # a) (p # b) \<longleftrightarrow> overlap a (p # b) \<or> overlap (''**'' # a) b"
  using overlap_dstar_dstar [of a b] overlap_dstar_single [of a p b] overlap_dstar_take [OF _ assms]
    overlap_dstar_skip by blast

lemma overlap_dstar_iff_right:
  assumes "is_valid_segment p"
  shows "overlap (p # a) (''**'' # b) \<longleftrightarrow> overlap (p # a) b \<or> overlap a (''**'' # b)"
  using overlap_dstar_iff [OF assms, of b a] overlap_commute by blast

lemma overlap_single_iff:
  assumes "is_valid_segment p" "is_valid_segment q" "p \<noteq> ''**''" "q \<noteq> ''**''"
  shows "overlap (p # a) (q # b) \<longleftrightarrow> (p = ''*'' \<or> q = ''*'' \<or> p = q) \<and> overlap a b"
proof
  assume "overlap (p # a) (q # b)"
  then show "(p = ''*'' \<or> q = ''*'' \<or> p = q) \<and> overlap a b"
    using assms(3,4) by (auto simp: overlap_def denotes_single)
next
  assume h: "(p = ''*'' \<or> q = ''*'' \<or> p = q) \<and> overlap a b"
  then obtain k where k: "list_all is_literal k" "denotes a k" "denotes b k" by (auto simp: overlap_def)
  have "\<exists>s. is_literal s \<and> (p = ''*'' \<or> p = s) \<and> (q = ''*'' \<or> q = s)"
    using h assms literal_x by (auto simp: valid_segment_cases)
  then obtain s where "is_literal s" "p = ''*'' \<or> p = s" "q = ''*'' \<or> q = s" by blast
  with k assms(3,4) show "overlap (p # a) (q # b)"
    unfolding overlap_def by (intro exI [of _ "s # k"]) (simp add: denotes_single)
qed

lemma overlap_Nil_Nil: "overlap [] []"
  by (auto simp: overlap_def)

lemma overlap_single_Nil: "p \<noteq> ''**'' \<Longrightarrow> \<not> overlap (p # a) []"
  by (auto simp: overlap_def denotes_single)

lemma segments_match_overlap:
  "list_all is_valid_segment a \<Longrightarrow> list_all is_valid_segment b \<Longrightarrow> segments_match a b \<longleftrightarrow> overlap a b"
proof (induction a b rule: segments_match.induct)
  case (1 a b)
  consider "a = []" "b = []" | sb b' where "a = []" "b = sb # b'" | sa a' where "a = sa # a'" "b = []"
    | sa a' sb b' where "a = sa # a'" "b = sb # b'" by (metis list.exhaust)
  then show ?case
  proof cases
    case 1
    then show ?thesis by (simp add: segments_match.simps overlap_Nil_Nil)
  next
    case (2 sb b')
    then show ?thesis
      using 1 overlap_dstar_Nil [of b'] overlap_single_Nil [of sb b']
      by (subst segments_match.simps) (auto simp: overlap_commute [of "[]"])
  next
    case (3 sa a')
    then show ?thesis
      using 1 overlap_dstar_Nil [of a'] overlap_single_Nil [of sa a']
      by (subst segments_match.simps) auto
  next
    case (4 sa a' sb b')
    show ?thesis
    proof (cases "sa = ''**''")
      case True
      then show ?thesis
        using 1 4 overlap_dstar_iff [of sb a' b'] by (subst segments_match.simps) auto
    next
      case sa: False
      show ?thesis
      proof (cases "sb = ''**''")
        case True
        then show ?thesis
          using 1 4 sa overlap_dstar_iff_right [of sa a' b'] by (subst segments_match.simps) auto
      next
        case False
        then show ?thesis
          using 1 4 sa overlap_single_iff [of sa sb a' b'] by (subst segments_match.simps) auto
      qed
    qed
  qed
qed

section \<open>Validation\<close>

fun join_slash :: "string list \<Rightarrow> string" where
  "join_slash [] = []"
| "join_slash [s] = s"
| "join_slash (s # t # ss) = s @ CHR ''/'' # join_slash (t # ss)"

lemma split_slash_not_Nil [simp]: "split_slash s \<noteq> []"
  by (cases s) (auto split: list.splits)

lemma join_split_slash: "join_slash (split_slash s) = s"
proof (induction s)
  case Nil
  then show ?case by simp
next
  case (Cons c cs)
  obtain t ts where t: "split_slash cs = t # ts" by (meson list.exhaust split_slash_not_Nil)
  then show ?case using Cons by (cases ts) auto
qed

lemma split_slash_append:
  "CHR ''/'' \<notin> set s \<Longrightarrow> split_slash (s @ CHR ''/'' # t) = s # split_slash t"
  by (induction s) auto

lemma split_slash_single: "CHR ''/'' \<notin> set s \<Longrightarrow> split_slash s = [s]"
  by (induction s) auto

lemma split_join_slash:
  "ss \<noteq> [] \<Longrightarrow> \<forall>s \<in> set ss. CHR ''/'' \<notin> set s \<Longrightarrow> split_slash (join_slash ss) = ss"
  by (induction ss rule: join_slash.induct) (auto simp: split_slash_append split_slash_single)

lemma valid_no_slash: "is_valid_segment s \<Longrightarrow> s \<noteq> [] \<and> CHR ''/'' \<notin> set s"
  by (auto simp: valid_segment_cases is_literal_def is_segment_char_def list_all_iff)

text \<open>The checks for a double and a trailing slash find empty segments.\<close>

lemma double_slash_empty_segment: "contains_double_slash s \<Longrightarrow> [] \<in> set (tl (split_slash s))"
proof (induction s rule: contains_double_slash.induct)
  case (1 c d cs)
  obtain t ts where t: "split_slash (d # cs) = t # ts" by (meson list.exhaust split_slash_not_Nil)
  show ?case
  proof (cases "c = CHR ''/''")
    case True
    then have e: "tl (split_slash (c # d # cs)) = split_slash (d # cs)" by simp
    show ?thesis
    proof (cases "d = CHR ''/''")
      case True
      then show ?thesis unfolding e by simp
    next
      case False
      with 1 True have "[] \<in> set (tl (split_slash (d # cs)))" by simp
      then show ?thesis unfolding e by (rule list.set_sel(2) [OF split_slash_not_Nil])
    qed
  next
    case False
    with 1 t have "[] \<in> set ts" by simp
    with False t show ?thesis by simp
  qed
qed simp_all

lemma trailing_slash_empty_segment: "s \<noteq> [] \<Longrightarrow> last s = CHR ''/'' \<Longrightarrow> [] \<in> set (tl (split_slash s))"
proof (induction s)
  case (Cons c cs)
  obtain t ts where t: "split_slash cs = t # ts" by (meson list.exhaust split_slash_not_Nil)
  show ?case
  proof (cases "cs = []")
    case True
    with Cons show ?thesis by simp
  next
    case False
    with Cons t have "[] \<in> set ts" by simp
    with t show ?thesis by auto
  qed
qed simp

lemma tl_split_strip:
  assumes "[] \<in> set (tl (split_slash e))"
  shows "[] \<in> set (split_slash (strip_slash e))"
proof (cases "strip_slash e = e")
  case True
  then show ?thesis using list.set_sel(2) [OF split_slash_not_Nil assms] by simp
next
  case False
  then obtain cs where "e = CHR ''/'' # cs" "strip_slash e = cs"
    by (cases e) (auto simp: strip_slash_def split: if_splits)
  with assms show ?thesis by simp
qed

lemma key_new_eq:
  "key_new e = Inr e \<longleftrightarrow> e = ''/'' \<or> e \<noteq> [] \<and> list_all is_valid_segment (split_slash (strip_slash e))"
proof -
  have "\<not> list_all is_valid_segment (split_slash (strip_slash e))"
    if "contains_double_slash e \<or> e \<noteq> [] \<and> last e = CHR ''/''"
  proof -
    have "[] \<in> set (split_slash (strip_slash e))"
      using that double_slash_empty_segment trailing_slash_empty_segment tl_split_strip by blast
    then show ?thesis by (metis list_all_iff valid_no_slash)
  qed
  then show ?thesis by (auto simp: key_new_def)
qed

lemma key_new_cases: "key_new e = Inr f \<Longrightarrow> f = e"
  by (auto simp: key_new_def split: if_splits)

lemma key_new_segments: "key_new e = Inr f \<Longrightarrow> list_all is_valid_segment (segments f)"
  using key_new_cases [of e f] key_new_eq [of e] by (auto simp: segments_def)

section \<open>The interface of key matching\<close>

text \<open>What the routers rely on: two keys match exactly when they denote a common concrete key.\<close>

locale key_matching =
  fixes valid :: "'k \<Rightarrow> bool"
    and denoted :: "'k \<Rightarrow> 'c set"
    and matches :: "'k \<Rightarrow> 'k \<Rightarrow> bool"
  assumes matches_iff: "valid e \<Longrightarrow> valid f \<Longrightarrow> matches e f \<longleftrightarrow> denoted e \<inter> denoted f \<noteq> {}"
begin

lemma matches_sym: "valid e \<Longrightarrow> valid f \<Longrightarrow> matches e f \<longleftrightarrow> matches f e"
  by (auto simp: matches_iff)

lemma matches_concrete: "valid e \<Longrightarrow> valid f \<Longrightarrow> denoted f = {k} \<Longrightarrow> matches e f \<longleftrightarrow> k \<in> denoted e"
  by (auto simp: matches_iff)

lemma matches_mono:
  "valid e \<Longrightarrow> valid f \<Longrightarrow> valid g \<Longrightarrow> denoted e \<subseteq> denoted f \<Longrightarrow> matches e g \<Longrightarrow> matches f g"
  by (auto simp: matches_iff)

end

definition key_valid :: "key_expr \<Rightarrow> bool" where
  "key_valid e \<longleftrightarrow> key_new e = Inr e"

definition key_denoted :: "key_expr \<Rightarrow> string list set" where
  "key_denoted e = {k. list_all is_literal k \<and> denotes (segments e) k}"

interpretation km: key_matching key_valid key_denoted key_matches
proof unfold_locales
  fix e f assume "key_valid e" "key_valid f"
  then have "segments_match (segments e) (segments f) \<longleftrightarrow> overlap (segments e) (segments f)"
    by (intro segments_match_overlap) (auto simp: key_valid_def dest: key_new_segments)
  then show "key_matches e f \<longleftrightarrow> key_denoted e \<inter> key_denoted f \<noteq> {}"
    by (auto simp: key_matches_def key_denoted_def overlap_def)
qed

lemma denotes_literal: "list_all is_literal ps \<Longrightarrow> denotes ps k \<longleftrightarrow> k = ps"
proof (induction ps arbitrary: k)
  case Nil
  then show ?case by simp
next
  case (Cons p ps)
  then have p: "p \<noteq> ''**''" "p \<noteq> ''*''" and ps: "denotes ps k \<longleftrightarrow> k = ps" for k
    by (metis list.pred_inject(2) star_not_literal)+
  show ?case unfolding denotes_single [OF p(1)] ps using p(2) by simp
qed

lemma key_denoted_concrete:
  assumes "key_valid e" "\<not> is_wild e"
  shows "key_denoted e = {segments e}"
proof -
  have "list_all is_literal (segments e)"
    using assms key_new_segments [of e e]
    by (auto simp: key_valid_def is_wild_def list_all_iff list_ex_iff valid_segment_cases)
  then show ?thesis by (auto simp: key_denoted_def denotes_literal)
qed

lemma join_slash_first:
  assumes "ss \<noteq> []" "list_all is_valid_segment ss"
  shows "join_slash ss \<noteq> []" "strip_slash (join_slash ss) = join_slash ss"
proof -
  obtain s ts where ss: "ss = s # ts" using assms(1) by (cases ss) auto
  with assms(2) valid_no_slash [of s] obtain c cs where c: "s = c # cs" "c \<noteq> CHR ''/''"
    by (cases s) auto
  then have "\<exists>r. join_slash ss = c # r" by (cases ts) (auto simp: ss)
  with c show "join_slash ss \<noteq> []" "strip_slash (join_slash ss) = join_slash ss"
    by (auto simp: strip_slash_def)
qed

lemma split_join_valid: "ss \<noteq> [] \<Longrightarrow> list_all is_valid_segment ss \<Longrightarrow> split_slash (join_slash ss) = ss"
  using split_join_slash valid_no_slash by (metis list_all_iff)

section \<open>Properties\<close>

text \<open>
  C27. Matching decides overlap: two accepted key expressions match exactly when some concrete key
  is denoted by both, where \<open>*\<close> stands for one segment and \<open>**\<close> for any number of them; so
  matching is symmetric, and a concrete key matches a pattern exactly when the pattern denotes it.
\<close>

theorem key_matches_iff_common_key:
  assumes "key_new a = Inr e" "key_new b = Inr f"
  shows "(key_matches e f \<longleftrightarrow> (\<exists>k. list_all is_literal k \<and> denotes (segments e) k \<and> denotes (segments f) k)) \<and>
    key_matches e f = key_matches f e \<and> key_intersects e f = key_matches e f \<and>
    (\<not> is_wild f \<longrightarrow> key_matches e f = denotes (segments e) (segments f))"
proof -
  have v: "key_valid e" "key_valid f" using assms key_new_cases by (auto simp: key_valid_def)
  have "key_matches e f = denotes (segments e) (segments f)" if "\<not> is_wild f"
  proof -
    have "key_denoted f = {segments f}" by (rule key_denoted_concrete [OF v(2) that])
    then show ?thesis using km.matches_concrete [OF v] by (auto simp: key_denoted_def)
  qed
  moreover have "key_matches e f \<longleftrightarrow> (\<exists>k. list_all is_literal k \<and> denotes (segments e) k \<and> denotes (segments f) k)"
    unfolding km.matches_iff [OF v] by (auto simp: key_denoted_def)
  ultimately show ?thesis
    using km.matches_sym [OF v] by (simp add: key_intersects_def key_matches_def segments_intersect_def)
qed

theorem key_matches_iff_common_key_witness:
  "key_new ''a/**'' = Inr ''a/**'' \<and> key_matches ''a/**'' ''a/b/c'' = denotes (segments ''a/**'') (segments ''a/b/c'')"
proof -
  have "key_new ''a/**'' = Inr ''a/**''" "key_new ''a/b/c'' = Inr ''a/b/c''" "\<not> is_wild ''a/b/c''"
    by code_simp+
  then show ?thesis using key_matches_iff_common_key [of "''a/**''" "''a/**''" "''a/b/c''" "''a/b/c''"] by blast
qed

text \<open>
  Validation accepts exactly the documented expressions: the root \<open>/\<close>, and the non-empty lists of
  valid segments joined by single slashes, with or without one leading slash; and \<open>segments\<close>
  gives back that list.
\<close>

theorem key_new_accepts_exactly:
  "(key_new e = Inr e \<longleftrightarrow> e = ''/'' \<or>
     (\<exists>ss. ss \<noteq> [] \<and> list_all is_valid_segment ss \<and> (e = join_slash ss \<or> e = CHR ''/'' # join_slash ss) \<and>
        segments e = ss)) \<and>
   (key_new e = Inr e \<or> key_new e = Inl InvalidKeyExpression)"
proof (intro conjI iffI)
  assume "key_new e = Inr e"
  then consider "e = ''/''" | "e \<noteq> ''/''" "e \<noteq> []" "list_all is_valid_segment (split_slash (strip_slash e))"
    using key_new_eq by blast
  then show "e = ''/'' \<or> (\<exists>ss. ss \<noteq> [] \<and> list_all is_valid_segment ss \<and>
      (e = join_slash ss \<or> e = CHR ''/'' # join_slash ss) \<and> segments e = ss)"
  proof cases
    case 2
    have "e = strip_slash e \<or> e = CHR ''/'' # strip_slash e"
      by (cases e) (auto simp: strip_slash_def)
    with 2 join_split_slash [of "strip_slash e"] show ?thesis
      by (intro disjI2 exI [of _ "split_slash (strip_slash e)"]) (auto simp: segments_def)
  qed simp
next
  assume "e = ''/'' \<or> (\<exists>ss. ss \<noteq> [] \<and> list_all is_valid_segment ss \<and>
      (e = join_slash ss \<or> e = CHR ''/'' # join_slash ss) \<and> segments e = ss)"
  then consider "e = ''/''" | ss where "ss \<noteq> []" "list_all is_valid_segment ss"
      "e = join_slash ss \<or> e = CHR ''/'' # join_slash ss" by blast
  then show "key_new e = Inr e"
  proof cases
    case (2 ss)
    note ss = join_slash_first [OF 2(1,2)] split_join_valid [OF 2(1,2)]
    have "e \<noteq> [] \<and> strip_slash e = join_slash ss"
      using 2(3) ss by (auto simp: strip_slash_def)
    then show ?thesis using key_new_eq ss(3) 2(2) by simp
  qed (simp add: key_new_def)
next
  show "key_new e = Inr e \<or> key_new e = Inl InvalidKeyExpression" by (simp add: key_new_def)
qed

end
