(* ===== verification/Messaging.thy ===== *)
theory Messaging
  imports Key_Expr
begin

text \<open>
  The subscription router, publishers and subscribers, and the query router
  (\<open>ipc/src/router.rs\<close>, \<open>pubsub.rs\<close>, \<open>reqrep.rs\<close>). A key expression held by a router is one that
  \<open>KeyExpr::new\<close> accepted. The security label a message carries under the \<open>formal-gate\<close> feature is
  part of the gate's model, not of this one. \<open>submit_query\<close> consumes a query id even when it
  fails, so it returns the new router in every case.
\<close>

section \<open>The subscription router\<close>

type_synonym subscription_id = u64

definition MAX_SUBSCRIPTIONS :: nat where
  "MAX_SUBSCRIPTIONS = 1024"

record subscription =
  sub_id :: subscription_id
  sub_key_expr :: key_expr
  sub_active :: bool

record router =
  rt_subscriptions :: "subscription list"
  rt_next_id :: u64

definition router_new :: router where
  "router_new = \<lparr>rt_subscriptions = [], rt_next_id = 1\<rparr>"

definition subscription_count :: "router \<Rightarrow> nat" where
  "subscription_count r = length (filter sub_active (rt_subscriptions r))"

definition subscribe :: "router \<Rightarrow> key_expr \<Rightarrow> (ipc_error, subscription_id \<times> router) result" where
  "subscribe r key =
     (if length (filter sub_active (rt_subscriptions r)) \<ge> MAX_SUBSCRIPTIONS then Inl TableFull
      else let i = rt_next_id r in
        Inr (i, r\<lparr>rt_next_id := i + 1, rt_subscriptions := rt_subscriptions r @
          [\<lparr>sub_id = i, sub_key_expr = key, sub_active = True\<rparr>]\<rparr>))"

fun deactivate :: "subscription_id \<Rightarrow> subscription list \<Rightarrow> subscription list option" where
  "deactivate i [] = None"
| "deactivate i (s # ss) =
     (if sub_id s = i \<and> sub_active s then Some (s\<lparr>sub_active := False\<rparr> # ss)
      else map_option (Cons s) (deactivate i ss))"

definition unsubscribe :: "router \<Rightarrow> subscription_id \<Rightarrow> (ipc_error, router) result" where
  "unsubscribe r i = (case deactivate i (rt_subscriptions r) of
     None \<Rightarrow> Inl NotFound | Some ss \<Rightarrow> Inr (r\<lparr>rt_subscriptions := ss\<rparr>))"

definition match_key :: "router \<Rightarrow> key_expr \<Rightarrow> subscription_id list" where
  "match_key r key = map sub_id
     (filter (\<lambda>s. sub_active s \<and> key_matches (sub_key_expr s) key) (rt_subscriptions r))"

definition is_subscribed :: "router \<Rightarrow> subscription_id \<Rightarrow> bool" where
  "is_subscribed r i \<longleftrightarrow> list_ex (\<lambda>s. sub_id s = i \<and> sub_active s) (rt_subscriptions r)"

section \<open>Publishers and subscribers\<close>

definition MAX_QUEUED :: nat where
  "MAX_QUEUED = 256"

record message =
  msg_key :: key_expr
  msg_payload :: "u8 list"
  msg_timestamp :: u64
  msg_publisher :: u64

type_synonym message_queue = "message list"

definition mq_push :: "message_queue \<Rightarrow> message \<Rightarrow> (ipc_error, message_queue) result" where
  "mq_push q msg = (if length q \<ge> MAX_QUEUED then Inl BufferFull else Inr (q @ [msg]))"

definition mq_pop :: "message_queue \<Rightarrow> message option \<times> message_queue" where
  "mq_pop q = (if q = [] then (None, q) else (Some (hd q), tl q))"

record publisher =
  pub_id :: u64
  pub_key_expr :: key_expr

definition create_message :: "publisher \<Rightarrow> u8 list \<Rightarrow> u64 \<Rightarrow> message" where
  "create_message p payload timestamp =
     \<lparr>msg_key = pub_key_expr p, msg_payload = payload, msg_timestamp = timestamp, msg_publisher = pub_id p\<rparr>"

record subscriber =
  sb_id :: subscription_id
  sb_key_expr :: key_expr
  sb_queue :: message_queue

definition subscriber_new :: "subscription_id \<Rightarrow> key_expr \<Rightarrow> subscriber" where
  "subscriber_new i key = \<lparr>sb_id = i, sb_key_expr = key, sb_queue = []\<rparr>"

definition deliver :: "subscriber \<Rightarrow> message \<Rightarrow> (ipc_error, subscriber) result" where
  "deliver s msg = (case mq_push (sb_queue s) msg of Inl e \<Rightarrow> Inl e | Inr q \<Rightarrow> Inr (s\<lparr>sb_queue := q\<rparr>))"

definition receive :: "subscriber \<Rightarrow> message option \<times> subscriber" where
  "receive s = (case mq_pop (sb_queue s) of (m, q) \<Rightarrow> (m, s\<lparr>sb_queue := q\<rparr>))"

section \<open>The query router\<close>

definition MAX_PENDING_QUERIES :: nat where
  "MAX_PENDING_QUERIES = 64"

definition MAX_QUERYABLES :: nat where
  "MAX_QUERYABLES = 256"

record query =
  qy_id :: u64
  qy_key_expr :: key_expr
  qy_payload :: "u8 list"
  qy_timestamp :: u64

record queryable =
  qa_id :: u64
  qa_key_expr :: key_expr
  qa_pending :: "query list"

definition receive_query :: "queryable \<Rightarrow> query \<Rightarrow> (ipc_error, queryable) result" where
  "receive_query q query =
     (if length (qa_pending q) \<ge> MAX_PENDING_QUERIES then Inl BufferFull
      else Inr (q\<lparr>qa_pending := qa_pending q @ [query]\<rparr>))"

definition next_query :: "queryable \<Rightarrow> query option \<times> queryable" where
  "next_query q = (if qa_pending q = [] then (None, q)
     else (Some (hd (qa_pending q)), q\<lparr>qa_pending := tl (qa_pending q)\<rparr>))"

record query_router =
  qr_queryables :: "queryable list"
  qr_next_qid :: u64
  qr_next_queryable_id :: u64

definition query_router_new :: query_router where
  "query_router_new = \<lparr>qr_queryables = [], qr_next_qid = 1, qr_next_queryable_id = 1\<rparr>"

definition register :: "query_router \<Rightarrow> key_expr \<Rightarrow> (ipc_error, u64 \<times> query_router) result" where
  "register r key =
     (if length (qr_queryables r) \<ge> MAX_QUERYABLES then Inl TableFull
      else let i = qr_next_queryable_id r in
        Inr (i, r\<lparr>qr_next_queryable_id := i + 1,
          qr_queryables := qr_queryables r @ [\<lparr>qa_id = i, qa_key_expr = key, qa_pending = []\<rparr>]\<rparr>))"

definition unregister :: "query_router \<Rightarrow> u64 \<Rightarrow> (ipc_error, query_router) result" where
  "unregister r i = (case position (\<lambda>q. qa_id q = i) (qr_queryables r) of
     None \<Rightarrow> Inl NotFound
   | Some p \<Rightarrow> Inr (r\<lparr>qr_queryables := take p (qr_queryables r) @ drop (Suc p) (qr_queryables r)\<rparr>))"

fun submit_loop :: "key_expr \<Rightarrow> query \<Rightarrow> queryable list \<Rightarrow> (ipc_error, queryable list) result" where
  "submit_loop key query [] = Inl NotFound"
| "submit_loop key query (q # qs) =
     (if key_matches (qa_key_expr q) key then
        (case receive_query q query of Inl e \<Rightarrow> Inl e | Inr q' \<Rightarrow> Inr (q' # qs))
      else (case submit_loop key query qs of Inl e \<Rightarrow> Inl e | Inr qs' \<Rightarrow> Inr (q # qs')))"

definition submit_query :: "query_router \<Rightarrow> key_expr \<Rightarrow> u8 list \<Rightarrow> u64 \<Rightarrow>
    (ipc_error, u64) result \<times> query_router" where
  "submit_query r key payload timestamp =
     (let qid = qr_next_qid r; r1 = r\<lparr>qr_next_qid := qid + 1\<rparr>;
          query = \<lparr>qy_id = qid, qy_key_expr = key, qy_payload = payload, qy_timestamp = timestamp\<rparr> in
      case submit_loop key query (qr_queryables r1) of
        Inl e \<Rightarrow> (Inl e, r1) | Inr qs \<Rightarrow> (Inr qid, r1\<lparr>qr_queryables := qs\<rparr>))"

section \<open>Bounded queues\<close>

text \<open>
  The interface of a bounded first-in first-out queue: what a subscriber's message queue and a
  queryable's pending queries promise.
\<close>

locale bounded_fifo =
  fixes contents :: "'q \<Rightarrow> 'm list"
    and cap :: nat
    and put :: "'q \<Rightarrow> 'm \<Rightarrow> (ipc_error, 'q) result"
    and take_first :: "'q \<Rightarrow> 'm option \<times> 'q"
  assumes put_full: "length (contents q) \<ge> cap \<Longrightarrow> put q m = Inl BufferFull"
    and put_ok: "length (contents q) < cap \<Longrightarrow> \<exists>q'. put q m = Inr q' \<and> contents q' = contents q @ [m]"
    and take_empty: "contents q = [] \<Longrightarrow> take_first q = (None, q)"
    and take_head: "contents q = m # ms \<Longrightarrow> \<exists>q'. take_first q = (Some m, q') \<and> contents q' = ms"
begin

lemma put_Inr_iff: "(\<exists>q'. put q m = Inr q') \<longleftrightarrow> length (contents q) < cap"
  using put_full put_ok by (metis Inl_Inr_False linorder_not_less)

lemma put_contents: "put q m = Inr q' \<Longrightarrow> contents q' = contents q @ [m]"
  using put_full put_ok by (metis Inl_Inr_False linorder_not_less sum.inject(2))

lemma take_contents:
  "take_first q = (r, q') \<Longrightarrow> contents q = (case r of None \<Rightarrow> [] | Some m \<Rightarrow> [m]) @ contents q'"
proof (cases "contents q")
  case Nil
  assume "take_first q = (r, q')"
  with take_empty [OF Nil] Nil show ?thesis by simp
next
  case (Cons m ms)
  assume "take_first q = (r, q')"
  with take_head [OF Cons] Cons show ?thesis by auto
qed

end

interpretation sbq: bounded_fifo sb_queue MAX_QUEUED deliver receive
  by unfold_locales (auto simp: deliver_def receive_def mq_push_def mq_pop_def)

interpretation qaq: bounded_fifo qa_pending MAX_PENDING_QUERIES receive_query next_query
  by unfold_locales (auto simp: receive_query_def next_query_def)

text \<open>A history of deliveries and receptions, with the accepted and the received messages.\<close>

datatype sb_op = Deliver message | Receive

fun sb_run :: "sb_op list \<Rightarrow> subscriber \<Rightarrow> message list \<times> message list \<times> subscriber" where
  "sb_run [] s = ([], [], s)"
| "sb_run (Deliver m # ops) s =
     (case deliver s m of
        Inl e \<Rightarrow> sb_run ops s
      | Inr s' \<Rightarrow> (case sb_run ops s' of (acc, got, s'') \<Rightarrow> (m # acc, got, s'')))"
| "sb_run (Receive # ops) s =
     (case receive s of
        (None, s') \<Rightarrow> sb_run ops s'
      | (Some m, s') \<Rightarrow> (case sb_run ops s' of (acc, got, s'') \<Rightarrow> (acc, m # got, s'')))"

lemma sb_run_fifo:
  "sb_run ops s = (acc, got, s') \<Longrightarrow> sb_queue s @ acc = got @ sb_queue s'"
proof (induction ops s arbitrary: acc got s' rule: sb_run.induct)
  case (1 s)
  then show ?case by simp
next
  case (2 m ops s)
  show ?case
  proof (cases "deliver s m")
    case (Inl e)
    with 2 show ?thesis by simp
  next
    case (Inr s1)
    obtain acc1 got1 s2 where r: "sb_run ops s1 = (acc1, got1, s2)" by (cases "sb_run ops s1")
    with 2(2) 2(3) [unfolded sb_run.simps Inr, simplified] Inr have "sb_queue s1 @ acc1 = got1 @ sb_queue s2"
      by simp
    with r 2(3) Inr sbq.put_contents [OF Inr] show ?thesis by simp
  qed
next
  case (3 ops s)
  obtain r s1 where rc: "receive s = (r, s1)" by (cases "receive s")
  obtain acc1 got1 s2 where run: "sb_run ops s1 = (acc1, got1, s2)" by (cases "sb_run ops s1")
  have "sb_queue s1 @ acc1 = got1 @ sb_queue s2"
    using 3(1,2) rc run by (cases r) auto
  with rc run 3(3) sbq.take_contents [OF rc] show ?case by (cases r) auto
qed

section \<open>The router refines a finite map\<close>

definition router_map :: "router \<Rightarrow> subscription_id \<Rightarrow> key_expr option" where
  "router_map r i = map_option sub_key_expr (find (\<lambda>s. sub_id s = i \<and> sub_active s) (rt_subscriptions r))"

definition router_inv :: "router \<Rightarrow> bool" where
  [inv_defs]: "router_inv r \<longleftrightarrow> distinct (map sub_id (rt_subscriptions r)) \<and>
     (\<forall>s \<in> set (rt_subscriptions r). sub_id s < rt_next_id r) \<and> subscription_count r \<le> MAX_SUBSCRIPTIONS"

lemma router_map_Some_iff:
  assumes "router_inv r"
  shows "router_map r i = Some e \<longleftrightarrow>
    (\<exists>s \<in> set (rt_subscriptions r). sub_id s = i \<and> sub_active s \<and> sub_key_expr s = e)"
proof
  assume "router_map r i = Some e"
  then show "\<exists>s \<in> set (rt_subscriptions r). sub_id s = i \<and> sub_active s \<and> sub_key_expr s = e"
    by (auto simp: router_map_def dest: find_SomeD)
next
  assume "\<exists>s \<in> set (rt_subscriptions r). sub_id s = i \<and> sub_active s \<and> sub_key_expr s = e"
  then obtain s where s: "s \<in> set (rt_subscriptions r)" "sub_id s = i" "sub_active s" "sub_key_expr s = e"
    by blast
  have "find (\<lambda>s. sub_id s = i \<and> sub_active s) (rt_subscriptions r) = Some s"
    using assms s by (intro find_unique) (auto simp: router_inv_def distinct_map inj_on_def)
  with s(4) show "router_map r i = Some e" by (simp add: router_map_def)
qed

lemma subscribe_refines:
  assumes "router_inv r" "subscribe r key = Inr (i, r')" "rt_next_id r < - 1"
  shows "router_inv r' \<and> router_map r' = (router_map r)(i \<mapsto> key) \<and> router_map r i = None"
proof -
  let ?s = "\<lparr>sub_id = i, sub_key_expr = key, sub_active = True\<rparr>"
  from assms(2) have c: "subscription_count r < MAX_SUBSCRIPTIONS" and i: "i = rt_next_id r"
    and r': "r' = r\<lparr>rt_next_id := i + 1, rt_subscriptions := rt_subscriptions r @ [?s]\<rparr>"
    by (auto simp: subscribe_def subscription_count_def Let_def split: if_splits)
  have fresh: "\<forall>s \<in> set (rt_subscriptions r). sub_id s < i" using assms(1) i by (simp add: router_inv_def)
  have "i < i + 1" using assms(3) i by (simp add: less_inc_64)
  then have inv: "router_inv r'"
    using assms(1) c fresh unfolding router_inv_def r'
    by (auto simp: subscription_count_def i intro: less_trans)
  moreover have "router_map r' j = ((router_map r)(i \<mapsto> key)) j" for j
    by (rule option_eqI)
      (use router_map_Some_iff [OF inv, of j] router_map_Some_iff [OF assms(1), of j] fresh in
        \<open>auto simp: r'\<close>)
  moreover have "router_map r i = None"
    using router_map_Some_iff [OF assms(1), of i] fresh by (cases "router_map r i") auto
  ultimately show ?thesis by (simp add: fun_eq_iff)
qed

lemma deactivate_None_iff: "deactivate i ss = None \<longleftrightarrow> (\<forall>s \<in> set ss. \<not> (sub_id s = i \<and> sub_active s))"
  by (induction ss) auto

lemma deactivate_Some:
  "deactivate i ss = Some ts \<Longrightarrow> \<exists>xs s ys. ss = xs @ s # ys \<and> sub_id s = i \<and> sub_active s \<and>
     ts = xs @ s\<lparr>sub_active := False\<rparr> # ys"
proof (induction ss arbitrary: ts)
  case (Cons s ss)
  show ?case
  proof (cases "sub_id s = i \<and> sub_active s")
    case True
    with Cons.prems show ?thesis by (intro exI [of _ "[]"]) auto
  next
    case False
    with Cons obtain us xs t ys where "ts = s # us" "ss = xs @ t # ys" "sub_id t = i" "sub_active t"
      "us = xs @ t\<lparr>sub_active := False\<rparr> # ys" by (auto split: if_splits)
    then show ?thesis by (intro exI [of _ "s # xs"]) auto
  qed
qed simp

lemma unsubscribe_refines:
  assumes inv: "router_inv r"
  shows "(case unsubscribe r i of
      Inl e \<Rightarrow> e = NotFound \<and> router_map r i = None
    | Inr r' \<Rightarrow> router_inv r' \<and> router_map r i \<noteq> None \<and> router_map r' = (router_map r)(i := None) \<and>
        rt_next_id r' = rt_next_id r)"
proof (cases "deactivate i (rt_subscriptions r)")
  case None
  then have "router_map r i = None"
    by (auto simp: deactivate_None_iff router_map_def find_None_iff')
  with None show ?thesis by (simp add: unsubscribe_def)
next
  case (Some ts)
  from deactivate_Some [OF Some] obtain xs s ys where
    d: "rt_subscriptions r = xs @ s # ys" "sub_id s = i" "sub_active s" "ts = xs @ s\<lparr>sub_active := False\<rparr> # ys"
    by blast
  let ?r = "r\<lparr>rt_subscriptions := ts\<rparr>"
  have inv': "router_inv ?r"
    using inv d unfolding router_inv_def subscription_count_def by simp
  have "\<forall>t \<in> set xs \<union> set ys. sub_id t \<noteq> i"
    using inv d(1,2) by (auto simp: router_inv_def image_iff)
  then have "router_map ?r j = ((router_map r)(i := None)) j" for j
    by (intro option_eqI)
      (use d router_map_Some_iff [OF inv', of j] router_map_Some_iff [OF inv, of j] in auto)
  moreover have "router_map r i = Some (sub_key_expr s)"
    using d router_map_Some_iff [OF inv, of i] by auto
  ultimately show ?thesis using Some inv' by (simp add: unsubscribe_def fun_eq_iff)
qed

lemma match_key_set:
  assumes "router_inv r"
  shows "set (match_key r key) = {i. \<exists>e. router_map r i = Some e \<and> key_matches e key}"
    "distinct (match_key r key)"
  using router_map_Some_iff [OF assms] assms
  by (auto simp: match_key_def router_inv_def distinct_map_filter)

text \<open>Runs of the router beside the finite map it implements.\<close>

inductive router_run :: "router \<Rightarrow> (subscription_id \<Rightarrow> key_expr option) \<Rightarrow> bool" where
  rr_new: "router_run router_new Map.empty"
| rr_subscribe: "router_run r M \<Longrightarrow> rt_next_id r < - 1 \<Longrightarrow> key_new k = Inr key \<Longrightarrow>
    subscribe r key = Inr (i, r') \<Longrightarrow> router_run r' (M(i \<mapsto> key))"
| rr_unsubscribe: "router_run r M \<Longrightarrow> unsubscribe r i = Inr r' \<Longrightarrow> router_run r' (M(i := None))"

lemma router_run_inv:
  "router_run r M \<Longrightarrow> router_inv r \<and> router_map r = M \<and> (\<forall>i e. M i = Some e \<longrightarrow> key_valid e)"
proof (induction rule: router_run.induct)
  case rr_new
  then show ?case
    by (simp add: router_inv_def router_new_def router_map_def subscription_count_def fun_eq_iff)
next
  case (rr_subscribe r M k key i r')
  then have "key_valid key" using key_new_cases by (auto simp: key_valid_def)
  with rr_subscribe subscribe_refines [of r key i r'] show ?case by auto
next
  case (rr_unsubscribe r M i r')
  then show ?case using unsubscribe_refines [of r i] by (auto split: if_splits)
qed

lemma is_subscribed_iff: "router_inv r \<Longrightarrow> is_subscribed r i \<longleftrightarrow> router_map r i \<noteq> None"
  using router_map_Some_iff [of r i] by (auto simp: is_subscribed_def list_ex_iff)

lemma sb_run_bound:
  "length (sb_queue s) \<le> MAX_QUEUED \<Longrightarrow> sb_run ops s = (acc, got, s') \<Longrightarrow> length (sb_queue s') \<le> MAX_QUEUED"
proof (induction ops s arbitrary: acc got s' rule: sb_run.induct)
  case (1 s)
  then show ?case by simp
next
  case (2 m ops s)
  show ?case
  proof (cases "deliver s m")
    case (Inl e)
    with 2 show ?thesis by simp
  next
    case (Inr s1)
    then have "length (sb_queue s1) \<le> MAX_QUEUED"
      using sbq.put_Inr_iff [of s m] sbq.put_contents [OF Inr] by auto
    with 2 Inr show ?thesis by (auto split: prod.splits)
  qed
next
  case (3 ops s)
  obtain r s1 where rc: "receive s = (r, s1)" by (cases "receive s")
  have "length (sb_queue s1) \<le> MAX_QUEUED"
    using sbq.take_contents [OF rc] 3(3) by (auto split: option.splits)
  with 3(1,2,4) rc show ?case by (cases r) (auto split: prod.splits)
qed

lemma submit_loop_eq:
  "submit_loop key query qs =
     (case position (\<lambda>q. key_matches (qa_key_expr q) key) qs of
        None \<Rightarrow> Inl NotFound
      | Some i \<Rightarrow> (case receive_query (qs ! i) query of Inl e \<Rightarrow> Inl e | Inr q \<Rightarrow> Inr (qs[i := q])))"
proof (induction qs)
  case (Cons q qs)
  then show ?case
    by (cases "position (\<lambda>q. key_matches (qa_key_expr q) key) qs")
      (auto split: sum.splits simp del: position_None_iff)
qed simp

section \<open>Properties\<close>

text \<open>
  C17. The router delivers to exactly the right subscribers: after any sequence of subscriptions and
  cancellations, the ids returned for a concrete key are, without repetition, those of the
  subscriptions in force whose pattern denotes the key; an id is subscribed exactly while its
  subscription is in force.
\<close>

theorem router_matches_exactly_subscribers:
  assumes "router_run r M" "key_new k = Inr key" "\<not> is_wild key"
  shows "set (match_key r key) = {i. \<exists>e. M i = Some e \<and> denotes (segments e) (segments key)} \<and>
    distinct (match_key r key) \<and> (\<forall>i. is_subscribed r i \<longleftrightarrow> M i \<noteq> None)"
proof -
  from router_run_inv [OF assms(1)] have r: "router_inv r" "router_map r = M"
    and v: "\<And>i e. M i = Some e \<Longrightarrow> key_valid e" by auto
  have key: "key_valid key" using assms(2) key_new_cases by (auto simp: key_valid_def)
  have "key_matches e key \<longleftrightarrow> denotes (segments e) (segments key)" if "M i = Some e" for i e
  proof -
    have d: "key_denoted key = {segments key}" by (rule key_denoted_concrete [OF key assms(3)])
    then have "list_all is_literal (segments key)" by (auto simp: key_denoted_def)
    then show ?thesis using km.matches_concrete [OF v [OF that] key d] by (auto simp: key_denoted_def)
  qed
  then show ?thesis using match_key_set [OF r(1)] is_subscribed_iff [OF r(1)] r(2) by auto
qed

theorem router_matches_exactly_subscribers_witness:
  "\<exists>r. subscribe router_new ''a/*'' = Inr (1, r) \<and>
     set (match_key r ''a/b'') = {i. \<exists>e. (Map.empty(1 \<mapsto> ''a/*'')) i = Some e \<and> denotes (segments e) (segments ''a/b'')}"
proof -
  have k: "key_new ''a/*'' = Inr ''a/*''" "key_new ''a/b'' = Inr ''a/b''" "\<not> is_wild ''a/b''"
    by code_simp+
  have lt: "(1 :: u64) < - 1" by code_simp
  obtain r where r: "subscribe router_new ''a/*'' = Inr (1, r)"
    by (auto simp: subscribe_def router_new_def MAX_SUBSCRIPTIONS_def)
  have "router_run r (Map.empty(1 \<mapsto> ''a/*''))"
    by (rule rr_subscribe [OF rr_new _ k(1) r]) (simp add: router_new_def lt)
  from router_matches_exactly_subscribers [OF this k(2,3)] r show ?thesis by blast
qed

text \<open>
  A subscriber receives the messages accepted for it in order, none lost and none twice:
  after any interleaving of deliveries and receptions, the accepted messages are the received
  ones followed by the queued ones, of which there are at most 256.
\<close>

theorem subscriber_fifo:
  "case sb_run ops (subscriber_new i key) of (acc, got, s) \<Rightarrow>
     acc = got @ sb_queue s \<and> length (sb_queue s) \<le> MAX_QUEUED"
proof -
  obtain acc got s where r: "sb_run ops (subscriber_new i key) = (acc, got, s)"
    by (cases "sb_run ops (subscriber_new i key)")
  have "sb_queue (subscriber_new i key) = []" by (simp add: subscriber_new_def)
  with sb_run_fifo [OF r] sb_run_bound [OF _ r] show ?thesis by (simp add: r)
qed

text \<open>
  A query goes to the first registered queryable whose key matches and to no other: it is
  appended to that one's pending queries, or refused with \<open>BufferFull\<close> if 64 are pending, or with
  \<open>NotFound\<close> if none matches; its id is consumed in every case, so ids are never reused.
\<close>

theorem submit_query_first_match:
  "submit_query r key payload ts =
     (let qs = qr_queryables r; qid = qr_next_qid r; r1 = r\<lparr>qr_next_qid := qid + 1\<rparr>;
          query = \<lparr>qy_id = qid, qy_key_expr = key, qy_payload = payload, qy_timestamp = ts\<rparr> in
      case position (\<lambda>q. key_matches (qa_key_expr q) key) qs of
        None \<Rightarrow> (Inl NotFound, r1)
      | Some i \<Rightarrow>
          if length (qa_pending (qs ! i)) \<ge> MAX_PENDING_QUERIES then (Inl BufferFull, r1)
          else (Inr qid, r1\<lparr>qr_queryables :=
            qs[i := (qs ! i)\<lparr>qa_pending := qa_pending (qs ! i) @ [query]\<rparr>]\<rparr>))"
  by (auto simp: submit_query_def submit_loop_eq receive_query_def Let_def split: option.splits
      simp del: position_None_iff)

end
