(* ===== verification/Audit_Entry.thy ===== *)
theory Audit_Entry
  imports Bytes
begin

text \<open>
  Audit events and audit log entries (\<open>security/src/audit/taxonomy.rs\<close> and \<open>entry.rs\<close>): the event
  taxonomy with its byte codes, the inline operation name, and the 69-byte encoding of an
  entry. The operation fields are private to their module, so every operation is one that
  \<open>Operation::new\<close> built (\<open>op_wf\<close>); the event type's fields are public, and its pairing of category and
  subcategory is the well-formedness \<open>et_wf\<close>.
\<close>

section \<open>The event taxonomy\<close>

datatype event_category =
    CatCapability
  | CatAuthentication
  | CatResource
  | CatInference
  | CatSystem
  | CatSecurity

datatype event_subcategory =
    SubGrant
  | SubRevoke
  | SubDeny
  | SubTlsSuccess
  | SubTlsFailure
  | SubAllocation
  | SubExhaustion
  | SubRequest
  | SubCompletion
  | SubTimeout
  | SubBoot
  | SubShutdown
  | SubWatchdog
  | SubGateAllowed
  | SubGateDenied
  | SubGatePermissivePass
  | SubPolicyUpdate

fun category_u8 :: "event_category \<Rightarrow> u8" where
  "category_u8 CatCapability = 0"
| "category_u8 CatAuthentication = 1"
| "category_u8 CatResource = 2"
| "category_u8 CatInference = 3"
| "category_u8 CatSystem = 4"
| "category_u8 CatSecurity = 5"

definition category_from_u8 :: "u8 \<Rightarrow> event_category option" where
  "category_from_u8 v =
     (if v = 0 then Some CatCapability
      else if v = 1 then Some CatAuthentication
      else if v = 2 then Some CatResource
      else if v = 3 then Some CatInference
      else if v = 4 then Some CatSystem
      else if v = 5 then Some CatSecurity
      else None)"

fun subcategory_u8 :: "event_subcategory \<Rightarrow> u8" where
  "subcategory_u8 SubGrant = 0"
| "subcategory_u8 SubRevoke = 1"
| "subcategory_u8 SubDeny = 2"
| "subcategory_u8 SubTlsSuccess = 10"
| "subcategory_u8 SubTlsFailure = 11"
| "subcategory_u8 SubAllocation = 20"
| "subcategory_u8 SubExhaustion = 21"
| "subcategory_u8 SubRequest = 30"
| "subcategory_u8 SubCompletion = 31"
| "subcategory_u8 SubTimeout = 32"
| "subcategory_u8 SubBoot = 40"
| "subcategory_u8 SubShutdown = 41"
| "subcategory_u8 SubWatchdog = 42"
| "subcategory_u8 SubGateAllowed = 50"
| "subcategory_u8 SubGateDenied = 51"
| "subcategory_u8 SubGatePermissivePass = 52"
| "subcategory_u8 SubPolicyUpdate = 53"

definition subcategory_from_u8 :: "u8 \<Rightarrow> event_subcategory option" where
  "subcategory_from_u8 v =
     (if v = 0 then Some SubGrant
      else if v = 1 then Some SubRevoke
      else if v = 2 then Some SubDeny
      else if v = 10 then Some SubTlsSuccess
      else if v = 11 then Some SubTlsFailure
      else if v = 20 then Some SubAllocation
      else if v = 21 then Some SubExhaustion
      else if v = 30 then Some SubRequest
      else if v = 31 then Some SubCompletion
      else if v = 32 then Some SubTimeout
      else if v = 40 then Some SubBoot
      else if v = 41 then Some SubShutdown
      else if v = 42 then Some SubWatchdog
      else if v = 50 then Some SubGateAllowed
      else if v = 51 then Some SubGateDenied
      else if v = 52 then Some SubGatePermissivePass
      else if v = 53 then Some SubPolicyUpdate
      else None)"

fun subcategory_category :: "event_subcategory \<Rightarrow> event_category" where
  "subcategory_category SubGrant = CatCapability"
| "subcategory_category SubRevoke = CatCapability"
| "subcategory_category SubDeny = CatCapability"
| "subcategory_category SubTlsSuccess = CatAuthentication"
| "subcategory_category SubTlsFailure = CatAuthentication"
| "subcategory_category SubAllocation = CatResource"
| "subcategory_category SubExhaustion = CatResource"
| "subcategory_category SubRequest = CatInference"
| "subcategory_category SubCompletion = CatInference"
| "subcategory_category SubTimeout = CatInference"
| "subcategory_category SubBoot = CatSystem"
| "subcategory_category SubShutdown = CatSystem"
| "subcategory_category SubWatchdog = CatSystem"
| "subcategory_category SubGateAllowed = CatSecurity"
| "subcategory_category SubGateDenied = CatSecurity"
| "subcategory_category SubGatePermissivePass = CatSecurity"
| "subcategory_category SubPolicyUpdate = CatSecurity"

record audit_event_type =
  et_category :: event_category
  et_subcategory :: event_subcategory

definition event_type_new :: "event_category \<Rightarrow> event_subcategory \<Rightarrow> audit_event_type option" where
  "event_type_new c s =
     (if subcategory_category s = c then Some \<lparr>et_category = c, et_subcategory = s\<rparr> else None)"

definition capability_grant :: audit_event_type where
  "capability_grant = \<lparr>et_category = CatCapability, et_subcategory = SubGrant\<rparr>"

definition capability_revoke :: audit_event_type where
  "capability_revoke = \<lparr>et_category = CatCapability, et_subcategory = SubRevoke\<rparr>"

definition capability_deny :: audit_event_type where
  "capability_deny = \<lparr>et_category = CatCapability, et_subcategory = SubDeny\<rparr>"

definition auth_success :: audit_event_type where
  "auth_success = \<lparr>et_category = CatAuthentication, et_subcategory = SubTlsSuccess\<rparr>"

definition auth_failure :: audit_event_type where
  "auth_failure = \<lparr>et_category = CatAuthentication, et_subcategory = SubTlsFailure\<rparr>"

definition resource_allocation :: audit_event_type where
  "resource_allocation = \<lparr>et_category = CatResource, et_subcategory = SubAllocation\<rparr>"

definition resource_exhaustion :: audit_event_type where
  "resource_exhaustion = \<lparr>et_category = CatResource, et_subcategory = SubExhaustion\<rparr>"

definition inference_request :: audit_event_type where
  "inference_request = \<lparr>et_category = CatInference, et_subcategory = SubRequest\<rparr>"

definition inference_completion :: audit_event_type where
  "inference_completion = \<lparr>et_category = CatInference, et_subcategory = SubCompletion\<rparr>"

definition inference_timeout :: audit_event_type where
  "inference_timeout = \<lparr>et_category = CatInference, et_subcategory = SubTimeout\<rparr>"

definition system_boot :: audit_event_type where
  "system_boot = \<lparr>et_category = CatSystem, et_subcategory = SubBoot\<rparr>"

definition system_shutdown :: audit_event_type where
  "system_shutdown = \<lparr>et_category = CatSystem, et_subcategory = SubShutdown\<rparr>"

definition system_watchdog :: audit_event_type where
  "system_watchdog = \<lparr>et_category = CatSystem, et_subcategory = SubWatchdog\<rparr>"

definition gate_allowed :: audit_event_type where
  "gate_allowed = \<lparr>et_category = CatSecurity, et_subcategory = SubGateAllowed\<rparr>"

definition gate_denied :: audit_event_type where
  "gate_denied = \<lparr>et_category = CatSecurity, et_subcategory = SubGateDenied\<rparr>"

definition gate_permissive_pass :: audit_event_type where
  "gate_permissive_pass = \<lparr>et_category = CatSecurity, et_subcategory = SubGatePermissivePass\<rparr>"

definition policy_update :: audit_event_type where
  "policy_update = \<lparr>et_category = CatSecurity, et_subcategory = SubPolicyUpdate\<rparr>"

lemmas event_consts_defs = capability_grant_def capability_revoke_def capability_deny_def auth_success_def
  auth_failure_def resource_allocation_def resource_exhaustion_def inference_request_def
  inference_completion_def inference_timeout_def system_boot_def system_shutdown_def
  system_watchdog_def gate_allowed_def gate_denied_def gate_permissive_pass_def
  policy_update_def

definition et_to_bytes :: "audit_event_type \<Rightarrow> u8 list" where
  "et_to_bytes t = [category_u8 (et_category t), subcategory_u8 (et_subcategory t)]"

definition et_from_bytes :: "u8 \<Rightarrow> u8 \<Rightarrow> audit_event_type option" where
  "et_from_bytes b0 b1 = do {
     c \<leftarrow> category_from_u8 b0;
     s \<leftarrow> subcategory_from_u8 b1;
     event_type_new c s }"

definition et_wf :: "audit_event_type \<Rightarrow> bool" where
  [inv_defs]: "et_wf t \<longleftrightarrow> subcategory_category (et_subcategory t) = et_category t"

section \<open>Operations and entries\<close>

definition OP_MAX_LEN :: nat where
  "OP_MAX_LEN = 32"

datatype audit_result = AuditSuccess | AuditFailure

fun audit_result_u8 :: "audit_result \<Rightarrow> u8" where
  "audit_result_u8 AuditSuccess = 0"
| "audit_result_u8 AuditFailure = 1"

definition audit_result_from_u8 :: "u8 \<Rightarrow> audit_result option" where
  "audit_result_from_u8 v = (if v = 0 then Some AuditSuccess else if v = 1 then Some AuditFailure else None)"

record operation =
  op_buf :: "u8 list"
  op_len :: u8

definition operation_new :: "u8 list \<Rightarrow> operation" where
  "operation_new s =
     (let len = min (length s) OP_MAX_LEN in
      \<lparr>op_buf = take len s @ replicate (OP_MAX_LEN - len) 0, op_len = of_nat len\<rparr>)"

definition op_as_bytes :: "operation \<Rightarrow> u8 list option" where
  "op_as_bytes op = slice (op_buf op) 0 (unat (op_len op))"

definition op_as_str :: "operation \<Rightarrow> u8 list option" where
  "op_as_str op = do {
     s \<leftarrow> slice (op_buf op) 0 (unat (op_len op));
     Some (if utf8_valid s then s else []) }"

record audit_entry =
  timestamp_ns :: u64
  event_type :: audit_event_type
  task_id :: u64
  resource_type :: u8
  resource_instance :: u64
  operation :: operation
  audit_result :: audit_result
  capability_id :: u64

definition SERIALIZED_SIZE :: nat where
  "SERIALIZED_SIZE = 69"

text \<open>
  The parts of the 69-byte buffer in order. The operation is copied to offset 28 and the bytes up to
  offset 60 are cleared, so an operation longer than 32 bytes would panic.
\<close>

definition serialize :: "audit_entry \<Rightarrow> u8 list option" where
  "serialize e = do {
     op \<leftarrow> op_as_bytes (operation e);
     pad \<leftarrow> usub 60 (28 + length op);
     Some (to_be_bytes 8 (timestamp_ns e) @ et_to_bytes (event_type e) @ to_be_bytes 8 (task_id e) @
       [resource_type e] @ to_be_bytes 8 (resource_instance e) @ [of_nat (length op)] @
       (op @ replicate pad 0) @ [audit_result_u8 (audit_result e)] @ to_be_bytes 8 (capability_id e)) }"

text \<open>The argument is an array of 69 bytes, so the constant ranges are inside it.\<close>

definition deserialize :: "u8 list \<Rightarrow> audit_entry option" where
  "deserialize buf = do {
     et \<leftarrow> et_from_bytes (buf ! 8) (buf ! 9);
     (let l = min (unat (buf ! 27)) OP_MAX_LEN; s = take l (drop 28 buf) in
      if utf8_valid s then do {
        r \<leftarrow> audit_result_from_u8 (buf ! 60);
        Some \<lparr>timestamp_ns = from_be_bytes (take 8 buf), event_type = et,
          task_id = from_be_bytes (take 8 (drop 10 buf)), resource_type = buf ! 18,
          resource_instance = from_be_bytes (take 8 (drop 19 buf)), operation = operation_new s,
          audit_result = r, capability_id = from_be_bytes (take 8 (drop 61 buf))\<rparr> }
      else None) }"

section \<open>The codes\<close>

lemma category_from_u8_iff: "category_from_u8 v = Some c \<longleftrightarrow> category_u8 c = v"
  by (cases c) (auto simp: category_from_u8_def)

lemma subcategory_from_u8_iff: "subcategory_from_u8 v = Some s \<longleftrightarrow> subcategory_u8 s = v"
  by (cases s) (auto simp: subcategory_from_u8_def)

lemma audit_result_from_u8_iff: "audit_result_from_u8 v = Some r \<longleftrightarrow> audit_result_u8 r = v"
  by (cases r) (auto simp: audit_result_from_u8_def)

lemma category_u8_inject [simp]: "category_u8 c = category_u8 d \<longleftrightarrow> c = d"
  by (metis category_from_u8_iff option.inject)

lemma subcategory_u8_inject [simp]: "subcategory_u8 c = subcategory_u8 d \<longleftrightarrow> c = d"
  by (metis subcategory_from_u8_iff option.inject)

lemma audit_result_u8_inject [simp]: "audit_result_u8 c = audit_result_u8 d \<longleftrightarrow> c = d"
  by (metis audit_result_from_u8_iff option.inject)

lemma et_from_bytes_iff: "et_from_bytes b0 b1 = Some t \<longleftrightarrow> et_wf t \<and> et_to_bytes t = [b0, b1]"
proof -
  obtain c s where t: "t = \<lparr>et_category = c, et_subcategory = s\<rparr>" by (cases t) auto
  have "et_from_bytes b0 b1 = Some t \<longleftrightarrow>
      category_from_u8 b0 = Some c \<and> subcategory_from_u8 b1 = Some s \<and> subcategory_category s = c"
    by (auto simp: et_from_bytes_def event_type_new_def t bind_eq_Some_conv)
  then show ?thesis by (auto simp: category_from_u8_iff subcategory_from_u8_iff et_wf_def et_to_bytes_def t)
qed

text \<open>The constant constructors, which do not go through the check of \<open>new\<close>, all pass it.\<close>

lemma event_consts_wf:
  "\<forall>t \<in> {capability_grant, capability_revoke, capability_deny, auth_success, auth_failure,
      resource_allocation, resource_exhaustion, inference_request, inference_completion,
      inference_timeout, system_boot, system_shutdown, system_watchdog, gate_allowed, gate_denied,
      gate_permissive_pass, policy_update}. et_wf t"
  by (simp add: et_wf_def event_consts_defs)

section \<open>Operations\<close>

definition op_wf :: "operation \<Rightarrow> bool" where
  [inv_defs]: "op_wf op \<longleftrightarrow> (\<exists>s. utf8_valid s \<and> op = operation_new s)"

definition op_str :: "operation \<Rightarrow> u8 list" where
  "op_str op = take (unat (op_len op)) (op_buf op)"

lemma unat_op_len: "unat (op_len (operation_new s)) = min (length s) 32"
  by (simp add: operation_new_def Let_def OP_MAX_LEN_def unat_of_nat)

lemma op_str_new [simp]: "op_str (operation_new s) = take 32 s"
  unfolding op_str_def unat_op_len by (simp add: operation_new_def Let_def OP_MAX_LEN_def min_def)

lemma length_op_buf [simp]: "length (op_buf (operation_new s)) = 32"
  by (simp add: operation_new_def Let_def OP_MAX_LEN_def)

lemma op_as_bytes_new [simp]: "op_as_bytes (operation_new s) = Some (take 32 s)"
  using op_str_new [of s] by (simp add: op_as_bytes_def slice_def unat_op_len op_str_def)

lemma operation_new_take [simp]: "operation_new (take 32 s) = operation_new s"
  by (simp add: operation_new_def Let_def OP_MAX_LEN_def min_def)

lemma operation_eq_iff: "op_wf op \<Longrightarrow> op_wf op' \<Longrightarrow> op = op' \<longleftrightarrow> op_str op = op_str op'"
  by (auto simp: op_wf_def) (metis operation_new_take)

section \<open>The encoding of an entry\<close>

definition entry_wf :: "audit_entry \<Rightarrow> bool" where
  [inv_defs]: "entry_wf e \<longleftrightarrow> et_wf (event_type e) \<and> op_wf (operation e)"

text \<open>The fields of the buffer, the operation area being one block of 32 bytes.\<close>

definition entry_fields :: "audit_entry \<Rightarrow> u8 \<Rightarrow> u8 list \<Rightarrow> u8 list" where
  "entry_fields e l area = to_be_bytes 8 (timestamp_ns e) @ et_to_bytes (event_type e) @
     to_be_bytes 8 (task_id e) @ [resource_type e] @ to_be_bytes 8 (resource_instance e) @ [l] @
     area @ [audit_result_u8 (audit_result e)] @ to_be_bytes 8 (capability_id e)"

definition op_area :: "operation \<Rightarrow> u8 list" where
  "op_area op = op_str op @ replicate (32 - length (op_str op)) 0"

lemma length_op_str: "op_wf op \<Longrightarrow> length (op_str op) \<le> 32"
  by (auto simp: op_wf_def)

lemma length_op_area [simp]: "op_wf op \<Longrightarrow> length (op_area op) = 32"
  using length_op_str [of op] by (simp add: op_area_def)

lemma serialize_wf:
  assumes "entry_wf e"
  shows "serialize e = Some (entry_fields e (of_nat (length (op_str (operation e)))) (op_area (operation e)))"
proof -
  from assms obtain s where s: "operation e = operation_new s" by (auto simp: entry_wf_def op_wf_def)
  show ?thesis by (simp add: serialize_def entry_fields_def op_area_def s)
qed

lemma length_entry_fields: "length area = 32 \<Longrightarrow> length (entry_fields e l area) = SERIALIZED_SIZE"
  by (simp add: entry_fields_def et_to_bytes_def SERIALIZED_SIZE_def)

lemma entry_fields_reads:
  assumes "length area = 32"
  shows "take 8 (entry_fields e l area) = to_be_bytes 8 (timestamp_ns e)"
    "entry_fields e l area ! 8 = category_u8 (et_category (event_type e))"
    "entry_fields e l area ! 9 = subcategory_u8 (et_subcategory (event_type e))"
    "take 8 (drop 10 (entry_fields e l area)) = to_be_bytes 8 (task_id e)"
    "entry_fields e l area ! 18 = resource_type e"
    "take 8 (drop 19 (entry_fields e l area)) = to_be_bytes 8 (resource_instance e)"
    "entry_fields e l area ! 27 = l"
    "n \<le> 32 \<Longrightarrow> take n (drop 28 (entry_fields e l area)) = take n area"
    "entry_fields e l area ! 60 = audit_result_u8 (audit_result e)"
    "take 8 (drop 61 (entry_fields e l area)) = to_be_bytes 8 (capability_id e)"
  using assms by (simp_all add: entry_fields_def et_to_bytes_def nth_append)

lemma deserialize_fields:
  assumes "length area = 32" "et_wf (event_type e)"
  shows "deserialize (entry_fields e l area) =
    (let s = take (min (unat l) 32) area in
     if utf8_valid s then Some (e\<lparr>operation := operation_new s\<rparr>) else None)"
proof -
  have "et_from_bytes (category_u8 (et_category (event_type e))) (subcategory_u8 (et_subcategory (event_type e)))
      = Some (event_type e)"
    using assms(2) by (simp add: et_from_bytes_iff et_to_bytes_def)
  moreover have "audit_result_from_u8 (audit_result_u8 (audit_result e)) = Some (audit_result e)"
    by (simp add: audit_result_from_u8_iff)
  ultimately show ?thesis
    by (simp add: deserialize_def entry_fields_reads [OF assms(1)] OP_MAX_LEN_def Let_def)
qed

lemma take_op_area:
  assumes "op_wf op"
  shows "take (min (unat (of_nat (length (op_str op)) :: u8)) 32) (op_area op) = op_str op"
proof -
  have "length (op_str op) \<le> 32" using length_op_str [OF assms] .
  moreover from this have "unat (of_nat (length (op_str op)) :: u8) = length (op_str op)" by (simp add: unat_of_nat)
  ultimately show ?thesis by (simp add: op_area_def)
qed

lemma operation_new_op_str: "op_wf op \<Longrightarrow> operation_new (op_str op) = op"
  by (auto simp: op_wf_def)

lemma deserialize_serialize:
  assumes "entry_wf e" "serialize e = Some bs"
  shows "deserialize bs = (if utf8_valid (op_str (operation e)) then Some e else None)"
proof -
  have wf: "et_wf (event_type e)" "op_wf (operation e)" using assms(1) by (auto simp: entry_wf_def)
  have "bs = entry_fields e (of_nat (length (op_str (operation e)))) (op_area (operation e))"
    using serialize_wf [OF assms(1)] assms(2) by simp
  then show ?thesis
    using deserialize_fields [OF length_op_area [OF wf(2)] wf(1)]
    by (simp add: Let_def take_op_area [OF wf(2)] operation_new_op_str [OF wf(2)])
qed

lemma length_serialize: "entry_wf e \<Longrightarrow> serialize e = Some bs \<Longrightarrow> length bs = SERIALIZED_SIZE"
  by (auto simp: serialize_wf length_entry_fields entry_wf_def)

text \<open>Two different entries never have the same encoding, not even when it does not decode.\<close>

lemma serialize_inject:
  assumes e: "entry_wf e" and f: "entry_wf f" and eq: "serialize e = serialize f"
  shows "e = f"
proof -
  have op: "op_wf (operation e)" "op_wf (operation f)" using e f by (auto simp: entry_wf_def)
  let ?b = "\<lambda>x. entry_fields x (of_nat (length (op_str (operation x)))) (op_area (operation x))"
  have b: "?b e = ?b f" using eq by (simp add: serialize_wf e f)
  note re = entry_fields_reads [OF length_op_area [OF op(1)], where e = e and l = "of_nat (length (op_str (operation e)))"]
  note rf = entry_fields_reads [OF length_op_area [OF op(2)], where e = f and l = "of_nat (length (op_str (operation f)))"]
  have "(of_nat (length (op_str (operation e))) :: u8) = of_nat (length (op_str (operation f)))"
    using re(7) rf(7) b by metis
  moreover have "op_area (operation e) = op_area (operation f)"
    using re(8) [of 32] rf(8) [of 32] b op by simp
  ultimately have "op_str (operation e) = op_str (operation f)"
    using take_op_area [OF op(1)] take_op_area [OF op(2)] by metis
  then have "operation e = operation f" using operation_eq_iff op by blast
  moreover have "event_type e = event_type f" using re(2,3) rf(2,3) b by simp
  moreover have "timestamp_ns e = timestamp_ns f" using re(1) rf(1) b by simp
  moreover have "task_id e = task_id f" using re(4) rf(4) b by simp
  moreover have "resource_type e = resource_type f" using re(5) rf(5) b by simp
  moreover have "resource_instance e = resource_instance f" using re(6) rf(6) b by simp
  moreover have "audit_result e = audit_result f" using re(9) rf(9) b by simp
  moreover have "capability_id e = capability_id f" using re(10) rf(10) b by simp
  ultimately show ?thesis by simp
qed

lemma fields_split:
  assumes "length bs = SERIALIZED_SIZE" "et_from_bytes (bs ! 8) (bs ! 9) = Some t"
    "audit_result_from_u8 (bs ! 60) = Some r"
  obtains e l area where "bs = entry_fields e l area" "length area = 32" "event_type e = t"
proof -
  from assms(1) have "length bs = 8 + 61" by (simp add: SERIALIZED_SIZE_def)
  then obtain a b1 where a: "bs = a @ b1" "length a = 8" "length b1 = 2 + 59" by (rule split_field) simp
  then obtain et b2 where et: "b1 = et @ b2" "length et = 2" "length b2 = 8 + 51" by (elim split_field) simp
  then obtain b b3 where b: "b2 = b @ b3" "length b = 8" "length b3 = Suc 50" by (elim split_field) simp
  then obtain rt b4 where rt: "b3 = rt # b4" "length b4 = 8 + 42" by (elim split_byte) simp
  then obtain c b5 where c: "b4 = c @ b5" "length c = 8" "length b5 = Suc 41" by (elim split_field) simp
  then obtain l b6 where l: "b5 = l # b6" "length b6 = 32 + 9" by (elim split_byte) simp
  then obtain p b7 where p: "b6 = p @ b7" "length p = 32" "length b7 = Suc 8" by (elim split_field) simp
  then obtain res d where d: "b7 = res # d" "length d = 8" by (elim split_byte) simp
  have bs: "bs = a @ et @ b @ [rt] @ c @ [l] @ p @ [res] @ d" by (simp add: a et b rt c l p d)
  define e where "e = \<lparr>timestamp_ns = from_be_bytes a, event_type = t, task_id = from_be_bytes b,
    resource_type = rt, resource_instance = from_be_bytes c, operation = operation_new [],
    audit_result = r, capability_id = from_be_bytes d\<rparr>"
  have "bs ! 8 = et ! 0" "bs ! 9 = et ! 1" "bs ! 60 = res"
    unfolding bs by (simp_all add: nth_append a(2) et(2) b(2) c(2) p(2) d(2))
  moreover have "et = [et ! 0, et ! 1]" using et(2) by (auto simp: numeral_2_eq_2 length_Suc_conv)
  ultimately have "et_to_bytes t = et" "audit_result_u8 r = res"
    using assms(2,3) by (simp_all add: et_from_bytes_iff audit_result_from_u8_iff)
  then have "bs = entry_fields e l p" unfolding bs by (simp add: entry_fields_def e_def a(2) b(2) c(2) d(2))
  then show ?thesis by (rule that) (simp_all add: e_def p(2))
qed

lemma entry_fields_operation [simp]: "entry_fields (e\<lparr>operation := op\<rparr>) l area = entry_fields e l area"
  by (simp add: entry_fields_def)

lemma entry_fields_around:
  assumes "length area = 32"
  shows "take 27 (entry_fields e l area) @ [k] @ area' @ drop 60 (entry_fields e l area) = entry_fields e k area'"
  using assms by (simp add: entry_fields_def et_to_bytes_def)

lemma serialize_deserialize:
  assumes "length bs = SERIALIZED_SIZE" "deserialize bs = Some e"
  defines "l \<equiv> min (unat (bs ! 27)) 32"
  shows "entry_wf e \<and>
    serialize e = Some (take 27 bs @ [of_nat l] @ (take l (drop 28 bs) @ replicate (32 - l) 0) @ drop 60 bs)"
proof -
  from assms(2) obtain t r where "et_from_bytes (bs ! 8) (bs ! 9) = Some t" "audit_result_from_u8 (bs ! 60) = Some r"
    by (auto simp: deserialize_def Let_def bind_eq_Some_conv split: if_splits)
  then obtain e0 k area where f: "bs = entry_fields e0 k area" "length area = 32" "event_type e0 = t" "et_wf t"
    by (metis assms(1) fields_split et_from_bytes_iff)
  define s where "s = take l area"
  have l: "l = min (unat k) 32" by (simp add: l_def f(1) entry_fields_reads [OF f(2)])
  have e: "utf8_valid s" "e = e0\<lparr>operation := operation_new s\<rparr>"
    using deserialize_fields [OF f(2), of e0 k] assms(2) f
    by (auto simp: Let_def s_def l split: if_splits)
  have wf: "entry_wf e" using e f by (auto simp: entry_wf_def op_wf_def)
  have len: "length s = l" by (simp add: s_def f(2) l)
  have "take 32 s = s" using len by (simp add: l)
  then have "serialize e = Some (entry_fields e0 (of_nat l) (s @ replicate (32 - l) 0))"
    using serialize_wf [OF wf] by (simp add: e(2) op_area_def len)
  moreover have "take l (drop 28 bs) = s" using entry_fields_reads(8) [OF f(2), of l] by (simp add: f(1) s_def l)
  ultimately show ?thesis
    using wf entry_fields_around [OF f(2), of e0 k "of_nat l" "s @ replicate (32 - l) 0"] by (simp add: f(1))
qed

text \<open>
  C33. Encoding an entry never panics and gives 69 bytes, and decoding them gives the entry back
  exactly when its stored operation name is valid UTF-8; an entry whose name was cut inside a
  character encodes but does not decode. In the other direction, a buffer that decodes is the
  encoding of what it decodes to, up to the bytes behind the operation name and a length byte above 32.\<close>

theorem audit_entry_codec:
  assumes "entry_wf e"
  shows "\<exists>bs. serialize e = Some bs \<and> length bs = SERIALIZED_SIZE \<and>
    deserialize bs = (if utf8_valid (op_str (operation e)) then Some e else None) \<and>
    (\<forall>f. entry_wf f \<longrightarrow> serialize f = Some bs \<longrightarrow> f = e) \<and>
    (\<forall>buf f. length buf = SERIALIZED_SIZE \<longrightarrow> deserialize buf = Some f \<longrightarrow>
       (let l = min (unat (buf ! 27)) 32 in
        serialize f = Some (take 27 buf @ [of_nat l] @ (take l (drop 28 buf) @ replicate (32 - l) 0) @ drop 60 buf)))"
proof -
  obtain bs where bs: "serialize e = Some bs" using serialize_wf [OF assms] by blast
  show ?thesis
  proof (intro exI [of _ bs] conjI allI impI)
    show "serialize e = Some bs" "length bs = SERIALIZED_SIZE"
      "deserialize bs = (if utf8_valid (op_str (operation e)) then Some e else None)"
      by (fact bs length_serialize [OF assms bs] deserialize_serialize [OF assms bs])+
  next
    fix f assume "entry_wf f" "serialize f = Some bs"
    then show "f = e" using serialize_inject [OF _ assms] bs by simp
  next
    fix buf f assume "length buf = SERIALIZED_SIZE" "deserialize buf = Some f"
    from serialize_deserialize [OF this]
    show "let l = min (unat (buf ! 27)) 32 in
      serialize f = Some (take 27 buf @ [of_nat l] @ (take l (drop 28 buf) @ replicate (32 - l) 0) @ drop 60 buf)"
      unfolding Let_def by (rule conjunct2)
  qed
qed

definition sample_entry :: "u8 list \<Rightarrow> audit_entry" where
  "sample_entry op = \<lparr>timestamp_ns = 1000, event_type = gate_denied, task_id = 7, resource_type = 2,
     resource_instance = 0x1122334455667788, operation = operation_new op, audit_result = AuditFailure,
     capability_id = 3\<rparr>"

lemma sample_entry_wf: "utf8_valid op \<Longrightarrow> entry_wf (sample_entry op)"
  by (auto simp: entry_wf_def op_wf_def et_wf_def sample_entry_def event_consts_defs)

theorem audit_entry_codec_witness:
  "entry_wf (sample_entry [0x61, 0xC3, 0xA9]) \<and>
   (\<exists>bs. serialize (sample_entry [0x61, 0xC3, 0xA9]) = Some bs \<and> deserialize bs = Some (sample_entry [0x61, 0xC3, 0xA9]))"
proof -
  have u: "utf8_valid [0x61, 0xC3, 0xA9]" by (simp add: cont_def)
  then have "utf8_valid (op_str (operation (sample_entry [0x61, 0xC3, 0xA9])))" by (simp add: sample_entry_def)
  then show ?thesis
    using audit_entry_codec [OF sample_entry_wf [OF u]] sample_entry_wf [OF u] by auto
qed

text \<open>
  \<open>Operation::new\<close> cuts a name at 32 bytes without looking at character boundaries: a valid
  33-byte name whose last character has two bytes gives an entry that encodes, does not decode,
  and reads as the empty string.\<close>

theorem long_operation_names_undecodable:
  "let name = replicate 31 0x61 @ [0xC3, 0xA9]; e = sample_entry name in
     utf8_valid name \<and> entry_wf e \<and> op_as_str (operation e) = Some [] \<and>
     (\<exists>bs. serialize e = Some bs \<and> deserialize bs = None)"
proof -
  let ?n = "replicate 31 0x61 @ [0xC3, 0xA9] :: u8 list"
  have valid: "utf8_valid (replicate n 0x61 @ xs) = utf8_valid xs" for n xs
    by (induction n) auto
  have u: "utf8_valid ?n" by (simp only: valid) (simp add: cont_def)
  have "take 32 ?n = replicate 31 0x61 @ [0xC3]" by simp
  then have nu: "\<not> utf8_valid (op_str (operation (sample_entry ?n)))"
    by (simp only: sample_entry_def audit_entry.simps op_str_new valid) simp
  note wf = sample_entry_wf [OF u]
  obtain bs where bs: "serialize (sample_entry ?n) = Some bs" using serialize_wf [OF wf] by blast
  have "deserialize bs = None" using deserialize_serialize [OF wf bs] nu by simp
  moreover have "op_as_str (operation (sample_entry ?n)) = Some []"
    using op_as_bytes_new [of ?n] nu by (simp add: op_as_str_def op_as_bytes_def op_str_def sample_entry_def slice_def split: if_splits)
  ultimately show ?thesis using u wf bs by (simp add: Let_def)
qed

end
