(* ===== verification/Audit_Chain.thy ===== *)
theory Audit_Chain
  imports Sha3 Audit_Entry
begin

text \<open>
  The integrity chain of the audit log (\<open>security/src/audit/integrity.rs\<close>) and the accumulator that
  cuts the stream of entries into sealed batches (\<open>accumulator.rs\<close>). The batch hash runs the
  incremental SHA-3 hasher of theory \<open>Sha3\<close> over the encodings of theory \<open>Audit_Entry\<close>. Sequence
  numbers and counters are 64-bit words that wrap.

  The lemmas show that the hash is the digest of the previous hash followed by the encoded
  entries, that \<open>verify_chain\<close> reports the first batch that breaks the chain, that two verified
  chains with one final hash are equal or exhibit two inputs with one digest, and that the
  accumulator loses, reorders and delays nothing.
\<close>

section \<open>The chain\<close>

definition GENESIS_HASH :: "u8 list" where
  "GENESIS_HASH = replicate SHA3_256_DIGEST_LEN 0"

record audit_batch =
  ab_previous_hash :: "u8 list"
  ab_entries :: "audit_entry list"
  ab_batch_hash :: "u8 list"
  ab_sequence :: u64

record integrity_chain =
  ic_previous_hash :: "u8 list"
  ic_next_sequence :: u64

definition chain_new :: integrity_chain where
  "chain_new = \<lparr>ic_previous_hash = GENESIS_HASH, ic_next_sequence = 0\<rparr>"

text \<open>The loop body: encode the entry and feed it to the hasher.\<close>

definition hash_entry :: "audit_entry \<Rightarrow> sha3_256_hasher \<Rightarrow> sha3_256_hasher option" where
  "hash_entry e h = do { buf \<leftarrow> serialize e; r \<leftarrow> update h buf; expect r }"

definition compute_batch_hash :: "u8 list \<Rightarrow> audit_entry list \<Rightarrow> u8 list option" where
  "compute_batch_hash previous_hash entries = do {
     r \<leftarrow> update sha3_new previous_hash;
     h \<leftarrow> expect r;
     h \<leftarrow> mfold hash_entry entries h;
     f \<leftarrow> finalize h;
     (digest, _) \<leftarrow> expect f;
     Some digest }"

definition seal_batch :: "integrity_chain \<Rightarrow> audit_entry list \<Rightarrow> (audit_batch \<times> integrity_chain) option" where
  "seal_batch c entries = do {
     hash \<leftarrow> compute_batch_hash (ic_previous_hash c) entries;
     Some (\<lparr>ab_previous_hash = ic_previous_hash c, ab_entries = entries, ab_batch_hash = hash,
              ab_sequence = ic_next_sequence c\<rparr>,
           \<lparr>ic_previous_hash = hash, ic_next_sequence = ic_next_sequence c + 1\<rparr>) }"

definition verify_batch_hash :: "audit_batch \<Rightarrow> bool option" where
  "verify_batch_hash b = do {
     h \<leftarrow> compute_batch_hash (ab_previous_hash b) (ab_entries b);
     Some (h = ab_batch_hash b) }"

text \<open>The loop from index \<open>i\<close>, with the batch before it.\<close>

fun verify_from :: "nat \<Rightarrow> audit_batch \<Rightarrow> audit_batch list \<Rightarrow> nat option option" where
  "verify_from i prev [] = Some None"
| "verify_from i prev (b # bs) =
     (if ab_previous_hash b \<noteq> ab_batch_hash prev then Some (Some i)
      else if ab_sequence b \<noteq> ab_sequence prev + 1 then Some (Some i)
      else do {
        ok \<leftarrow> verify_batch_hash b;
        (if \<not> ok then Some (Some i) else verify_from (i + 1) b bs) })"

fun verify_chain :: "audit_batch list \<Rightarrow> nat option option" where
  "verify_chain [] = Some None"
| "verify_chain (b # bs) =
     (if ab_previous_hash b \<noteq> GENESIS_HASH then Some (Some 0)
      else if ab_sequence b \<noteq> 0 then Some (Some 0)
      else do {
        ok \<leftarrow> verify_batch_hash b;
        (if \<not> ok then Some (Some 0) else verify_from 1 b bs) })"

section \<open>The hash of a batch\<close>

definition entry_bytes :: "audit_entry \<Rightarrow> u8 list" where
  "entry_bytes e = (case serialize e of Some b \<Rightarrow> b | None \<Rightarrow> [])"

definition batch_input :: "u8 list \<Rightarrow> audit_entry list \<Rightarrow> u8 list" where
  "batch_input prev es = prev @ concat (map entry_bytes es)"

abbreviation input_of :: "audit_batch \<Rightarrow> u8 list" where
  "input_of b \<equiv> batch_input (ab_previous_hash b) (ab_entries b)"

lemma serialize_entry_bytes: "entry_wf e \<Longrightarrow> serialize e = Some (entry_bytes e)"
  by (simp add: entry_bytes_def serialize_wf)

lemma length_entry_bytes: "entry_wf e \<Longrightarrow> length (entry_bytes e) = 69"
  using length_serialize [of e "entry_bytes e"] by (simp add: serialize_entry_bytes SERIALIZED_SIZE_def)

lemma entry_bytes_inject: "entry_wf e \<Longrightarrow> entry_wf f \<Longrightarrow> entry_bytes e = entry_bytes f \<Longrightarrow> e = f"
  by (rule serialize_inject) (simp_all add: serialize_entry_bytes)

lemma hash_entries_rep:
  "hasher_rep h m \<Longrightarrow> \<forall>e \<in> set es. entry_wf e \<Longrightarrow>
     \<exists>h'. mfold hash_entry es h = Some h' \<and> hasher_rep h' (m @ concat (map entry_bytes es))"
proof (induction es arbitrary: h m)
  case Nil
  then show ?case by simp
next
  case (Cons e es)
  from update_rep [OF Cons.prems(1), of "entry_bytes e"] obtain h1 where
    h1: "update h (entry_bytes e) = Some (Inr h1)" "hasher_rep h1 (m @ entry_bytes e)" by blast
  then have "hash_entry e h = Some h1" using Cons.prems(2) by (simp add: hash_entry_def serialize_entry_bytes)
  moreover from Cons.IH [OF h1(2)] Cons.prems(2) obtain h' where
    "mfold hash_entry es h1 = Some h'" "hasher_rep h' ((m @ entry_bytes e) @ concat (map entry_bytes es))" by auto
  ultimately show ?case by simp
qed

lemma compute_batch_hash_eq:
  assumes "\<forall>e \<in> set es. entry_wf e"
  shows "compute_batch_hash prev es = Some (sha3_spec (batch_input prev es))"
proof -
  from update_rep [OF hasher_rep_new, of prev] obtain h where
    h: "update sha3_new prev = Some (Inr h)" "hasher_rep h prev" by auto
  from hash_entries_rep [OF h(2) assms] obtain h' where
    h': "mfold hash_entry es h = Some h'" "hasher_rep h' (batch_input prev es)" by (auto simp: batch_input_def)
  from finalize_rep [OF h'(2)] show ?thesis using h(1) h'(1) by (auto simp: compute_batch_hash_def)
qed

lemma entries_inject:
  assumes "\<forall>e \<in> set es. entry_wf e" "\<forall>e \<in> set fs. entry_wf e"
    "concat (map entry_bytes es) = concat (map entry_bytes fs)"
  shows "es = fs"
  using assms
proof (induction es arbitrary: fs)
  case Nil
  then show ?case by (cases fs) (auto dest: length_entry_bytes)
next
  case (Cons e es)
  then obtain f fs' where fs: "fs = f # fs'" by (cases fs) (auto dest: length_entry_bytes)
  have "length (entry_bytes e) = length (entry_bytes f)" using Cons.prems fs by (simp add: length_entry_bytes)
  then have "entry_bytes e = entry_bytes f" "concat (map entry_bytes es) = concat (map entry_bytes fs')"
    using Cons.prems(3) by (simp_all add: fs)
  then show ?case
    using Cons.IH [of fs'] Cons.prems(1,2) entry_bytes_inject [of e f] by (simp add: fs)
qed

section \<open>What verification checks\<close>

definition batch_wf :: "audit_batch \<Rightarrow> bool" where
  [inv_defs]: "batch_wf b \<longleftrightarrow> length (ab_previous_hash b) = SHA3_256_DIGEST_LEN \<and>
     length (ab_batch_hash b) = SHA3_256_DIGEST_LEN \<and> (\<forall>e \<in> set (ab_entries b). entry_wf e)"

text \<open>A batch that continues a chain whose last hash is \<open>prev\<close> and whose next number is \<open>seq\<close>.\<close>

definition link_ok :: "u8 list \<Rightarrow> u64 \<Rightarrow> audit_batch \<Rightarrow> bool" where
  "link_ok prev seq b \<longleftrightarrow> ab_previous_hash b = prev \<and> ab_sequence b = seq \<and> ab_batch_hash b = sha3_spec (input_of b)"

fun first_break :: "nat \<Rightarrow> u8 list \<Rightarrow> u64 \<Rightarrow> audit_batch list \<Rightarrow> nat option" where
  "first_break i prev seq [] = None"
| "first_break i prev seq (b # bs) =
     (if link_ok prev seq b then first_break (Suc i) (ab_batch_hash b) (seq + 1) bs else Some i)"

lemma verify_batch_hash_eq: "batch_wf b \<Longrightarrow> verify_batch_hash b = Some (ab_batch_hash b = sha3_spec (input_of b))"
  by (auto simp: verify_batch_hash_def batch_wf_def compute_batch_hash_eq)

lemma verify_from_eq:
  "\<forall>b \<in> set bs. batch_wf b \<Longrightarrow>
     verify_from i p bs = Some (first_break i (ab_batch_hash p) (ab_sequence p + 1) bs)"
  by (induction i p bs rule: verify_from.induct) (auto simp: verify_batch_hash_eq link_ok_def)

lemma verify_chain_eq: "\<forall>b \<in> set bs. batch_wf b \<Longrightarrow> verify_chain bs = Some (first_break 0 GENESIS_HASH 0 bs)"
  by (cases bs) (auto simp: verify_batch_hash_eq verify_from_eq link_ok_def)

fun chain_ok :: "u8 list \<Rightarrow> u64 \<Rightarrow> audit_batch list \<Rightarrow> bool" where
  "chain_ok prev seq [] = True"
| "chain_ok prev seq (b # bs) = (link_ok prev seq b \<and> chain_ok (ab_batch_hash b) (seq + 1) bs)"

lemma first_break_None [simp]: "first_break i prev seq bs = None \<longleftrightarrow> chain_ok prev seq bs"
  by (induction bs arbitrary: i prev seq) auto

definition last_hash :: "u8 list \<Rightarrow> audit_batch list \<Rightarrow> u8 list" where
  "last_hash prev bs = (if bs = [] then prev else ab_batch_hash (last bs))"

lemma last_hash_simps [simp]: "last_hash prev [] = prev" "last_hash prev (bs @ [b]) = ab_batch_hash b"
  "last_hash prev (b # bs) = last_hash (ab_batch_hash b) bs"
  by (simp_all add: last_hash_def)

lemma chain_ok_append:
  "chain_ok prev seq (bs @ cs) \<longleftrightarrow> chain_ok prev seq bs \<and> chain_ok (last_hash prev bs) (seq + of_nat (length bs)) cs"
  by (induction bs arbitrary: prev seq) (auto simp: add.assoc)

section \<open>Tamper evidence\<close>

lemma batch_input_inject:
  assumes "length p = length q" "\<forall>e \<in> set es. entry_wf e" "\<forall>e \<in> set fs. entry_wf e"
    "batch_input p es = batch_input q fs"
  shows "p = q \<and> es = fs"
  using assms entries_inject [of es fs] by (simp add: batch_input_def)

lemma chains_agree:
  assumes "length bs = length cs" "\<forall>b \<in> set bs. batch_wf b" "\<forall>b \<in> set cs. batch_wf b"
    "chain_ok prev seq bs" "chain_ok prev seq cs" "last_hash prev bs = last_hash prev cs"
    "\<forall>i < length bs. sha3_spec (input_of (bs ! i)) = sha3_spec (input_of (cs ! i)) \<longrightarrow> input_of (bs ! i) = input_of (cs ! i)"
  shows "bs = cs"
  using assms
proof (induction bs arbitrary: cs rule: rev_induct)
  case Nil
  then show ?case by simp
next
  case (snoc b bs)
  from snoc.prems(1) obtain cs' c where cs: "cs = cs' @ [c]" "length cs' = length bs"
    by (metis length_Suc_conv_rev length_append_singleton)
  have b: "link_ok (last_hash prev bs) (seq + of_nat (length bs)) b" and ok: "chain_ok prev seq bs"
    using snoc.prems(4) by (simp_all add: chain_ok_append)
  have c: "link_ok (last_hash prev cs') (seq + of_nat (length bs)) c" and ok': "chain_ok prev seq cs'"
    using snoc.prems(5) by (simp_all add: chain_ok_append cs)
  have wf: "batch_wf b" "batch_wf c" "\<forall>b \<in> set bs. batch_wf b" "\<forall>b \<in> set cs'. batch_wf b"
    using snoc.prems(2,3) by (auto simp: cs)
  have hash: "ab_batch_hash b = ab_batch_hash c" using snoc.prems(6) by (simp add: cs)
  have at: "(bs @ [b]) ! length bs = b" "cs ! length bs = c"
    by simp (simp add: cs(1) flip: cs(2))
  have "sha3_spec (input_of b) = sha3_spec (input_of c) \<longrightarrow> input_of b = input_of c"
    using spec [OF snoc.prems(7), of "length bs"] unfolding at by simp
  moreover have "sha3_spec (input_of b) = sha3_spec (input_of c)" using b c hash unfolding link_ok_def by metis
  ultimately have "input_of b = input_of c" by blast
  then have eq: "ab_previous_hash b = ab_previous_hash c" "ab_entries b = ab_entries c"
    using batch_input_inject [of "ab_previous_hash b" "ab_previous_hash c" "ab_entries b" "ab_entries c"] wf(1,2)
    by (simp_all add: batch_wf_def)
  moreover have "bs = cs'"
  proof (rule snoc.IH [OF _ wf(3,4) ok ok'])
    show "last_hash prev bs = last_hash prev cs'" using b c eq(1) by (simp add: link_ok_def)
    show "\<forall>i < length bs. sha3_spec (input_of (bs ! i)) = sha3_spec (input_of (cs' ! i)) \<longrightarrow> input_of (bs ! i) = input_of (cs' ! i)"
      using snoc.prems(7) cs by (metis Suc_less_eq length_append_singleton less_SucI nth_append)
  qed (simp add: cs)
  moreover have "ab_sequence b = ab_sequence c" using b c by (simp add: link_ok_def)
  ultimately show ?case using hash by (simp add: cs(1))
qed

text \<open>
  C6. The log is tamper evident. \<open>verify_chain\<close> never panics; it accepts exactly the lists in which
  every batch carries the running hash, the running number and the digest of its own contents,
  and otherwise it names the first batch that does not. Two accepted logs with as many batches
  and the same final hash are the same log, unless two batches at one position have different
  contents and the same SHA-3-256 digest.\<close>

theorem audit_log_tamper_evident:
  assumes wf: "\<forall>b \<in> set bs. batch_wf b" "\<forall>b \<in> set cs. batch_wf b"
  shows "verify_chain bs = Some (first_break 0 GENESIS_HASH 0 bs) \<and>
    (verify_chain bs = Some None \<and> verify_chain cs = Some None \<and> bs \<noteq> [] \<and> length bs = length cs \<and>
       ab_batch_hash (last bs) = ab_batch_hash (last cs) \<longrightarrow>
     bs = cs \<or> (\<exists>i < length bs. input_of (bs ! i) \<noteq> input_of (cs ! i) \<and>
       sha3_256 (input_of (bs ! i)) = sha3_256 (input_of (cs ! i))))"
proof (intro conjI impI)
  show "verify_chain bs = Some (first_break 0 GENESIS_HASH 0 bs)" using verify_chain_eq [OF wf(1)] .
next
  assume a: "verify_chain bs = Some None \<and> verify_chain cs = Some None \<and> bs \<noteq> [] \<and> length bs = length cs \<and>
    ab_batch_hash (last bs) = ab_batch_hash (last cs)"
  have l: "last_hash GENESIS_HASH bs = last_hash GENESIS_HASH cs" using a by (auto simp: last_hash_def)
  have ok: "chain_ok GENESIS_HASH 0 bs" "chain_ok GENESIS_HASH 0 cs"
    using a verify_chain_eq [OF wf(1)] verify_chain_eq [OF wf(2)] by simp_all
  show "bs = cs \<or> (\<exists>i < length bs. input_of (bs ! i) \<noteq> input_of (cs ! i) \<and>
      sha3_256 (input_of (bs ! i)) = sha3_256 (input_of (cs ! i)))"
    using chains_agree [OF _ wf ok l] a by (auto simp: sha3_256_eq_spec)
qed

definition sample_batch :: audit_batch where
  "sample_batch = \<lparr>ab_previous_hash = GENESIS_HASH, ab_entries = [sample_entry [0x61]],
     ab_batch_hash = sha3_spec (batch_input GENESIS_HASH [sample_entry [0x61]]), ab_sequence = 0\<rparr>"

lemma sample_batch_wf: "batch_wf sample_batch"
  by (simp add: batch_wf_def sample_batch_def GENESIS_HASH_def sample_entry_wf)

theorem audit_log_tamper_evident_witness:
  "batch_wf sample_batch \<and> verify_chain [sample_batch] = Some None \<and>
   verify_chain [sample_batch, sample_batch] = Some (Some 1)"
proof -
  have "link_ok GENESIS_HASH 0 sample_batch" "\<not> link_ok (ab_batch_hash sample_batch) 1 sample_batch"
    by (simp_all add: link_ok_def sample_batch_def)
  then show ?thesis
    using audit_log_tamper_evident [of "[sample_batch]" "[]"] audit_log_tamper_evident [of "[sample_batch, sample_batch]" "[]"]
    by (simp add: sample_batch_wf del: verify_chain.simps)
qed

section \<open>The accumulator\<close>

definition BATCH_MAX_ENTRIES :: nat where
  "BATCH_MAX_ENTRIES = 256"

definition BATCH_TIMEOUT_NS :: u64 where
  "BATCH_TIMEOUT_NS = 1000000000"

record batch_accumulator =
  ba_pending :: "audit_entry list"
  ba_batch_opened_ns :: u64
  ba_timeout_ns :: u64
  ba_chain :: integrity_chain
  ba_batches_sealed :: u64

definition with_timeout_ns :: "u64 \<Rightarrow> batch_accumulator" where
  "with_timeout_ns t = \<lparr>ba_pending = [], ba_batch_opened_ns = 0, ba_timeout_ns = t, ba_chain = chain_new,
     ba_batches_sealed = 0\<rparr>"

definition accumulator_new :: batch_accumulator where
  "accumulator_new = with_timeout_ns BATCH_TIMEOUT_NS"

definition seal :: "batch_accumulator \<Rightarrow> (audit_batch option \<times> batch_accumulator) option" where
  "seal a = do {
     (b, c) \<leftarrow> seal_batch (ba_chain a) (ba_pending a);
     Some (Some b, a\<lparr>ba_pending := [], ba_chain := c, ba_batches_sealed := ba_batches_sealed a + 1\<rparr>) }"

definition acc_push :: "batch_accumulator \<Rightarrow> audit_entry \<Rightarrow> u64 \<Rightarrow> (audit_batch option \<times> batch_accumulator) option" where
  "acc_push a entry now_ns =
     (let a1 = (if ba_pending a = [] then a\<lparr>ba_batch_opened_ns := now_ns\<rparr> else a);
          a2 = a1\<lparr>ba_pending := ba_pending a1 @ [entry]\<rparr> in
      if length (ba_pending a2) \<ge> BATCH_MAX_ENTRIES then seal a2 else Some (None, a2))"

definition acc_tick :: "batch_accumulator \<Rightarrow> u64 \<Rightarrow> (audit_batch option \<times> batch_accumulator) option" where
  "acc_tick a now_ns =
     (if ba_pending a = [] then Some (None, a\<lparr>ba_batch_opened_ns := now_ns\<rparr>)
      else if saturating_sub now_ns (ba_batch_opened_ns a) \<ge> ba_timeout_ns a then seal a
      else Some (None, a))"

definition acc_flush :: "batch_accumulator \<Rightarrow> (audit_batch option \<times> batch_accumulator) option" where
  "acc_flush a = (if ba_pending a = [] then Some (None, a) else seal a)"

section \<open>Runs of the accumulator\<close>

datatype acc_op = AccPush audit_entry u64 | AccTick u64 | AccFlush

fun acc_step :: "acc_op \<Rightarrow> batch_accumulator \<Rightarrow> (audit_batch option \<times> batch_accumulator) option" where
  "acc_step (AccPush e now) a = acc_push a e now"
| "acc_step (AccTick now) a = acc_tick a now"
| "acc_step AccFlush a = acc_flush a"

text \<open>A step that also collects the batches that are handed out.\<close>

definition acc_exec :: "acc_op \<Rightarrow> audit_batch list \<times> batch_accumulator \<Rightarrow> (audit_batch list \<times> batch_accumulator) option" where
  "acc_exec op s = do {
     (out, a) \<leftarrow> acc_step op (snd s);
     Some (fst s @ (case out of None \<Rightarrow> [] | Some b \<Rightarrow> [b]), a) }"

fun pushed :: "acc_op \<Rightarrow> audit_entry list" where
  "pushed (AccPush e now) = [e]"
| "pushed (AccTick now) = []"
| "pushed AccFlush = []"

abbreviation all_pushed :: "acc_op list \<Rightarrow> audit_entry list" where
  "all_pushed ops \<equiv> concat (map pushed ops)"

abbreviation all_sealed :: "audit_batch list \<Rightarrow> audit_entry list" where
  "all_sealed bs \<equiv> concat (map ab_entries bs)"

definition acc_inv :: "audit_entry list \<Rightarrow> nat \<Rightarrow> audit_batch list \<times> batch_accumulator \<Rightarrow> bool" where
  [inv_defs]: "acc_inv es n s \<longleftrightarrow> (let bs = fst s; a = snd s in
     (\<forall>e \<in> set es. entry_wf e) \<and> all_sealed bs @ ba_pending a = es \<and> length (ba_pending a) \<le> n \<and>
     (\<forall>b \<in> set bs. batch_wf b \<and> ab_entries b \<noteq> [] \<and> length (ab_entries b) \<le> BATCH_MAX_ENTRIES) \<and>
     chain_ok GENESIS_HASH 0 bs \<and> ic_previous_hash (ba_chain a) = last_hash GENESIS_HASH bs \<and>
     ic_next_sequence (ba_chain a) = of_nat (length bs) \<and> ba_batches_sealed a = of_nat (length bs))"

lemma acc_inv_new: "acc_inv [] n ([], with_timeout_ns t)"
  by (simp add: acc_inv_def with_timeout_ns_def chain_new_def)

lemma acc_inv_mono: "acc_inv es n s \<Longrightarrow> n \<le> m \<Longrightarrow> acc_inv es m s"
  by (auto simp: acc_inv_def Let_def)

lemma acc_inv_opened: "acc_inv es n (bs, a\<lparr>ba_batch_opened_ns := t\<rparr>) = acc_inv es n (bs, a)"
  by (simp add: acc_inv_def)

lemma acc_inv_pending:
  "acc_inv es n (bs, a) \<Longrightarrow> entry_wf e \<Longrightarrow>
     acc_inv (es @ [e]) (Suc n) (bs, a\<lparr>ba_pending := ba_pending a @ [e]\<rparr>)"
  by (auto simp: acc_inv_def)

lemma acc_inv_seal:
  assumes inv: "acc_inv es BATCH_MAX_ENTRIES (bs, a)" and ne: "ba_pending a \<noteq> []"
  shows "\<exists>b a'. seal a = Some (Some b, a') \<and> acc_inv es 0 (bs @ [b], a') \<and>
    ba_pending a' = [] \<and> all_sealed (bs @ [b]) = es \<and> ba_batch_opened_ns a' = ba_batch_opened_ns a \<and>
    ba_timeout_ns a' = ba_timeout_ns a"
proof -
  have wf: "\<forall>e \<in> set (ba_pending a). entry_wf e" using inv by (auto simp: acc_inv_def)
  define b where "b = \<lparr>ab_previous_hash = ic_previous_hash (ba_chain a), ab_entries = ba_pending a,
    ab_batch_hash = sha3_spec (batch_input (ic_previous_hash (ba_chain a)) (ba_pending a)),
    ab_sequence = ic_next_sequence (ba_chain a)\<rparr>"
  define c where "c = \<lparr>ic_previous_hash = ab_batch_hash b, ic_next_sequence = ic_next_sequence (ba_chain a) + 1\<rparr>"
  let ?a = "a\<lparr>ba_pending := [], ba_chain := c, ba_batches_sealed := ba_batches_sealed a + 1\<rparr>"
  have "seal a = Some (Some b, ?a)"
    by (simp add: seal_def seal_batch_def compute_batch_hash_eq [OF wf] b_def c_def)
  moreover have "length (ic_previous_hash (ba_chain a)) = SHA3_256_DIGEST_LEN"
    using inv by (cases bs rule: rev_cases) (auto simp: acc_inv_def GENESIS_HASH_def batch_wf_def)
  then have "batch_wf b" using wf by (simp add: batch_wf_def b_def)
  then have "acc_inv es 0 (bs @ [b], ?a)"
    using inv ne by (auto simp: acc_inv_def b_def c_def chain_ok_append link_ok_def)
  moreover have "all_sealed (bs @ [b]) = es" using inv by (simp add: acc_inv_def b_def)
  ultimately show ?thesis by auto
qed

text \<open>Every operation keeps the invariant; what a tick does is said exactly.\<close>

lemma acc_exec_inv:
  assumes inv: "acc_inv es 255 (bs, a)" and wf: "\<forall>e \<in> set (pushed op). entry_wf e"
  shows "\<exists>s'. acc_exec op (bs, a) = Some s' \<and> acc_inv (es @ pushed op) 255 s'"
proof -
  have weak: "acc_inv es BATCH_MAX_ENTRIES (bs, a)"
    using acc_inv_mono [OF inv] by (simp add: BATCH_MAX_ENTRIES_def)
  have sealed: "\<exists>s'. (do { (out, a') \<leftarrow> seal a0; Some (bs @ (case out of None \<Rightarrow> [] | Some b \<Rightarrow> [b]), a') }) = Some s' \<and>
      acc_inv es0 255 s'" if "acc_inv es0 BATCH_MAX_ENTRIES (bs, a0)" "ba_pending a0 \<noteq> []" for a0 es0
    using acc_inv_seal [OF that] acc_inv_mono [of es0 0 _ 255] by auto
  show ?thesis
  proof (cases op)
    case (AccPush e now)
    let ?a1 = "if ba_pending a = [] then a\<lparr>ba_batch_opened_ns := now\<rparr> else a"
    let ?a2 = "?a1\<lparr>ba_pending := ba_pending ?a1 @ [e]\<rparr>"
    have i: "acc_inv (es @ [e]) BATCH_MAX_ENTRIES (bs, ?a2)"
      using acc_inv_pending [of es 255 bs ?a1 e] inv wf AccPush by (simp add: acc_inv_opened BATCH_MAX_ENTRIES_def)
    show ?thesis
    proof (cases "length (ba_pending ?a2) \<ge> BATCH_MAX_ENTRIES")
      case True
      then show ?thesis using sealed [OF i] AccPush by (simp add: acc_exec_def acc_push_def Let_def)
    next
      case False
      then have "acc_inv (es @ [e]) 255 (bs, ?a2)" using i by (simp add: acc_inv_def BATCH_MAX_ENTRIES_def)
      with False show ?thesis using AccPush by (simp add: acc_exec_def acc_push_def Let_def)
    qed
  next
    case (AccTick now)
    then show ?thesis using inv sealed [OF weak] by (auto simp: acc_exec_def acc_tick_def acc_inv_opened)
  next
    case AccFlush
    then show ?thesis using inv sealed [OF weak] by (auto simp: acc_exec_def acc_flush_def)
  qed
qed

lemma acc_exec_inv_state:
  "acc_inv es 255 s \<Longrightarrow> \<forall>e \<in> set (pushed op). entry_wf e \<Longrightarrow>
     \<exists>s'. acc_exec op s = Some s' \<and> acc_inv (es @ pushed op) 255 s'"
  using acc_exec_inv [of es "fst s" "snd s" op] by simp

lemma acc_run_inv:
  "acc_inv es 255 s \<Longrightarrow> \<forall>e \<in> set (all_pushed ops). entry_wf e \<Longrightarrow>
     \<exists>s'. mfold acc_exec ops s = Some s' \<and> acc_inv (es @ all_pushed ops) 255 s'"
proof (induction ops arbitrary: es s)
  case Nil
  then show ?case by simp
next
  case (Cons op ops)
  from acc_exec_inv_state [OF Cons.prems(1), of op] Cons.prems(2) obtain s1 where
    s1: "acc_exec op s = Some s1" "acc_inv (es @ pushed op) 255 s1" by auto
  from Cons.IH [OF s1(2)] Cons.prems(2) s1(1) show ?case by simp
qed

text \<open>
  C25. The accumulator loses and reorders nothing. After any sequence of pushes, ticks and flushes,
  which never panics, the entries of the batches it has handed out followed by its pending
  entries are exactly the pushed entries in order; every batch has 1 to 256 entries, fewer
  than 256 are pending, and the batches pass \<open>verify_chain\<close>.\<close>

theorem accumulator_seals_everything:
  assumes "\<forall>e \<in> set (all_pushed ops). entry_wf e"
  shows "\<exists>bs a. mfold acc_exec ops ([], with_timeout_ns t) = Some (bs, a) \<and>
    concat (map ab_entries bs) @ ba_pending a = all_pushed ops \<and>
    (\<forall>b \<in> set bs. ab_entries b \<noteq> [] \<and> length (ab_entries b) \<le> 256) \<and> length (ba_pending a) < 256 \<and>
    ba_batches_sealed a = of_nat (length bs) \<and> verify_chain bs = Some None"
proof -
  from acc_run_inv [OF acc_inv_new assms, of t] obtain bs a where
    r: "mfold acc_exec ops ([], with_timeout_ns t) = Some (bs, a)" "acc_inv (all_pushed ops) 255 (bs, a)" by auto
  have "verify_chain bs = Some None"
    using r(2) verify_chain_eq [of bs] by (simp add: acc_inv_def)
  then show ?thesis using r by (auto simp: acc_inv_def BATCH_MAX_ENTRIES_def)
qed

theorem accumulator_seals_everything_witness:
  "\<exists>bs a. mfold acc_exec [AccPush (sample_entry [0x61]) 5, AccTick 6, AccPush (sample_entry [0x62]) 7, AccFlush]
       ([], with_timeout_ns 10) = Some (bs, a) \<and>
     concat (map ab_entries bs) @ ba_pending a = [sample_entry [0x61], sample_entry [0x62]] \<and> verify_chain bs = Some None"
  using accumulator_seals_everything [of "[AccPush (sample_entry [0x61]) 5, AccTick 6, AccPush (sample_entry [0x62]) 7, AccFlush]" 10]
  by (simp add: sample_entry_wf del: mfold.simps) blast

section \<open>No entry waits longer than the timeout\<close>

fun op_times :: "acc_op \<Rightarrow> u64 list" where
  "op_times (AccPush e now) = [now]"
| "op_times (AccTick now) = [now]"
| "op_times AccFlush = []"

lemma seal_SomeD:
  "seal a = Some (out, a') \<Longrightarrow> ba_pending a' = [] \<and> ba_timeout_ns a' = ba_timeout_ns a \<and>
     (\<exists>b. out = Some b \<and> ab_entries b = ba_pending a)"
  by (auto simp: seal_def seal_batch_def bind_eq_Some_conv)

lemma acc_exec_cases:
  assumes "acc_exec op (bs, a) = Some (bs', a')"
  shows "ba_timeout_ns a' = ba_timeout_ns a \<and>
    ((bs' = bs \<and> ba_pending a' = ba_pending a @ pushed op \<and>
       (ba_pending a \<noteq> [] \<longrightarrow> ba_batch_opened_ns a' = ba_batch_opened_ns a) \<and>
       (ba_pending a = [] \<and> ba_pending a' \<noteq> [] \<longrightarrow> ba_batch_opened_ns a' \<in> set (op_times op))) \<or>
     (\<exists>b. bs' = bs @ [b] \<and> ab_entries b = ba_pending a @ pushed op \<and> ba_pending a' = []))"
proof (cases op)
  case (AccPush e now)
  then show ?thesis using assms
    by (auto simp: acc_exec_def acc_push_def Let_def bind_eq_Some_conv split: if_splits dest!: seal_SomeD)
next
  case (AccTick now)
  then show ?thesis using assms
    by (auto simp: acc_exec_def acc_tick_def bind_eq_Some_conv split: if_splits dest!: seal_SomeD)
next
  case AccFlush
  then show ?thesis using assms
    by (auto simp: acc_exec_def acc_flush_def bind_eq_Some_conv split: if_splits dest!: seal_SomeD)
qed

text \<open>While entry number \<open>k\<close> is not sealed, the open batch was opened no later than \<open>t\<close>.\<close>

definition opened_by :: "nat \<Rightarrow> u64 \<Rightarrow> u64 \<Rightarrow> audit_batch list \<times> batch_accumulator \<Rightarrow> bool" where
  "opened_by k t timeout s \<longleftrightarrow> ba_timeout_ns (snd s) = timeout \<and>
     k < length (all_sealed (fst s) @ ba_pending (snd s)) \<and>
     (length (all_sealed (fst s)) \<le> k \<longrightarrow> ba_batch_opened_ns (snd s) \<le> t)"

lemma opened_by_exec:
  assumes "opened_by k t timeout s" "acc_exec op s = Some s'"
  shows "opened_by k t timeout s'"
proof -
  have o: "ba_timeout_ns (snd s) = timeout" "k < length (all_sealed (fst s)) + length (ba_pending (snd s))"
    "length (all_sealed (fst s)) \<le> k \<longrightarrow> ba_batch_opened_ns (snd s) \<le> t"
    using assms(1) by (simp_all add: opened_by_def)
  then have "length (all_sealed (fst s)) \<le> k \<longrightarrow> ba_pending (snd s) \<noteq> []" by auto
  moreover have "acc_exec op (fst s, snd s) = Some (fst s', snd s')" using assms(2) by simp
  note acc_exec_cases [OF this]
  ultimately show ?thesis
    unfolding opened_by_def using o by (elim disjE exE conjE) auto
qed

lemma opened_by_run: "opened_by k t timeout s \<Longrightarrow> mfold acc_exec ops s = Some s' \<Longrightarrow> opened_by k t timeout s'"
  by (induction ops arbitrary: s) (auto simp: bind_eq_Some_conv dest: opened_by_exec)

lemma acc_inv_split: "acc_inv es n s \<Longrightarrow> all_sealed (fst s) @ ba_pending (snd s) = es"
  by (simp add: acc_inv_def Let_def)

lemma opened_by_push:
  assumes "acc_inv es n s" "acc_exec (AccPush e t) s = Some s'"
    "ba_pending (snd s) \<noteq> [] \<longrightarrow> ba_batch_opened_ns (snd s) \<le> t" "ba_timeout_ns (snd s) = timeout"
  shows "opened_by (length es) t timeout s'"
proof -
  have len: "length (all_sealed (fst s)) + length (ba_pending (snd s)) = length es"
    using arg_cong [OF acc_inv_split [OF assms(1)], of length] by simp
  have "acc_exec (AccPush e t) (fst s, snd s) = Some (fst s', snd s')" using assms(2) by simp
  note acc_exec_cases [OF this]
  then show ?thesis
    unfolding opened_by_def using assms(3,4) len by (elim disjE exE conjE; cases "ba_pending (snd s) = []") auto
qed

lemma opened_times_run:
  "mfold acc_exec ops s = Some s' \<Longrightarrow> \<forall>\<tau> \<in> set (concat (map op_times ops)). \<tau> \<le> t \<Longrightarrow>
     ba_pending (snd s) \<noteq> [] \<longrightarrow> ba_batch_opened_ns (snd s) \<le> t \<Longrightarrow>
     (ba_pending (snd s') \<noteq> [] \<longrightarrow> ba_batch_opened_ns (snd s') \<le> t) \<and> ba_timeout_ns (snd s') = ba_timeout_ns (snd s)"
proof (induction ops arbitrary: s)
  case Nil
  then show ?case by simp
next
  case (Cons op ops)
  from Cons.prems(1) obtain s1 where s1: "acc_exec op s = Some s1" "mfold acc_exec ops s1 = Some s'"
    by (auto simp: bind_eq_Some_conv)
  have c: "ba_timeout_ns (snd s1) = ba_timeout_ns (snd s)"
    "ba_pending (snd s1) \<noteq> [] \<longrightarrow> ba_batch_opened_ns (snd s1) \<le> t"
    using acc_exec_cases [of op "fst s" "snd s" "fst s1" "snd s1"] s1(1) Cons.prems(2,3) by auto
  from Cons.IH [OF s1(2) _ c(2)] Cons.prems(2) c(1) show ?case by simp
qed

lemma tick_seals_waiting:
  assumes o: "opened_by k t timeout s" and x: "acc_exec (AccTick t') s = Some s'"
    and late: "t \<le> t'" "timeout \<le> t' - t"
  shows "k < length (all_sealed (fst s'))"
proof (rule ccontr)
  assume "\<not> k < length (all_sealed (fst s'))"
  then have k: "length (all_sealed (fst s')) \<le> k" by simp
  have p: "ba_pending (snd s') \<noteq> []" using opened_by_exec [OF o x] k by (auto simp: opened_by_def)
  have "length (all_sealed (fst s)) \<le> k"
    using acc_exec_cases [of "AccTick t'" "fst s" "snd s" "fst s'" "snd s'"] x k by auto
  then have w: "ba_pending (snd s) \<noteq> []" "ba_batch_opened_ns (snd s) \<le> t" "ba_timeout_ns (snd s) = timeout"
    using o by (auto simp: opened_by_def)
  have "ba_batch_opened_ns (snd s) \<le> t'" using w(2) late(1) by (rule order_trans)
  moreover from this have "t' - t \<le> t' - ba_batch_opened_ns (snd s)"
    using w(2) late(1) by (simp add: word_le_nat_alt unat_sub)
  ultimately have "timeout \<le> saturating_sub t' (ba_batch_opened_ns (snd s))"
    using late(2) by (auto simp: saturating_sub_def)
  then have "\<exists>out. seal (snd s) = Some (out, snd s')"
    using x w by (auto simp: acc_exec_def acc_tick_def bind_eq_Some_conv)
  then show False using p seal_SomeD by blast
qed

text \<open>
  No entry waits longer than the timeout. With a clock that does not run backwards before the
  push of an entry at time \<open>t\<close>, a later tick at a time at least \<open>timeout\<close> after \<open>t\<close> leaves the entry
  sealed in a batch, whatever pushes, ticks and flushes came in between.\<close>

theorem accumulator_timeout_respected:
  assumes wf: "\<forall>e \<in> set (all_pushed (ops1 @ [AccPush e t] @ ops2)). entry_wf e"
    and clock: "\<forall>\<tau> \<in> set (concat (map op_times ops1)). \<tau> \<le> t"
    and late: "t \<le> t'" "timeout \<le> t' - t"
  shows "\<exists>bs a. mfold acc_exec (ops1 @ [AccPush e t] @ ops2 @ [AccTick t']) ([], with_timeout_ns timeout) = Some (bs, a) \<and>
    (let k = length (all_pushed ops1) in
     k < length (concat (map ab_entries bs)) \<and> concat (map ab_entries bs) ! k = e)"
proof -
  let ?k = "length (all_pushed ops1)" and ?s0 = "([], with_timeout_ns timeout) :: audit_batch list \<times> batch_accumulator"
  from acc_run_inv [OF acc_inv_new, of ops1 timeout] wf obtain s1 where
    s1: "mfold acc_exec ops1 ?s0 = Some s1" "acc_inv (all_pushed ops1) 255 s1" by auto
  have o1: "ba_pending (snd s1) \<noteq> [] \<longrightarrow> ba_batch_opened_ns (snd s1) \<le> t" "ba_timeout_ns (snd s1) = timeout"
    using opened_times_run [OF s1(1) clock] by (simp_all add: with_timeout_ns_def)
  from acc_exec_inv_state [OF s1(2), of "AccPush e t"] wf obtain s2 where
    s2: "acc_exec (AccPush e t) s1 = Some s2" "acc_inv (all_pushed ops1 @ [e]) 255 s2" by auto
  have "opened_by ?k t timeout s2" using opened_by_push [OF s1(2) s2(1) o1] .
  moreover from acc_run_inv [OF s2(2), of ops2] wf obtain s3 where
    s3: "mfold acc_exec ops2 s2 = Some s3" "acc_inv (all_pushed ops1 @ [e] @ all_pushed ops2) 255 s3" by auto
  ultimately have o3: "opened_by ?k t timeout s3" using opened_by_run by blast
  from acc_exec_inv_state [OF s3(2), of "AccTick t'"] obtain s4 where
    s4: "acc_exec (AccTick t') s3 = Some s4" "acc_inv (all_pushed ops1 @ [e] @ all_pushed ops2) 255 s4" by auto
  have run: "mfold acc_exec (ops1 @ [AccPush e t] @ ops2 @ [AccTick t']) ?s0 = Some s4"
    using s1(1) s2(1) s3(1) s4(1) by (simp add: mfold_append)
  have split: "all_sealed (fst s4) @ ba_pending (snd s4) = all_pushed ops1 @ e # all_pushed ops2"
    using acc_inv_split [OF s4(2)] by simp
  have "?k < length (all_sealed (fst s4))" using tick_seals_waiting [OF o3 s4(1) late] .
  moreover have "all_sealed (fst s4) ! ?k = e"
    using arg_cong [OF split, of "\<lambda>xs. xs ! ?k"] calculation by (simp add: nth_append)
  ultimately show ?thesis using run by (intro exI [of _ "fst s4"] exI [of _ "snd s4"]) (simp add: Let_def)
qed

theorem accumulator_timeout_respected_witness:
  "\<exists>bs a. mfold acc_exec ([AccTick 1] @ [AccPush (sample_entry [0x61]) 5] @ [AccPush (sample_entry [0x62]) 7] @ [AccTick 15])
       ([], with_timeout_ns 10) = Some (bs, a) \<and>
     (let k = 0 in k < length (concat (map ab_entries bs)) \<and> concat (map ab_entries bs) ! k = sample_entry [0x61])"
  using accumulator_timeout_respected [of "[AccTick 1]" "sample_entry [0x61]" 5 "[AccPush (sample_entry [0x62]) 7]" 15 10]
  by (simp add: sample_entry_wf del: mfold.simps)

end
