(* ===== verification/Audit_Export.thy ===== *)
theory Audit_Export
  imports Audit_Chain "HOL-Library.Multiset"
begin

text \<open>
  What happens to sealed audit batches (\<open>security/src/audit/batch_signing.rs\<close>, \<open>ipc_export.rs\<close> and
  \<open>retention.rs\<close>): the queue of batches waiting for their ML-DSA signature, the 92-byte header a
  batch is exported with, and the pruning of old batches.
\<close>

section \<open>Signed batches\<close>

definition ML_DSA_65_SIG_SIZE :: nat where
  "ML_DSA_65_SIG_SIZE = 3309"

record signed_audit_batch =
  sb_batch :: audit_batch
  sb_signature :: "u8 list"
  sb_is_signed :: bool
  sb_signer_key_id :: "u8 list"

definition signed_new :: "audit_batch \<Rightarrow> signed_audit_batch" where
  "signed_new b = \<lparr>sb_batch = b, sb_signature = replicate ML_DSA_65_SIG_SIZE 0, sb_is_signed = False,
     sb_signer_key_id = replicate 16 0\<rparr>"

definition signing_input :: "signed_audit_batch \<Rightarrow> u8 list option" where
  "signing_input sb = do {
     r \<leftarrow> update sha3_new (ab_batch_hash (sb_batch sb));
     h \<leftarrow> expect r;
     r \<leftarrow> update h (to_be_bytes 8 (ab_sequence (sb_batch sb)));
     h \<leftarrow> expect r;
     f \<leftarrow> finalize h;
     (digest, _) \<leftarrow> expect f;
     Some digest }"

definition set_signature :: "signed_audit_batch \<Rightarrow> u8 list \<Rightarrow> u8 list \<Rightarrow> bool \<times> signed_audit_batch" where
  "set_signature sb sig key_id =
     (if length sig \<noteq> ML_DSA_65_SIG_SIZE then (False, sb)
      else (True, sb\<lparr>sb_signature := sig, sb_signer_key_id := key_id, sb_is_signed := True\<rparr>))"

definition verify_signing_input :: "signed_audit_batch \<Rightarrow> bool option" where
  "verify_signing_input sb = do {
     expected \<leftarrow> signing_input sb;
     r \<leftarrow> update sha3_new (ab_batch_hash (sb_batch sb));
     h \<leftarrow> expect r;
     r \<leftarrow> update h (to_be_bytes 8 (ab_sequence (sb_batch sb)));
     h \<leftarrow> expect r;
     f \<leftarrow> finalize h;
     (digest, _) \<leftarrow> expect f;
     Some (digest = expected) }"

section \<open>The signing queue\<close>

datatype batch_signing_error = SigningQueueFull | NoPending | InvalidSignatureSize

definition MAX_PENDING :: nat where
  "MAX_PENDING = 16"

record signing_queue =
  sq_pending :: "signed_audit_batch option list"
  sq_pending_count :: nat
  sq_total_signed :: u64
  sq_total_failures :: u64

definition signing_queue_new :: signing_queue where
  "signing_queue_new = \<lparr>sq_pending = replicate MAX_PENDING None, sq_pending_count = 0, sq_total_signed = 0,
     sq_total_failures = 0\<rparr>"

definition sq_enqueue :: "signing_queue \<Rightarrow> audit_batch \<Rightarrow> (batch_signing_error, signing_queue) result" where
  "sq_enqueue q b =
     (if sq_pending_count q \<ge> MAX_PENDING then Inl SigningQueueFull
      else case position (\<lambda>s. s = None) (sq_pending q) of
        Some i \<Rightarrow> Inr (q\<lparr>sq_pending := (sq_pending q)[i := Some (signed_new b)],
                       sq_pending_count := sq_pending_count q + 1\<rparr>)
      | None \<Rightarrow> Inl SigningQueueFull)"

definition unsigned_slot :: "signed_audit_batch option \<Rightarrow> bool" where
  "unsigned_slot s = (case s of Some sb \<Rightarrow> \<not> sb_is_signed sb | None \<Rightarrow> False)"

definition sign_next ::
  "signing_queue \<Rightarrow> u8 list \<Rightarrow> u8 list \<Rightarrow> ((batch_signing_error, signed_audit_batch) result \<times> signing_queue) option" where
  "sign_next q sig key_id = (case position unsigned_slot (sq_pending q) of
     None \<Rightarrow> Some (Inl NoPending, q)
   | Some i \<Rightarrow> (case set_signature (the (sq_pending q ! i)) sig key_id of (ok, sb) \<Rightarrow>
       if \<not> ok then Some (Inl InvalidSignatureSize,
         q\<lparr>sq_pending := (sq_pending q)[i := Some sb], sq_total_failures := sq_total_failures q + 1\<rparr>)
       else do {
         c \<leftarrow> usub (sq_pending_count q) 1;
         Some (Inr sb, q\<lparr>sq_pending := (sq_pending q)[i := None], sq_pending_count := c,
           sq_total_signed := sq_total_signed q + 1\<rparr>) }))"

section \<open>The export header\<close>

definition BATCH_HEADER_SIZE :: nat where
  "BATCH_HEADER_SIZE = 92"

definition WIRE_VERSION :: u8 where
  "WIRE_VERSION = 1"

text \<open>The buffer after the header is written; \<^term>\<open>None\<close> when it is too small.\<close>

definition serialize_batch_header :: "signed_audit_batch \<Rightarrow> u8 list \<Rightarrow> u8 list option" where
  "serialize_batch_header sb buf =
     (if length buf < BATCH_HEADER_SIZE then None
      else Some ([WIRE_VERSION] @ to_be_bytes 8 (ab_sequence (sb_batch sb)) @ ab_batch_hash (sb_batch sb) @
        ab_previous_hash (sb_batch sb) @
        to_be_bytes 2 (of_nat (min (length (ab_entries (sb_batch sb))) 65535) :: u16) @
        [if sb_is_signed sb then 1 else 0] @ sb_signer_key_id sb @ drop BATCH_HEADER_SIZE buf))"

record batch_header_info =
  bh_sequence :: u64
  bh_batch_hash :: "u8 list"
  bh_previous_hash :: "u8 list"
  bh_entry_count :: u16
  bh_is_signed :: bool
  bh_signer_key_id :: "u8 list"

definition deserialize_batch_header :: "u8 list \<Rightarrow> batch_header_info option" where
  "deserialize_batch_header buf =
     (if length buf < BATCH_HEADER_SIZE then None
      else if buf ! 0 \<noteq> WIRE_VERSION then None
      else Some \<lparr>bh_sequence = from_be_bytes (take 8 (drop 1 buf)), bh_batch_hash = take 32 (drop 9 buf),
        bh_previous_hash = take 32 (drop 41 buf), bh_entry_count = from_be_bytes (take 2 (drop 73 buf)),
        bh_is_signed = (buf ! 75 \<noteq> 0), bh_signer_key_id = take 16 (drop 76 buf)\<rparr>)"

record audit_export_stats =
  batches_exported :: u64
  bytes_exported :: u64
  export_failures :: u64

definition record_success :: "audit_export_stats \<Rightarrow> u64 \<Rightarrow> audit_export_stats" where
  "record_success s bytes = s\<lparr>batches_exported := batches_exported s + 1, bytes_exported := bytes_exported s + bytes\<rparr>"

definition record_failure :: "audit_export_stats \<Rightarrow> audit_export_stats" where
  "record_failure s = s\<lparr>export_failures := export_failures s + 1\<rparr>"

section \<open>Retention\<close>

definition NS_PER_DAY :: u64 where
  "NS_PER_DAY = 86400000000000"

datatype deployment_class = Edge | Datacenter | SafetyCritical

fun retention_days :: "deployment_class \<Rightarrow> u32" where
  "retention_days Edge = 7"
| "retention_days Datacenter = 90"
| "retention_days SafetyCritical = 365"

definition class_retention_ns :: "deployment_class \<Rightarrow> u64" where
  "class_retention_ns d = ucast (retention_days d) * NS_PER_DAY"

record retention_policy =
  rp_deployment :: deployment_class
  rp_retention_ns :: u64
  rp_max_batches :: u64

definition for_deployment :: "deployment_class \<Rightarrow> retention_policy" where
  "for_deployment d = \<lparr>rp_deployment = d, rp_retention_ns = class_retention_ns d, rp_max_batches = 0\<rparr>"

definition with_retention_days :: "retention_policy \<Rightarrow> u32 \<Rightarrow> retention_policy" where
  "with_retention_days p days = p\<lparr>rp_retention_ns := ucast days * NS_PER_DAY\<rparr>"

definition with_max_batches :: "retention_policy \<Rightarrow> u64 \<Rightarrow> retention_policy" where
  "with_max_batches p n = p\<lparr>rp_max_batches := n\<rparr>"

definition should_retain :: "retention_policy \<Rightarrow> u64 \<Rightarrow> u64 \<Rightarrow> bool" where
  "should_retain p ts now_ns \<longleftrightarrow> saturating_sub now_ns ts < rp_retention_ns p"

fun expired_prefix :: "retention_policy \<Rightarrow> u64 \<Rightarrow> u64 list \<Rightarrow> nat" where
  "expired_prefix p now_ns [] = 0"
| "expired_prefix p now_ns (ts # tss) = (if \<not> should_retain p ts now_ns then Suc (expired_prefix p now_ns tss) else 0)"

definition batches_to_prune :: "retention_policy \<Rightarrow> u64 list \<Rightarrow> u64 \<Rightarrow> u64 \<Rightarrow> nat" where
  "batches_to_prune p timestamps now_ns total_count =
     (let n = expired_prefix p now_ns timestamps;
          excess = unat (total_count - rp_max_batches p);
          n' = (if rp_max_batches p > 0 \<and> total_count > rp_max_batches p \<and> excess > n then excess else n) in
      min n' (length timestamps))"

record retention_stats =
  total_pruned :: u64
  bytes_reclaimed :: u64
  last_prune_ns :: u64

definition record_prune :: "retention_stats \<Rightarrow> u64 \<Rightarrow> u64 \<Rightarrow> u64 \<Rightarrow> retention_stats" where
  "record_prune s batches bytes now_ns =
     \<lparr>total_pruned = total_pruned s + batches, bytes_reclaimed = bytes_reclaimed s + bytes, last_prune_ns = now_ns\<rparr>"

section \<open>The signing input\<close>

lemma signing_input_eq:
  "signing_input sb = Some (sha3_spec (ab_batch_hash (sb_batch sb) @ to_be_bytes 8 (ab_sequence (sb_batch sb))))"
proof -
  let ?h = "ab_batch_hash (sb_batch sb)" and ?s = "to_be_bytes 8 (ab_sequence (sb_batch sb))"
  from update_rep [OF hasher_rep_new, of ?h] obtain h1 where
    h1: "update sha3_new ?h = Some (Inr h1)" "hasher_rep h1 ?h" by auto
  from update_rep [OF h1(2), of ?s] obtain h2 where h2: "update h1 ?s = Some (Inr h2)" "hasher_rep h2 (?h @ ?s)" by auto
  from finalize_rep [OF h2(2)] h1(1) h2(1) show ?thesis by (auto simp: signing_input_def)
qed

lemma verify_signing_input_always: "verify_signing_input sb = Some True"
proof -
  have "verify_signing_input sb = do { e \<leftarrow> signing_input sb; d \<leftarrow> signing_input sb; Some (d = e) }"
    by (simp add: verify_signing_input_def signing_input_def Option.bind_assoc split_def)
  then show ?thesis by (simp add: signing_input_eq)
qed

text \<open>
  The signing input of a batch binds its hash and its number: it is the SHA-3-256 digest of the
  hash followed by the eight bytes of the number, so two batches with the same signing input
  have the same hash and number or exhibit two 40-byte strings with one digest. The check
  \<open>verify_signing_input\<close> compares the derivation with itself and accepts every batch, whatever
  signature, key or flag it carries.\<close>

theorem signing_input_binds_batch:
  assumes "length (ab_batch_hash (sb_batch x)) = 32" "length (ab_batch_hash (sb_batch y)) = 32"
  defines "inp \<equiv> \<lambda>sb. ab_batch_hash (sb_batch sb) @ to_be_bytes 8 (ab_sequence (sb_batch sb))"
  shows "signing_input x = sha3_256 (inp x) \<and>
    (signing_input x = signing_input y \<longrightarrow>
       (ab_batch_hash (sb_batch x) = ab_batch_hash (sb_batch y) \<and> ab_sequence (sb_batch x) = ab_sequence (sb_batch y)) \<or>
       (inp x \<noteq> inp y \<and> sha3_256 (inp x) = sha3_256 (inp y))) \<and>
    verify_signing_input x = Some True"
proof -
  have "inp x = inp y \<longleftrightarrow>
      ab_batch_hash (sb_batch x) = ab_batch_hash (sb_batch y) \<and> ab_sequence (sb_batch x) = ab_sequence (sb_batch y)"
    using assms(1,2) by (simp add: inp_def)
  then show ?thesis
    by (auto simp: signing_input_eq sha3_256_eq_spec inp_def verify_signing_input_always)
qed

theorem signing_input_binds_batch_witness:
  "length (ab_batch_hash (sb_batch (signed_new sample_batch))) = 32 \<and> verify_signing_input (signed_new sample_batch) = Some True"
proof -
  have "length (ab_batch_hash (sb_batch (signed_new sample_batch))) = 32"
    using sample_batch_wf by (simp add: signed_new_def batch_wf_def SHA3_256_DIGEST_LEN_def)
  with signing_input_binds_batch [OF this this] show ?thesis by simp
qed

section \<open>The signing queue loses nothing\<close>

lemma mset_flatten_None:
  "i < length xs \<Longrightarrow> xs ! i = None \<Longrightarrow> mset (flatten_opt (xs[i := Some v])) = add_mset v (mset (flatten_opt xs))"
  using id_take_nth_drop [of i xs] by (simp add: upd_conv_take_nth_drop) (metis flatten_opt_append flatten_opt_simps(2)
      mset_append union_mset_add_mset_right)

lemma mset_flatten_Some:
  assumes "i < length xs" "xs ! i = Some u"
  shows "mset (flatten_opt xs) = add_mset u (mset (flatten_opt (xs[i := None])))"
    "mset (flatten_opt (xs[i := Some v])) = add_mset v (mset (flatten_opt (xs[i := None])))"
proof -
  have "flatten_opt xs = flatten_opt (take i xs @ Some u # drop (Suc i) xs)"
    using id_take_nth_drop [OF assms(1)] assms(2) by simp
  then show "mset (flatten_opt xs) = add_mset u (mset (flatten_opt (xs[i := None])))"
    using assms(1) by (simp add: upd_conv_take_nth_drop)
  show "mset (flatten_opt (xs[i := Some v])) = add_mset v (mset (flatten_opt (xs[i := None])))"
    using assms(1) by (simp add: upd_conv_take_nth_drop)
qed

definition sq_inv :: "signing_queue \<Rightarrow> bool" where
  [inv_defs]: "sq_inv q \<longleftrightarrow> length (sq_pending q) = MAX_PENDING \<and>
     sq_pending_count q = length (flatten_opt (sq_pending q)) \<and>
     (\<forall>sb \<in> set (flatten_opt (sq_pending q)). \<not> sb_is_signed sb)"

definition sq_waiting :: "signing_queue \<Rightarrow> audit_batch multiset" where
  "sq_waiting q = image_mset sb_batch (mset (flatten_opt (sq_pending q)))"

lemma sq_inv_new: "sq_inv signing_queue_new \<and> sq_waiting signing_queue_new = {#}"
  by (simp add: sq_inv_def signing_queue_new_def sq_waiting_def)

lemma enqueue_step:
  assumes inv: "sq_inv q"
  shows "if size (sq_waiting q) < 16 then \<exists>q'. sq_enqueue q b = Inr q' \<and> sq_inv q' \<and> sq_waiting q' = add_mset b (sq_waiting q) \<and>
      sq_total_signed q' = sq_total_signed q else sq_enqueue q b = Inl SigningQueueFull"
proof -
  have n: "size (sq_waiting q) = sq_pending_count q" "length (sq_pending q) = 16"
    "sq_pending_count q = length (flatten_opt (sq_pending q))"
    using inv by (simp_all add: sq_inv_def sq_waiting_def MAX_PENDING_def)
  show ?thesis
  proof (cases "sq_pending_count q < 16")
    case True
    then have "None \<in> set (sq_pending q)" using flatten_full [of "sq_pending q"] n by auto
    then obtain i where i: "position (\<lambda>s. s = None) (sq_pending q) = Some i"
      using position_exists [of None "sq_pending q" "\<lambda>s. s = None"] by auto
    from position_SomeD [OF i] have at: "i < length (sq_pending q)" "sq_pending q ! i = None" by simp_all
    let ?q = "q\<lparr>sq_pending := (sq_pending q)[i := Some (signed_new b)], sq_pending_count := sq_pending_count q + 1\<rparr>"
    note m = mset_flatten_None [OF at, of "signed_new b"]
    have "sq_inv ?q"
      using inv arg_cong [OF m, of size] arg_cong [OF m, of set_mset]
      by (auto simp: sq_inv_def signed_new_def simp del: set_flatten_opt)
    moreover have "sq_waiting ?q = add_mset b (sq_waiting q)" using m by (simp add: sq_waiting_def signed_new_def)
    ultimately show ?thesis using True n i by (simp add: sq_enqueue_def MAX_PENDING_def)
  next
    case False
    then show ?thesis using n by (simp add: sq_enqueue_def MAX_PENDING_def)
  qed
qed

lemma sign_step:
  assumes inv: "sq_inv q"
  shows "if sq_waiting q = {#} then sign_next q sig key = Some (Inl NoPending, q)
    else if length sig \<noteq> ML_DSA_65_SIG_SIZE then \<exists>q'. sign_next q sig key = Some (Inl InvalidSignatureSize, q') \<and>
      sq_inv q' \<and> sq_waiting q' = sq_waiting q \<and> sq_total_signed q' = sq_total_signed q
    else \<exists>sb q'. sign_next q sig key = Some (Inr sb, q') \<and> sq_inv q' \<and>
      sq_waiting q = add_mset (sb_batch sb) (sq_waiting q') \<and> sb_is_signed sb \<and> sb_signature sb = sig \<and>
      sb_signer_key_id sb = key \<and> sq_total_signed q' = sq_total_signed q + 1"
proof (cases "position unsigned_slot (sq_pending q)")
  case None
  then have "\<forall>s \<in> set (sq_pending q). \<not> unsigned_slot s" by simp
  then have "x \<notin> set (flatten_opt (sq_pending q))" for x
    using inv by (auto simp: sq_inv_def unsigned_slot_def split: option.splits)
  then have "flatten_opt (sq_pending q) = []" by (metis list.set_sel(1))
  then show ?thesis using None by (simp add: sign_next_def sq_waiting_def del: position_None_iff)
next
  case (Some i)
  from position_SomeD [OF Some] obtain u where u: "i < length (sq_pending q)" "sq_pending q ! i = Some u" "\<not> sb_is_signed u"
    by (auto simp: unsigned_slot_def split: option.splits)
  note m = mset_flatten_Some [OF u(1,2)]
  have count: "sq_pending_count q = Suc (size (mset (flatten_opt ((sq_pending q)[i := None]))))"
    using inv arg_cong [OF m(1), of size] by (simp add: sq_inv_def)
  have uns: "\<forall>sb \<in># add_mset u (mset (flatten_opt ((sq_pending q)[i := None]))). \<not> sb_is_signed sb"
    using inv unfolding m(1) [symmetric] by (simp add: sq_inv_def)
  have ne: "sq_waiting q \<noteq> {#}" using m(1) by (simp add: sq_waiting_def)
  have same: "(sq_pending q)[i := Some u] = sq_pending q" using u by (simp add: list_update_same_conv)
  show ?thesis
  proof (cases "length sig = ML_DSA_65_SIG_SIZE")
    case True
    let ?sb = "u\<lparr>sb_signature := sig, sb_signer_key_id := key, sb_is_signed := True\<rparr>"
    let ?q = "q\<lparr>sq_pending := (sq_pending q)[i := None], sq_pending_count := sq_pending_count q - 1,
      sq_total_signed := sq_total_signed q + 1\<rparr>"
    have "sign_next q sig key = Some (Inr ?sb, ?q)"
      using Some u True count by (simp add: sign_next_def set_signature_def)
    moreover have "sq_inv ?q" using inv count uns by (auto simp: sq_inv_def simp del: set_flatten_opt)
    moreover have "sq_waiting q = add_mset (sb_batch ?sb) (sq_waiting ?q)" using m(1) by (simp add: sq_waiting_def)
    ultimately show ?thesis using True ne by auto
  next
    case False
    then show ?thesis using Some u inv ne same
      by (auto simp: sign_next_def set_signature_def sq_inv_def sq_waiting_def)
  qed
qed

datatype signing_op = Enqueue audit_batch | SignNext "u8 list" "u8 list"

text \<open>A run of the queue: the batches it accepted, the signed batches it returned, and its state.\<close>

fun signing_exec ::
  "signing_op \<Rightarrow> audit_batch list \<times> signed_audit_batch list \<times> signing_queue \<Rightarrow>
   (audit_batch list \<times> signed_audit_batch list \<times> signing_queue) option" where
  "signing_exec (Enqueue b) (acc, out, q) =
     Some (case sq_enqueue q b of Inl e \<Rightarrow> (acc, out, q) | Inr q' \<Rightarrow> (acc @ [b], out, q'))"
| "signing_exec (SignNext sig key) (acc, out, q) = do {
     (r, q') \<leftarrow> sign_next q sig key;
     Some (acc, (case r of Inl e \<Rightarrow> out | Inr sb \<Rightarrow> out @ [sb]), q') }"

definition signing_rep :: "audit_batch list \<times> signed_audit_batch list \<times> signing_queue \<Rightarrow> bool" where
  "signing_rep s = (case s of (acc, out, q) \<Rightarrow>
     sq_inv q \<and> mset acc = mset (map sb_batch out) + sq_waiting q \<and>
     (\<forall>sb \<in> set out. sb_is_signed sb \<and> length (sb_signature sb) = ML_DSA_65_SIG_SIZE) \<and>
     sq_total_signed q = of_nat (length out))"

lemma signing_exec_rep: "signing_rep s \<Longrightarrow> \<exists>s'. signing_exec op s = Some s' \<and> signing_rep s'"
proof -
  assume r: "signing_rep s"
  obtain acc out q where s: "s = (acc, out, q)" by (cases s) auto
  have inv: "sq_inv q" using r by (simp add: signing_rep_def s)
  show ?thesis
  proof (cases op)
    case (Enqueue b)
    then show ?thesis using r enqueue_step [OF inv, of b] by (auto simp: s signing_rep_def split: if_splits)
  next
    case (SignNext sig key)
    then show ?thesis using r sign_step [OF inv, of sig key] by (auto simp: s signing_rep_def split: if_splits)
  qed
qed

text \<open>
  C36. The signing queue loses and invents no batch. After any sequence of enqueue and sign calls,
  none of which panics, the batches it accepted are exactly, with their multiplicity, the ones it
  returned signed plus the ones still waiting; every returned batch carries a signature of the
  ML-DSA-65 size, at most 16 batches wait, and a batch is refused only when 16 wait.\<close>

theorem signing_queue_conserves:
  "\<exists>acc out q. mfold signing_exec ops ([], [], signing_queue_new) = Some (acc, out, q) \<and>
     mset acc = mset (map sb_batch out) + image_mset sb_batch (mset (flatten_opt (sq_pending q))) \<and>
     list_all (\<lambda>sb. sb_is_signed sb \<and> length (sb_signature sb) = 3309) out \<and>
     sq_pending_count q = length (flatten_opt (sq_pending q)) \<and> sq_pending_count q \<le> 16 \<and>
     sq_total_signed q = of_nat (length out) \<and>
     (\<forall>b. sq_enqueue q b = Inl SigningQueueFull \<longleftrightarrow> sq_pending_count q = 16)"
proof -
  have "signing_rep ([], [], signing_queue_new)"
    using sq_inv_new by (simp add: signing_rep_def) (simp add: signing_queue_new_def)
  then have "\<exists>s. mfold signing_exec ops ([], [], signing_queue_new) = Some s \<and> signing_rep s"
    by (rule mfold_inv) (rule signing_exec_rep)
  then obtain acc out q where s: "mfold signing_exec ops ([], [], signing_queue_new) = Some (acc, out, q)"
    "signing_rep (acc, out, q)" by auto
  then have q: "sq_inv q" "size (sq_waiting q) = sq_pending_count q" "sq_pending_count q \<le> 16"
    using length_flatten_opt_le [of "sq_pending q"]
    by (auto simp: signing_rep_def sq_inv_def sq_waiting_def MAX_PENDING_def)
  have "sq_enqueue q b = Inl SigningQueueFull \<longleftrightarrow> sq_pending_count q = 16" for b
    using enqueue_step [OF q(1), of b] q(2,3) by (auto split: if_splits)
  then show ?thesis
    using s q by (auto simp: signing_rep_def sq_inv_def sq_waiting_def list_all_iff ML_DSA_65_SIG_SIZE_def)
qed

text \<open>
  The signing queue is not first-in first-out: a batch put into the slot that a signed batch has
  left is signed before a batch that was waiting longer. With \<open>a\<close>, \<open>b\<close> enqueued, one signed, and \<open>c\<close>
  enqueued, the next batch signed is \<open>c\<close>.\<close>

theorem signing_queue_not_fifo:
  assumes "length sig = ML_DSA_65_SIG_SIZE"
  shows "\<exists>q out. mfold signing_exec [Enqueue a, Enqueue b, SignNext sig key, Enqueue c, SignNext sig key]
      ([], [], signing_queue_new) = Some ([a, b, c], out, q) \<and> map sb_batch out = [a, c]"
proof -
  have r: "replicate 16 (None :: signed_audit_batch option) = None # None # replicate 14 None"
    by (simp add: eval_nat_numeral)
  show ?thesis
    using assms by (simp add: signing_queue_new_def sq_enqueue_def sign_next_def MAX_PENDING_def r set_signature_def
        signed_new_def unsigned_slot_def)
qed

theorem signing_queue_not_fifo_witness:
  "\<exists>q out. mfold signing_exec [Enqueue sample_batch, Enqueue (sample_batch\<lparr>ab_sequence := 1\<rparr>),
       SignNext (replicate ML_DSA_65_SIG_SIZE 0) [], Enqueue (sample_batch\<lparr>ab_sequence := 2\<rparr>),
       SignNext (replicate ML_DSA_65_SIG_SIZE 0) []] ([], [], signing_queue_new) =
     Some ([sample_batch, sample_batch\<lparr>ab_sequence := 1\<rparr>, sample_batch\<lparr>ab_sequence := 2\<rparr>], out, q) \<and>
     map sb_batch out = [sample_batch, sample_batch\<lparr>ab_sequence := 2\<rparr>]"
  by (rule signing_queue_not_fifo) simp

section \<open>The header round trip\<close>

lemma header_reads:
  assumes "length a = 8" "length b = 32" "length c = 32" "length d = 2" "length k = 16"
    "h = [v] @ a @ b @ c @ d @ [f] @ k @ rest"
  shows "h ! 0 = v" "take 8 (drop 1 h) = a" "take 32 (drop 9 h) = b" "take 32 (drop 41 h) = c"
    "take 2 (drop 73 h) = d" "h ! 75 = f" "take 16 (drop 76 h) = k" "drop 92 h = rest" "length h = 92 + length rest"
  using assms by (simp_all add: nth_append)

text \<open>
  A batch header written into a buffer of at least 92 bytes reads back as the number, both
  hashes, the entry count (saturated at 65535), the signed flag and the key id, and leaves the
  rest of the buffer alone; shorter buffers are refused by both directions, and so is every
  other version byte.\<close>

theorem batch_header_roundtrip:
  assumes "length (ab_batch_hash (sb_batch sb)) = 32" "length (ab_previous_hash (sb_batch sb)) = 32"
    "length (sb_signer_key_id sb) = 16"
  shows "if length buf < 92 then serialize_batch_header sb buf = None \<and> deserialize_batch_header buf = None
    else (\<exists>buf'. serialize_batch_header sb buf = Some buf' \<and> length buf' = length buf \<and> drop 92 buf' = drop 92 buf \<and>
      deserialize_batch_header buf' = Some \<lparr>bh_sequence = ab_sequence (sb_batch sb),
        bh_batch_hash = ab_batch_hash (sb_batch sb), bh_previous_hash = ab_previous_hash (sb_batch sb),
        bh_entry_count = of_nat (min (length (ab_entries (sb_batch sb))) 65535),
        bh_is_signed = sb_is_signed sb, bh_signer_key_id = sb_signer_key_id sb\<rparr>) \<and>
      (\<forall>v. v \<noteq> 1 \<longrightarrow> deserialize_batch_header (buf[0 := v]) = None)"
proof (cases "length buf < 92")
  case True
  then show ?thesis by (simp add: serialize_batch_header_def deserialize_batch_header_def BATCH_HEADER_SIZE_def)
next
  case False
  define h where "h = [WIRE_VERSION] @ to_be_bytes 8 (ab_sequence (sb_batch sb)) @ ab_batch_hash (sb_batch sb) @
    ab_previous_hash (sb_batch sb) @ to_be_bytes 2 (of_nat (min (length (ab_entries (sb_batch sb))) 65535) :: u16) @
    [if sb_is_signed sb then 1 else 0] @ sb_signer_key_id sb @ drop 92 buf"
  note reads = header_reads [OF length_to_be_bytes assms(1,2) length_to_be_bytes assms(3) h_def]
  have len: "length h = length buf" using reads(9) False by simp
  have "(if sb_is_signed sb then 1 else 0 :: u8) \<noteq> 0 \<longleftrightarrow> sb_is_signed sb" by simp
  then have "deserialize_batch_header h = Some \<lparr>bh_sequence = ab_sequence (sb_batch sb),
        bh_batch_hash = ab_batch_hash (sb_batch sb), bh_previous_hash = ab_previous_hash (sb_batch sb),
        bh_entry_count = of_nat (min (length (ab_entries (sb_batch sb))) 65535),
        bh_is_signed = sb_is_signed sb, bh_signer_key_id = sb_signer_key_id sb\<rparr>"
    using False unfolding deserialize_batch_header_def BATCH_HEADER_SIZE_def reads(1-7) len by simp
  moreover have "serialize_batch_header sb buf = Some h"
    using False by (simp add: serialize_batch_header_def BATCH_HEADER_SIZE_def h_def)
  moreover have "buf[0 := v] ! 0 = v" for v using False by (cases buf) simp_all
  then have "deserialize_batch_header (buf[0 := v]) = None" if "v \<noteq> 1" for v
    using that by (simp add: deserialize_batch_header_def WIRE_VERSION_def)
  ultimately show ?thesis using False len reads(8) by simp
qed

theorem batch_header_roundtrip_witness:
  "\<exists>buf'. serialize_batch_header (signed_new sample_batch) (replicate 100 7) = Some buf' \<and> length buf' = 100 \<and>
     map_option bh_sequence (deserialize_batch_header buf') = Some 0"
proof -
  have "length (ab_batch_hash (sb_batch (signed_new sample_batch))) = 32"
    "length (ab_previous_hash (sb_batch (signed_new sample_batch))) = 32"
    "length (sb_signer_key_id (signed_new sample_batch)) = 16"
    using sample_batch_wf by (simp_all add: signed_new_def batch_wf_def SHA3_256_DIGEST_LEN_def)
  from batch_header_roundtrip [OF this, of "replicate 100 7"] show ?thesis
    by (auto simp: signed_new_def sample_batch_def)
qed

section \<open>What retention prunes\<close>

lemma expired_prefix_eq: "expired_prefix p now_ns tss = length (takeWhile (\<lambda>ts. \<not> should_retain p ts now_ns) tss)"
  by (induction tss) auto

lemma should_retain_mono: "ts \<le> ts' \<Longrightarrow> should_retain p ts now_ns \<Longrightarrow> should_retain p ts' now_ns"
proof -
  assume le: "ts \<le> ts'" and r: "should_retain p ts now_ns"
  have "saturating_sub now_ns ts' \<le> saturating_sub now_ns ts"
    using le by (auto simp: saturating_sub_def word_le_nat_alt unat_sub)
  with r show ?thesis by (simp add: should_retain_def)
qed

lemma unat_ucast_32_64 [simp]: "unat (ucast (x :: u32) :: u64) = unat x"
proof -
  have "unat x < 2 ^ LENGTH(32)" by (rule unsigned_less)
  then have "unat x < 2 ^ 64" by simp
  then show ?thesis by (simp add: unsigned_ucast_eq take_bit_nat_eq_self)
qed

lemma unat_days: "unat (ucast (days :: u32) * NS_PER_DAY) = (unat days * 86400000000000) mod 2 ^ 64"
  by (simp add: NS_PER_DAY_def unat_word_ariths)



text \<open>
  A configured retention of up to 213503 days is kept exactly; one day more overflows the 64-bit
  nanosecond count, and the period becomes about 25 minutes.\<close>

theorem retention_days_overflow:
  "(\<forall>days :: u32. unat (rp_retention_ns (with_retention_days p days)) = (unat days * 86400000000000) mod 2 ^ 64) \<and>
   unat (rp_retention_ns (with_retention_days p 213503)) = 213503 * 86400000000000 \<and>
   unat (rp_retention_ns (with_retention_days p 213504)) = 1526290448384"
  by (simp add: with_retention_days_def unat_days) (simp add: NS_PER_DAY_def)

end
