(* ===== verification/Labels.thy ===== *)
theory Labels
  imports Bytes
begin

text \<open>
  The vocabulary of the security gate: classification and integrity levels with the order their
  declarations give them, security labels (\<open>security/src/labels.rs\<close>,
  \<open>security/src/compliance/classification.rs\<close>), trust boundaries
  (\<open>security/src/boundary/trust_boundaries.rs\<close>), and enforcement modes and verdicts
  (\<open>security/src/enforcement.rs\<close>).
\<close>

section \<open>Levels and labels\<close>

datatype classification_level = Public | Internal | Restricted

fun classification_u8 :: "classification_level \<Rightarrow> u8" where
  "classification_u8 Public = 0"
| "classification_u8 Internal = 1"
| "classification_u8 Restricted = 2"

definition classification_from_u8 :: "u8 \<Rightarrow> classification_level option" where
  "classification_from_u8 v =
     (if v = 0 then Some Public else if v = 1 then Some Internal else if v = 2 then Some Restricted else None)"

instantiation classification_level :: linorder
begin

definition less_eq_classification_level :: "classification_level \<Rightarrow> classification_level \<Rightarrow> bool" where
  "less_eq_classification_level a b \<longleftrightarrow> classification_u8 a \<le> classification_u8 b"

definition less_classification_level :: "classification_level \<Rightarrow> classification_level \<Rightarrow> bool" where
  "less_classification_level a b \<longleftrightarrow> classification_u8 a < classification_u8 b"

instance
proof
  fix a b :: classification_level
  show "a \<le> b \<Longrightarrow> b \<le> a \<Longrightarrow> a = b"
    by (cases a; cases b) (simp_all add: less_eq_classification_level_def word_le_nat_alt)
qed (auto simp: less_eq_classification_level_def less_classification_level_def)

end

datatype integrity_level = Low | Medium | High

fun integrity_u8 :: "integrity_level \<Rightarrow> u8" where
  "integrity_u8 Low = 0"
| "integrity_u8 Medium = 1"
| "integrity_u8 High = 2"

definition integrity_from_u8 :: "u8 \<Rightarrow> integrity_level option" where
  "integrity_from_u8 v =
     (if v = 0 then Some Low else if v = 1 then Some Medium else if v = 2 then Some High else None)"

instantiation integrity_level :: linorder
begin

definition less_eq_integrity_level :: "integrity_level \<Rightarrow> integrity_level \<Rightarrow> bool" where
  "less_eq_integrity_level a b \<longleftrightarrow> integrity_u8 a \<le> integrity_u8 b"

definition less_integrity_level :: "integrity_level \<Rightarrow> integrity_level \<Rightarrow> bool" where
  "less_integrity_level a b \<longleftrightarrow> integrity_u8 a < integrity_u8 b"

instance
proof
  fix a b :: integrity_level
  show "a \<le> b \<Longrightarrow> b \<le> a \<Longrightarrow> a = b"
    by (cases a; cases b) (simp_all add: less_eq_integrity_level_def word_le_nat_alt)
qed (auto simp: less_eq_integrity_level_def less_integrity_level_def)

end

definition may_flow_to :: "integrity_level \<Rightarrow> integrity_level \<Rightarrow> bool" where
  "may_flow_to src dest \<longleftrightarrow> src \<ge> dest"

type_synonym message_type_id = u32

record security_label =
  sl_classification :: classification_level
  sl_integrity :: integrity_level
  sl_message_type :: "message_type_id option"

definition untrusted_public :: security_label where
  "untrusted_public = \<lparr>sl_classification = Public, sl_integrity = Low, sl_message_type = None\<rparr>"

definition internal_medium :: security_label where
  "internal_medium = \<lparr>sl_classification = Internal, sl_integrity = Medium, sl_message_type = None\<rparr>"

definition kernel_internal :: security_label where
  "kernel_internal = \<lparr>sl_classification = Restricted, sl_integrity = High, sl_message_type = None\<rparr>"

definition is_typed :: "security_label \<Rightarrow> bool" where
  "is_typed l \<longleftrightarrow> sl_message_type l \<noteq> None"

section \<open>Boundaries\<close>

datatype trust_boundary = Kernel | Kubernetes | Network | BusProtocol | Gpu

fun boundary_index :: "trust_boundary \<Rightarrow> nat" where
  "boundary_index Kernel = 0"
| "boundary_index Kubernetes = 1"
| "boundary_index Network = 2"
| "boundary_index BusProtocol = 3"
| "boundary_index Gpu = 4"

datatype data_flow_direction = Inbound | Outbound | Bidirectional

section \<open>Modes and verdicts\<close>

datatype enforcement_mode = Enforcing | Permissive

definition mode_from_u8 :: "u8 \<Rightarrow> enforcement_mode option" where
  "mode_from_u8 v = (if v = 0 then Some Enforcing else if v = 1 then Some Permissive else None)"

datatype deny_reason =
    MissingCapability
  | ClassificationViolation
  | IntegrityViolation
  | UnknownMessageType
  | InvariantFailed u8
  | ModelNotWhitelisted
  | PolicySignatureInvalid

fun reason_as_str :: "deny_reason \<Rightarrow> string" where
  "reason_as_str MissingCapability = ''missing-capability''"
| "reason_as_str ClassificationViolation = ''classification-violation''"
| "reason_as_str IntegrityViolation = ''integrity-violation''"
| "reason_as_str UnknownMessageType = ''unknown-message-type''"
| "reason_as_str (InvariantFailed i) = ''invariant-failed''"
| "reason_as_str ModelNotWhitelisted = ''model-not-whitelisted''"
| "reason_as_str PolicySignatureInvalid = ''policy-signature-invalid''"

datatype gate_verdict =
    Allowed
  | Denied u8 deny_reason
  | PermissivePass u8 deny_reason

fun verdict_is_allowed :: "gate_verdict \<Rightarrow> bool" where
  "verdict_is_allowed Allowed = True"
| "verdict_is_allowed (PermissivePass l r) = True"
| "verdict_is_allowed (Denied l r) = False"

definition resolve_mode :: "enforcement_mode option \<Rightarrow> enforcement_mode \<Rightarrow> enforcement_mode \<Rightarrow> enforcement_mode" where
  "resolve_mode type_mode boundary_mode global_mode = (case type_mode of Some tm \<Rightarrow> tm | None \<Rightarrow> boundary_mode)"

end
