(* ===== verification/Message_Types.thy ===== *)
theory Message_Types
  imports Labels
begin

text \<open>
  Verified message types (\<open>security/src/message_types.rs\<close>): the runtime invariants, the checker with
  its per-type state in a table of 64 slots, the type registry, and the compiled-in catalogue of
  eleven types. Signed sample values are only compared, so they are \<open>int\<close>; the message counter is
  a 32-bit word that wraps.

  The specification of the checker is a map from type identifiers to their last timestamp and
  message count; the table refines it while at most 64 types are in use.
\<close>

section \<open>Invariants\<close>

type_synonym schema_hash = "u8 list"

definition MAX_MESSAGE_TYPES :: nat where
  "MAX_MESSAGE_TYPES = 64"

datatype tensor_dtype = Float32 | Float16 | Int8 | Int32 | Int64 | Uint8

fun dtype_u8 :: "tensor_dtype \<Rightarrow> u8" where
  "dtype_u8 Float32 = 1"
| "dtype_u8 Float16 = 2"
| "dtype_u8 Int8 = 3"
| "dtype_u8 Int32 = 4"
| "dtype_u8 Int64 = 5"
| "dtype_u8 Uint8 = 6"

definition dtype_from_u8 :: "u8 \<Rightarrow> tensor_dtype option" where
  "dtype_from_u8 v =
     (if v = 1 then Some Float32 else if v = 2 then Some Float16 else if v = 3 then Some Int8
      else if v = 4 then Some Int32 else if v = 5 then Some Int64 else if v = 6 then Some Uint8 else None)"

datatype msg_invariant =
    MaxRank u8
  | MinRank u8
  | AllowedDtype tensor_dtype
  | MaxElements u32
  | MaxPayloadBytes u32
  | ValueRange int int
  | EnumMembership u8
  | NonZeroDimensions
  | MonotonicTimestamp
  | RateLimit u32

record message_metadata =
  md_rank :: u8
  md_dtype :: u8
  md_element_count :: u32
  md_payload_bytes :: u32
  md_dimensions :: "u32 list"
  md_num_dimensions :: u8
  md_enum_value :: u8
  md_timestamp :: u64
  md_sample_value :: int

definition metadata_empty :: message_metadata where
  "metadata_empty = \<lparr>md_rank = 0, md_dtype = 0, md_element_count = 0, md_payload_bytes = 0,
     md_dimensions = replicate 8 0, md_num_dimensions = 0, md_enum_value = 0, md_timestamp = 0, md_sample_value = 0\<rparr>"

record verified_message_type =
  mt_type_id :: message_type_id
  mt_name :: string
  mt_boundary :: trust_boundary
  mt_direction :: data_flow_direction
  mt_schema_hash :: schema_hash
  mt_mode :: enforcement_mode
  mt_invariants :: "msg_invariant list"

definition is_verified :: "verified_message_type \<Rightarrow> bool" where
  "is_verified mt \<longleftrightarrow> list_ex (\<lambda>b. b \<noteq> 0) (mt_schema_hash mt)"

section \<open>The checker\<close>

record type_state =
  ts_type_id :: message_type_id
  ts_last_timestamp :: u64
  ts_message_count :: u32
  ts_window_start :: u64
  ts_active :: bool

definition type_state_empty :: type_state where
  "type_state_empty = \<lparr>ts_type_id = 0, ts_last_timestamp = 0, ts_message_count = 0, ts_window_start = 0,
     ts_active = False\<rparr>"

type_synonym invariant_checker = "type_state list"

definition checker_new :: invariant_checker where
  "checker_new = replicate MAX_MESSAGE_TYPES type_state_empty"

fun check_single :: "msg_invariant \<Rightarrow> message_metadata \<Rightarrow> type_state \<Rightarrow> bool" where
  "check_single (MaxRank n) md st = (md_rank md \<le> n)"
| "check_single (MinRank n) md st = (md_rank md \<ge> n)"
| "check_single (AllowedDtype d) md st = (md_dtype md = dtype_u8 d)"
| "check_single (MaxElements n) md st = (md_element_count md \<le> n)"
| "check_single (MaxPayloadBytes n) md st = (md_payload_bytes md \<le> n)"
| "check_single (ValueRange lo hi) md st = (md_sample_value md \<ge> lo \<and> md_sample_value md \<le> hi)"
| "check_single (EnumMembership n) md st = (md_enum_value md < n)"
| "check_single NonZeroDimensions md st =
     list_all (\<lambda>i. \<not> (i < 8 \<and> md_dimensions md ! i = 0)) [0..<unat (md_num_dimensions md)]"
| "check_single MonotonicTimestamp md st =
     (if ts_last_timestamp st = 0 then True else md_timestamp md > ts_last_timestamp st)"
| "check_single (RateLimit n) md st = (ts_message_count st < n)"

definition state_index :: "invariant_checker \<Rightarrow> message_type_id \<Rightarrow> nat option" where
  "state_index c tid = position (\<lambda>s. ts_active s \<and> ts_type_id s = tid) c"

definition get_or_create_state_index :: "invariant_checker \<Rightarrow> message_type_id \<Rightarrow> nat \<times> invariant_checker" where
  "get_or_create_state_index c tid = (case state_index c tid of
     Some i \<Rightarrow> (i, c)
   | None \<Rightarrow> (let i = (case position (\<lambda>s. \<not> ts_active s) c of Some i \<Rightarrow> i | None \<Rightarrow> 0) in
       (i, c[i := \<lparr>ts_type_id = tid, ts_last_timestamp = 0, ts_message_count = 0, ts_window_start = 0, ts_active = True\<rparr>])))"

definition checker_check :: "invariant_checker \<Rightarrow> verified_message_type \<Rightarrow> message_metadata \<Rightarrow> u8 option \<times> invariant_checker" where
  "checker_check c0 mt md = (case get_or_create_state_index c0 (mt_type_id mt) of (i, c) \<Rightarrow>
     (case position (\<lambda>inv. \<not> check_single inv md (c ! i)) (mt_invariants mt) of
        Some k \<Rightarrow> (Some (of_nat k), c)
      | None \<Rightarrow>
          (let st = (if md_timestamp md > 0 then (c ! i)\<lparr>ts_last_timestamp := md_timestamp md\<rparr> else c ! i) in
           (None, c[i := st\<lparr>ts_message_count := ts_message_count st + 1\<rparr>]))))"

definition reset_rate_window :: "invariant_checker \<Rightarrow> message_type_id \<Rightarrow> invariant_checker" where
  "reset_rate_window c tid = (case position (\<lambda>s. ts_active s \<and> ts_type_id s = tid) c of
     Some i \<Rightarrow> c[i := (c ! i)\<lparr>ts_message_count := 0\<rparr>] | None \<Rightarrow> c)"

section \<open>The registry\<close>

record message_type_registry =
  mr_types :: "verified_message_type option list"
  mr_count :: nat

definition registry_new :: message_type_registry where
  "registry_new = \<lparr>mr_types = replicate MAX_MESSAGE_TYPES None, mr_count = 0\<rparr>"

definition mr_register :: "message_type_registry \<Rightarrow> verified_message_type \<Rightarrow> bool \<times> message_type_registry" where
  "mr_register r mt =
     (if list_ex (\<lambda>e. mt_type_id e = mt_type_id mt) (flatten_opt (mr_types r)) then (False, r)
      else case position (\<lambda>s. s = None) (mr_types r) of
        Some i \<Rightarrow> (True, r\<lparr>mr_types := (mr_types r)[i := Some mt], mr_count := mr_count r + 1\<rparr>)
      | None \<Rightarrow> (False, r))"

definition mr_lookup :: "message_type_registry \<Rightarrow> message_type_id \<Rightarrow> verified_message_type option" where
  "mr_lookup r tid = find (\<lambda>mt. mt_type_id mt = tid) (flatten_opt (mr_types r))"

definition mr_is_full :: "message_type_registry \<Rightarrow> bool" where
  "mr_is_full r \<longleftrightarrow> mr_count r \<ge> MAX_MESSAGE_TYPES"

definition mr_iter :: "message_type_registry \<Rightarrow> verified_message_type list" where
  "mr_iter r = flatten_opt (mr_types r)"

section \<open>The compiled-in catalogue\<close>

definition UNVERIFIED_HASH :: schema_hash where
  "UNVERIFIED_HASH = replicate 32 0"

definition TENSOR_INPUT_INVARIANTS :: "msg_invariant list" where
  "TENSOR_INPUT_INVARIANTS = [MinRank 1, MaxRank 4, AllowedDtype Float32, MaxElements 1048576, NonZeroDimensions]"

definition TENSOR_OUTPUT_INVARIANTS :: "msg_invariant list" where
  "TENSOR_OUTPUT_INVARIANTS = [MinRank 1, MaxRank 4, MaxElements 1048576, NonZeroDimensions]"

definition INFERENCE_REQUEST_INVARIANTS :: "msg_invariant list" where
  "INFERENCE_REQUEST_INVARIANTS = [MaxPayloadBytes 67108864, EnumMembership 5]"

definition INFERENCE_RESPONSE_INVARIANTS :: "msg_invariant list" where
  "INFERENCE_RESPONSE_INVARIANTS = [MaxPayloadBytes 67108864, EnumMembership 6]"

definition BUS_SENSOR_INVARIANTS :: "msg_invariant list" where
  "BUS_SENSOR_INVARIANTS = [MaxPayloadBytes 8, MonotonicTimestamp]"

definition BUS_ACTUATOR_INVARIANTS :: "msg_invariant list" where
  "BUS_ACTUATOR_INVARIANTS = [MaxPayloadBytes 8, ValueRange (- 10000) 10000, RateLimit 100]"

definition GPU_TRANSFER_INVARIANTS :: "msg_invariant list" where
  "GPU_TRANSFER_INVARIANTS = [MaxElements 16777216, NonZeroDimensions]"

definition GPU_RESULT_INVARIANTS :: "msg_invariant list" where
  "GPU_RESULT_INVARIANTS = [MaxElements 16777216, NonZeroDimensions]"

definition K8S_COMMAND_INVARIANTS :: "msg_invariant list" where
  "K8S_COMMAND_INVARIANTS = [MaxPayloadBytes 65536, EnumMembership 8]"

definition K8S_METRICS_INVARIANTS :: "msg_invariant list" where
  "K8S_METRICS_INVARIANTS = [MaxPayloadBytes 16384]"

definition IPC_MESSAGE_INVARIANTS :: "msg_invariant list" where
  "IPC_MESSAGE_INVARIANTS = [MaxPayloadBytes 1048576]"

definition TENSOR_PROOF_HASH :: schema_hash where
  "TENSOR_PROOF_HASH =
    [0x2f, 0x99, 0x1c, 0xc6, 0xd2, 0xcf, 0x05, 0x4e, 0x69, 0xf0, 0x49, 0x78, 0xdc, 0x3a, 0x92, 0x1f,
     0x44, 0x68, 0x29, 0xc2, 0xb7, 0xe0, 0x9e, 0xbd, 0xb6, 0x18, 0x06, 0x6d, 0x04, 0xda, 0x46, 0x10]"

definition REGISTRY_PROOF_HASH :: schema_hash where
  "REGISTRY_PROOF_HASH =
    [0xac, 0xf3, 0x35, 0xef, 0x68, 0x6c, 0xbb, 0x5e, 0xef, 0xc7, 0x20, 0x1e, 0x26, 0x59, 0xc4, 0x33,
     0x7a, 0xce, 0x53, 0x46, 0xa4, 0xb3, 0x25, 0x19, 0xcd, 0x3f, 0x1f, 0xcc, 0xed, 0xfa, 0xda, 0x47]"

definition type_schema_hash :: "schema_hash \<Rightarrow> u32 \<Rightarrow> schema_hash" where
  "type_schema_hash base tid =
     (let b = to_le_bytes 4 tid in
      base[0 := base ! 0 XOR b ! 0, 1 := base ! 1 XOR b ! 1, 2 := base ! 2 XOR b ! 2, 3 := base ! 3 XOR b ! 3])"

definition DEFAULT_MESSAGE_TYPES :: "verified_message_type list" where
  "DEFAULT_MESSAGE_TYPES = [\<lparr>mt_type_id = 1, mt_name = ''InferenceTensorInput'', mt_boundary = Network, mt_direction = Inbound,
       mt_schema_hash = type_schema_hash TENSOR_PROOF_HASH 1, mt_mode = Permissive, mt_invariants = TENSOR_INPUT_INVARIANTS\<rparr>,
     \<lparr>mt_type_id = 2, mt_name = ''InferenceTensorOutput'', mt_boundary = Network, mt_direction = Outbound,
       mt_schema_hash = type_schema_hash TENSOR_PROOF_HASH 2, mt_mode = Permissive, mt_invariants = TENSOR_OUTPUT_INVARIANTS\<rparr>,
     \<lparr>mt_type_id = 3, mt_name = ''InferenceRequest'', mt_boundary = Network, mt_direction = Inbound,
       mt_schema_hash = type_schema_hash REGISTRY_PROOF_HASH 3, mt_mode = Permissive, mt_invariants = INFERENCE_REQUEST_INVARIANTS\<rparr>,
     \<lparr>mt_type_id = 4, mt_name = ''InferenceResponse'', mt_boundary = Network, mt_direction = Outbound,
       mt_schema_hash = type_schema_hash REGISTRY_PROOF_HASH 4, mt_mode = Permissive, mt_invariants = INFERENCE_RESPONSE_INVARIANTS\<rparr>,
     \<lparr>mt_type_id = 16, mt_name = ''BusSensorFrame'', mt_boundary = BusProtocol, mt_direction = Inbound,
       mt_schema_hash = type_schema_hash REGISTRY_PROOF_HASH 16, mt_mode = Permissive, mt_invariants = BUS_SENSOR_INVARIANTS\<rparr>,
     \<lparr>mt_type_id = 17, mt_name = ''BusActuatorCommand'', mt_boundary = BusProtocol, mt_direction = Outbound,
       mt_schema_hash = type_schema_hash REGISTRY_PROOF_HASH 17, mt_mode = Permissive, mt_invariants = BUS_ACTUATOR_INVARIANTS\<rparr>,
     \<lparr>mt_type_id = 32, mt_name = ''GpuTensorTransfer'', mt_boundary = Gpu, mt_direction = Outbound,
       mt_schema_hash = type_schema_hash TENSOR_PROOF_HASH 32, mt_mode = Permissive, mt_invariants = GPU_TRANSFER_INVARIANTS\<rparr>,
     \<lparr>mt_type_id = 33, mt_name = ''GpuInferenceResult'', mt_boundary = Gpu, mt_direction = Inbound,
       mt_schema_hash = type_schema_hash TENSOR_PROOF_HASH 33, mt_mode = Permissive, mt_invariants = GPU_RESULT_INVARIANTS\<rparr>,
     \<lparr>mt_type_id = 48, mt_name = ''K8sPodCommand'', mt_boundary = Kubernetes, mt_direction = Inbound,
       mt_schema_hash = type_schema_hash REGISTRY_PROOF_HASH 48, mt_mode = Permissive, mt_invariants = K8S_COMMAND_INVARIANTS\<rparr>,
     \<lparr>mt_type_id = 49, mt_name = ''K8sHealthMetrics'', mt_boundary = Kubernetes, mt_direction = Outbound,
       mt_schema_hash = type_schema_hash REGISTRY_PROOF_HASH 49, mt_mode = Permissive, mt_invariants = K8S_METRICS_INVARIANTS\<rparr>,
     \<lparr>mt_type_id = 64, mt_name = ''IpcPubSubMessage'', mt_boundary = Kernel, mt_direction = Bidirectional,
       mt_schema_hash = type_schema_hash REGISTRY_PROOF_HASH 64, mt_mode = Permissive, mt_invariants = IPC_MESSAGE_INVARIANTS\<rparr>]"

definition default_registry :: message_type_registry where
  "default_registry = fold (\<lambda>mt r. snd (mr_register r mt)) DEFAULT_MESSAGE_TYPES registry_new"

section \<open>The checker as a map\<close>

text \<open>The last timestamp and the message count of a type.\<close>

type_synonym track = "u64 \<times> u32"

definition track_state :: "track \<Rightarrow> type_state" where
  "track_state tr = type_state_empty\<lparr>ts_last_timestamp := fst tr, ts_message_count := snd tr\<rparr>"

definition track_of :: "type_state \<Rightarrow> track" where
  "track_of st = (ts_last_timestamp st, ts_message_count st)"

definition first_failure :: "verified_message_type \<Rightarrow> message_metadata \<Rightarrow> track \<Rightarrow> u8 option" where
  "first_failure mt md tr =
     map_option of_nat (position (\<lambda>inv. \<not> check_single inv md (track_state tr)) (mt_invariants mt))"

definition track_accept :: "message_metadata \<Rightarrow> track \<Rightarrow> track" where
  "track_accept md tr = (if md_timestamp md > 0 then md_timestamp md else fst tr, snd tr + 1)"

definition checker_view :: "invariant_checker \<Rightarrow> message_type_id \<Rightarrow> track" where
  "checker_view c tid = (case find (\<lambda>s. ts_active s \<and> ts_type_id s = tid) c of Some s \<Rightarrow> track_of s | None \<Rightarrow> (0, 0))"

definition tracked :: "invariant_checker \<Rightarrow> message_type_id set" where
  "tracked c = {tid. \<exists>s \<in> set c. ts_active s \<and> ts_type_id s = tid}"

lemma check_single_track: "check_single v md st = check_single v md (track_state (track_of st))"
  by (cases v) (simp_all add: track_state_def track_of_def)

lemma find_update_other: "\<not> P (xs ! i) \<Longrightarrow> \<not> P v \<Longrightarrow> find P (xs[i := v]) = find P xs"
proof (induction xs arbitrary: i)
  case Nil
  then show ?case by simp
next
  case (Cons x xs)
  then show ?case by (cases i) auto
qed

lemma find_update_first: "i < length xs \<Longrightarrow> \<forall>j < i. \<not> P (xs ! j) \<Longrightarrow> P v \<Longrightarrow> find P (xs[i := v]) = Some v"
proof (induction xs arbitrary: i)
  case Nil
  then show ?case by simp
next
  case (Cons x xs)
  show ?case
  proof (cases i)
    case 0
    then show ?thesis using Cons.prems by simp
  next
    case (Suc k)
    then have "\<not> P x" "\<forall>j < k. \<not> P (xs ! j)" using Cons.prems(2) by (force simp: Suc_less_eq)+
    then show ?thesis using Suc Cons.IH [of k] Cons.prems by simp
  qed
qed

text \<open>Writing a slot that is free or already belongs to the type changes the view of that type only.\<close>

lemma checker_view_update:
  assumes i: "i < length c" and own: "ts_active (c ! i) \<Longrightarrow> ts_type_id (c ! i) = tid"
    and first: "\<forall>j < i. \<not> (ts_active (c ! j) \<and> ts_type_id (c ! j) = tid)"
    and st: "ts_active st" "ts_type_id st = tid"
  shows "checker_view (c[i := st]) = (checker_view c)(tid := track_of st)"
proof
  fix t
  show "checker_view (c[i := st]) t = ((checker_view c)(tid := track_of st)) t"
  proof (cases "t = tid")
    case True
    then show ?thesis using find_update_first [OF i, of "\<lambda>s. ts_active s \<and> ts_type_id s = tid" st] first st
      by (simp add: checker_view_def)
  next
    case False
    then show ?thesis using find_update_other [of "\<lambda>s. ts_active s \<and> ts_type_id s = t" c i st] own st
      by (auto simp: checker_view_def)
  qed
qed

lemma filter_update_count:
  "i < length xs \<Longrightarrow> \<not> P (xs ! i) \<Longrightarrow> P v \<Longrightarrow> length (filter P (xs[i := v])) = Suc (length (filter P xs))"
proof (induction xs arbitrary: i)
  case Nil
  then show ?case by simp
next
  case (Cons x xs)
  then show ?case by (cases i) auto
qed

lemma filter_update_same:
  "i < length xs \<Longrightarrow> P (xs ! i) = P v \<Longrightarrow> length (filter P (xs[i := v])) = length (filter P xs)"
proof (induction xs arbitrary: i)
  case Nil
  then show ?case by simp
next
  case (Cons x xs)
  then show ?case by (cases i) auto
qed

text \<open>The slots in use are no more than the types seen, and every type seen has a slot.\<close>

definition checker_inv :: "message_type_id set \<Rightarrow> invariant_checker \<Rightarrow> bool" where
  [inv_defs]: "checker_inv seen c \<longleftrightarrow> finite seen \<and> length c = MAX_MESSAGE_TYPES \<and>
     length (filter ts_active c) \<le> card seen \<and> seen \<subseteq> tracked c"

lemma checker_inv_new: "checker_inv {} checker_new \<and> checker_view checker_new = (\<lambda>_. (0, 0))"
  by (auto simp: checker_inv_def checker_new_def type_state_empty_def checker_view_def tracked_def
      fun_eq_iff find_None_iff split: option.splits dest!: find_SomeD)

lemma tracked_update:
  assumes "i < length c" "ts_active (c ! i) \<Longrightarrow> ts_type_id (c ! i) = ts_type_id st" "ts_active st"
  shows "tracked c \<subseteq> tracked (c[i := st]) \<and> ts_type_id st \<in> tracked (c[i := st])"
proof (intro conjI subsetI)
  fix t assume "t \<in> tracked c"
  then obtain j where j: "j < length c" "ts_active (c ! j)" "ts_type_id (c ! j) = t"
    by (auto simp: tracked_def in_set_conv_nth)
  show "t \<in> tracked (c[i := st])"
  proof (cases "j = i")
    case True
    then show ?thesis using assms j set_update_memI [OF assms(1), of st] by (auto simp: tracked_def)
  next
    case False
    then have "c ! j \<in> set (c[i := st])" using j(1) by (metis length_list_update nth_list_update_neq nth_mem)
    then show ?thesis using j by (auto simp: tracked_def)
  qed
next
  show "ts_type_id st \<in> tracked (c[i := st])"
    using set_update_memI [OF assms(1), of st] assms(3) by (auto simp: tracked_def)
qed

lemma get_or_create_spec:
  assumes inv: "checker_inv seen c" and room: "card (insert tid seen) \<le> MAX_MESSAGE_TYPES"
  shows "\<exists>i c'. get_or_create_state_index c tid = (i, c') \<and> checker_inv (insert tid seen) c' \<and> i < length c' \<and>
    ts_active (c' ! i) \<and> ts_type_id (c' ! i) = tid \<and> checker_view c' = checker_view c \<and>
    track_of (c' ! i) = checker_view c tid \<and> (\<forall>j < i. \<not> (ts_active (c' ! j) \<and> ts_type_id (c' ! j) = tid))"
proof (cases "state_index c tid")
  case (Some i)
  note pos = position_SomeD [OF Some [unfolded state_index_def]]
  have "checker_view c tid = track_of (c ! i)"
    using Some by (simp add: checker_view_def find_Some_iff_position state_index_def)
  moreover have "checker_inv (insert tid seen) c"
  proof -
    have "tid \<in> tracked c" using pos by (auto simp: tracked_def intro: nth_mem)
    moreover have "card seen \<le> card (insert tid seen)" using inv by (simp add: checker_inv_def card_insert_le)
    ultimately show ?thesis using inv by (auto simp: checker_inv_def)
  qed
  ultimately show ?thesis using Some pos by (auto simp: get_or_create_state_index_def)
next
  case None
  let ?st = "\<lparr>ts_type_id = tid, ts_last_timestamp = 0, ts_message_count = 0, ts_window_start = 0, ts_active = True\<rparr>"
  have free: "\<forall>s \<in> set c. \<not> (ts_active s \<and> ts_type_id s = tid)" using None by (simp add: state_index_def)
  then have "tid \<notin> tracked c" by (auto simp: tracked_def)
  then have new: "tid \<notin> seen" using inv by (auto simp: checker_inv_def)
  have "length (filter ts_active c) < length c" using inv room new by (simp add: checker_inv_def)
  then have "\<exists>s \<in> set c. \<not> ts_active s" by (metis filter_id_conv less_irrefl)
  then obtain i where i: "position (\<lambda>s. \<not> ts_active s) c = Some i" using position_exists by metis
  note pos = position_SomeD [OF i]
  have v: "checker_view (c[i := ?st]) = (checker_view c)(tid := (0, 0))"
    using checker_view_update [of i c tid ?st] pos free by (simp add: track_of_def)
  have z: "checker_view c tid = (0, 0)" using free by (auto simp: checker_view_def find_None_iff dest: find_SomeD split: option.splits)
  have "length (filter ts_active (c[i := ?st])) = Suc (length (filter ts_active c))"
    using filter_update_count [of i c ts_active ?st] pos by simp
  then have "checker_inv (insert tid seen) (c[i := ?st])"
    using inv tracked_update [of i c ?st] pos new by (auto simp: checker_inv_def)
  moreover have "get_or_create_state_index c tid = (i, c[i := ?st])"
    using None i by (simp add: get_or_create_state_index_def Let_def state_index_def del: position_None_iff)
  ultimately show ?thesis using pos free v z by (auto simp: track_of_def fun_upd_idem)
qed

lemma checker_check_spec:
  assumes inv: "checker_inv seen c" and room: "card (insert (mt_type_id mt) seen) \<le> MAX_MESSAGE_TYPES"
  defines "tid \<equiv> mt_type_id mt"
  shows "\<exists>c'. checker_check c mt md = (first_failure mt md (checker_view c tid), c') \<and>
    checker_inv (insert tid seen) c' \<and>
    checker_view c' = (if first_failure mt md (checker_view c tid) = None
      then (checker_view c)(tid := track_accept md (checker_view c tid)) else checker_view c)"
proof -
  from get_or_create_spec [OF inv, of tid] room obtain i c1 where
    g: "get_or_create_state_index c tid = (i, c1)" "checker_inv (insert tid seen) c1" "i < length c1" "ts_active (c1 ! i)"
      "ts_type_id (c1 ! i) = tid" "checker_view c1 = checker_view c" "track_of (c1 ! i) = checker_view c tid"
      "\<forall>j < i. \<not> (ts_active (c1 ! j) \<and> ts_type_id (c1 ! j) = tid)" by (auto simp: tid_def)
  have f: "first_failure mt md (checker_view c tid) =
      map_option of_nat (position (\<lambda>v. \<not> check_single v md (c1 ! i)) (mt_invariants mt))"
    unfolding first_failure_def g(7) [symmetric] by (simp flip: check_single_track)
  show ?thesis
  proof (cases "position (\<lambda>v. \<not> check_single v md (c1 ! i)) (mt_invariants mt)")
    case None
    define st where "st = (if md_timestamp md > 0 then (c1 ! i)\<lparr>ts_last_timestamp := md_timestamp md\<rparr> else c1 ! i)"
    define st' where "st' = st\<lparr>ts_message_count := ts_message_count st + 1\<rparr>"
    have st': "ts_active st'" "ts_type_id st' = tid" "track_of st' = track_accept md (checker_view c tid)"
      using g(4,5) by (auto simp: st'_def st_def track_of_def track_accept_def simp flip: g(7))
    have "checker_check c mt md = (None, c1[i := st'])"
      using None g(1) by (simp add: checker_check_def st_def st'_def tid_def Let_def del: position_None_iff)
    moreover have "checker_view (c1[i := st']) = (checker_view c)(tid := track_accept md (checker_view c tid))"
      using checker_view_update [OF g(3) _ g(8) st'(1,2)] g(5,6) st'(3) by simp
    moreover have "checker_inv (insert tid seen) (c1[i := st'])"
      using g(2) tracked_update [OF g(3), of st'] filter_update_same [OF g(3), of ts_active st'] g(4,5) st'(1,2)
      by (auto simp: checker_inv_def)
    ultimately show ?thesis using f None by (auto simp del: position_None_iff)
  next
    case (Some k)
    then have "checker_check c mt md = (Some (of_nat k), c1)" using g(1) by (simp add: checker_check_def tid_def)
    then show ?thesis using f Some g(2,6) by auto
  qed
qed

lemma reset_rate_window_spec:
  assumes inv: "checker_inv seen c"
  shows "checker_inv seen (reset_rate_window c tid) \<and>
    checker_view (reset_rate_window c tid) = (checker_view c)(tid := (fst (checker_view c tid), 0))"
proof (cases "position (\<lambda>s. ts_active s \<and> ts_type_id s = tid) c")
  case None
  then have "checker_view c tid = (0, 0)"
    by (auto simp: checker_view_def find_None_iff dest: find_SomeD split: option.splits)
  then show ?thesis using None inv by (simp add: reset_rate_window_def fun_upd_idem del: position_None_iff)
next
  case (Some i)
  note pos = position_SomeD [OF Some]
  let ?st = "(c ! i)\<lparr>ts_message_count := 0\<rparr>"
  have "checker_view c tid = track_of (c ! i)" using Some by (simp add: checker_view_def find_Some_iff_position)
  moreover have "checker_view (c[i := ?st]) = (checker_view c)(tid := track_of ?st)"
    using checker_view_update [of i c tid ?st] pos by simp
  moreover have "checker_inv seen (c[i := ?st])"
    using inv tracked_update [of i c ?st] filter_update_same [of i c ts_active ?st] pos by (auto simp: checker_inv_def)
  ultimately show ?thesis using Some by (simp add: reset_rate_window_def track_of_def)
qed

section \<open>Streams of checked messages\<close>

datatype check_op = Check verified_message_type message_metadata | ResetWindow message_type_id

fun op_ids :: "check_op \<Rightarrow> message_type_id list" where
  "op_ids (Check mt md) = [mt_type_id mt]"
| "op_ids (ResetWindow tid) = []"

text \<open>The results of the checks of a run, on the table and on the map.\<close>

fun checker_run :: "invariant_checker \<Rightarrow> check_op list \<Rightarrow> u8 option list" where
  "checker_run c [] = []"
| "checker_run c (Check mt md # ops) = (case checker_check c mt md of (r, c') \<Rightarrow> r # checker_run c' ops)"
| "checker_run c (ResetWindow tid # ops) = checker_run (reset_rate_window c tid) ops"

fun map_run :: "(message_type_id \<Rightarrow> track) \<Rightarrow> check_op list \<Rightarrow> u8 option list" where
  "map_run m [] = []"
| "map_run m (Check mt md # ops) = (let tid = mt_type_id mt; r = first_failure mt md (m tid) in
     r # map_run (if r = None then m(tid := track_accept md (m tid)) else m) ops)"
| "map_run m (ResetWindow tid # ops) = map_run (m(tid := (fst (m tid), 0))) ops"

lemma checker_run_eq:
  "checker_inv seen c \<Longrightarrow> card (seen \<union> set (concat (map op_ids ops))) \<le> MAX_MESSAGE_TYPES \<Longrightarrow>
     checker_run c ops = map_run (checker_view c) ops"
proof (induction ops arbitrary: seen c)
  case Nil
  then show ?case by simp
next
  case (Cons op ops)
  show ?case
  proof (cases op)
    case (Check mt md)
    let ?tid = "mt_type_id mt"
    have fin: "finite (seen \<union> set (concat (map op_ids (op # ops))))" using Cons.prems(1) by (simp add: checker_inv_def)
    have "card (insert ?tid seen) \<le> card (seen \<union> set (concat (map op_ids (op # ops))))"
      by (rule card_mono [OF fin]) (auto simp: Check)
    then have "card (insert ?tid seen) \<le> MAX_MESSAGE_TYPES" using Cons.prems(2) by linarith
    from checker_check_spec [OF Cons.prems(1) this, of md] obtain c' where
      c': "checker_check c mt md = (first_failure mt md (checker_view c ?tid), c')" "checker_inv (insert ?tid seen) c'"
        "checker_view c' = (if first_failure mt md (checker_view c ?tid) = None
          then (checker_view c)(?tid := track_accept md (checker_view c ?tid)) else checker_view c)" by blast
    have "checker_run c' ops = map_run (checker_view c') ops"
      using Cons.IH [OF c'(2)] Cons.prems(2) by (simp add: Check)
    then show ?thesis using c'(1,3) by (simp add: Check Let_def)
  next
    case (ResetWindow tid)
    note r = reset_rate_window_spec [OF Cons.prems(1), of tid]
    have "checker_run (reset_rate_window c tid) ops = map_run (checker_view (reset_rate_window c tid)) ops"
      using Cons.IH [OF conjunct1 [OF r]] Cons.prems(2) by (simp add: ResetWindow)
    then show ?thesis using r by (simp add: ResetWindow)
  qed
qed

text \<open>
  C26. The invariant checker keeps its state per message type. For any sequence of checks and window
  resets with at most 64 different message types, the results are those of a map that holds, for
  every type by itself, the last accepted timestamp and the number of accepted messages: no
  type's messages influence another's, and each result is the first invariant that fails.\<close>

theorem invariant_checker_refines_map:
  assumes "card (set (concat (map op_ids ops))) \<le> 64"
  shows "checker_run checker_new ops = map_run (\<lambda>_. (0, 0)) ops"
  using checker_run_eq [of "{}" checker_new ops] checker_inv_new assms by (simp add: MAX_MESSAGE_TYPES_def)

definition sensor_type :: verified_message_type where
  "sensor_type = DEFAULT_MESSAGE_TYPES ! 4"

definition actuator_type :: verified_message_type where
  "actuator_type = DEFAULT_MESSAGE_TYPES ! 5"

lemma sample_types:
  "mt_type_id sensor_type = 16" "mt_invariants sensor_type = [MaxPayloadBytes 8, MonotonicTimestamp]"
  "mt_type_id actuator_type = 17"
  "mt_invariants actuator_type = [MaxPayloadBytes 8, ValueRange (- 10000) 10000, RateLimit 100]"
  by (simp_all add: sensor_type_def actuator_type_def DEFAULT_MESSAGE_TYPES_def BUS_SENSOR_INVARIANTS_def
      BUS_ACTUATOR_INVARIANTS_def)

definition sample_ops :: "check_op list" where
  "sample_ops = [Check sensor_type (metadata_empty\<lparr>md_timestamp := 5\<rparr>), Check actuator_type metadata_empty,
     Check sensor_type (metadata_empty\<lparr>md_timestamp := 5\<rparr>)]"

lemma few_types: "length (concat (map op_ids ops)) \<le> 64 \<Longrightarrow> card (set (concat (map op_ids ops))) \<le> 64"
  using card_length [of "concat (map op_ids ops)"] by linarith

lemma sample_ops_few: "card (set (concat (map op_ids sample_ops))) \<le> 64"
  by (rule few_types) (simp add: sample_ops_def)

lemma sample_ops_map_run: "map_run (\<lambda>_. (0, 0)) sample_ops = [None, None, Some 1]"
  by (simp add: sample_ops_def sample_types first_failure_def track_accept_def track_state_def metadata_empty_def
      type_state_empty_def Let_def)

theorem invariant_checker_refines_map_witness: "checker_run checker_new sample_ops = [None, None, Some 1]"
  using invariant_checker_refines_map [OF sample_ops_few] sample_ops_map_run by simp

text \<open>The timestamps of the accepted messages of a type, in order.\<close>

fun accepted :: "message_type_id \<Rightarrow> check_op list \<Rightarrow> u8 option list \<Rightarrow> u64 list" where
  "accepted tid (Check mt md # ops) (r # rs) =
     (if mt_type_id mt = tid \<and> r = None then md_timestamp md # accepted tid ops rs else accepted tid ops rs)"
| "accepted tid (ResetWindow t # ops) rs = accepted tid ops rs"
| "accepted tid _ _ = []"

lemma first_failure_None: "first_failure mt md tr = None \<longleftrightarrow> (\<forall>v \<in> set (mt_invariants mt). check_single v md (track_state tr))"
  by (simp add: first_failure_def)

lemma check_op_list_induct [case_names Nil Check Reset]:
  assumes "P []" "\<And>mt md ops. P ops \<Longrightarrow> P (Check mt md # ops)" "\<And>t ops. P ops \<Longrightarrow> P (ResetWindow t # ops)"
  shows "P ops"
proof (induction ops)
  case (Cons op ops)
  then show ?case using assms(2,3) by (cases op) auto
qed (rule assms(1))

definition carries :: "message_type_id \<Rightarrow> msg_invariant \<Rightarrow> check_op list \<Rightarrow> bool" where
  "carries tid v ops \<longleftrightarrow> (\<forall>mt md. Check mt md \<in> set ops \<longrightarrow> mt_type_id mt = tid \<longrightarrow> v \<in> set (mt_invariants mt))"

lemma carries_simps [simp]:
  "carries tid v (Check mt md # ops) \<longleftrightarrow> (mt_type_id mt = tid \<longrightarrow> v \<in> set (mt_invariants mt)) \<and> carries tid v ops"
  "carries tid v (ResetWindow t # ops) \<longleftrightarrow> carries tid v ops"
  by (auto simp: carries_def)

lemma map_run_monotonic:
  "carries tid MonotonicTimestamp ops \<Longrightarrow>
     sorted_wrt (<) (filter (\<lambda>ts. ts \<noteq> 0) (accepted tid ops (map_run m ops))) \<and>
     (\<forall>ts \<in> set (accepted tid ops (map_run m ops)). ts \<noteq> 0 \<longrightarrow> fst (m tid) < ts)"
proof (induction ops arbitrary: m rule: check_op_list_induct)
  case Nil
  then show ?case by simp
next
  case (Reset t ops)
  define m' where "m' = m(t := (fst (m t), 0))"
  have "fst (m' tid) = fst (m tid)" by (simp add: m'_def)
  then show ?case using Reset.IH [of m'] Reset.prems by (simp flip: m'_def)
next
  case (Check mt md ops)
  show ?case
  proof (cases "mt_type_id mt = tid \<and> first_failure mt md (m tid) = None")
    case True
    define m' where "m' = m(tid := track_accept md (m tid))"
    have m': "m' tid = track_accept md (m tid)" by (simp add: m'_def)
    have run: "accepted tid (Check mt md # ops) (map_run m (Check mt md # ops)) =
        md_timestamp md # accepted tid ops (map_run m' ops)" using True by (simp add: Let_def m'_def)
    have "check_single MonotonicTimestamp md (track_state (m tid))"
      using True Check.prems unfolding first_failure_None carries_simps by blast
    then have mono: "fst (m tid) = 0 \<or> fst (m tid) < md_timestamp md"
      by (simp add: track_state_def split: if_splits)
    have ih: "sorted_wrt (<) (filter (\<lambda>ts. ts \<noteq> 0) (accepted tid ops (map_run m' ops)))"
      "\<forall>ts \<in> set (accepted tid ops (map_run m' ops)). ts \<noteq> 0 \<longrightarrow> fst (m' tid) < ts"
      using Check.IH [of m'] Check.prems by simp_all
    have le: "md_timestamp md \<le> fst (m' tid)" "fst (m tid) \<le> fst (m' tid)"
      using mono by (auto simp: m' track_accept_def word_gt_0)
    have "md_timestamp md < ts \<and> fst (m tid) < ts" if "ts \<in> set (accepted tid ops (map_run m' ops))" "ts \<noteq> 0" for ts
      using ih(2) le that by (meson order_le_less_trans)
    moreover have "md_timestamp md \<noteq> 0 \<longrightarrow> fst (m tid) < md_timestamp md" using mono by (auto simp: word_gt_0)
    ultimately show ?thesis using ih(1) unfolding run by auto
  next
    case False
    let ?m = "if first_failure mt md (m (mt_type_id mt)) = None
      then m(mt_type_id mt := track_accept md (m (mt_type_id mt))) else m"
    define m' where "m' = ?m"
    have e: "m' tid = m tid" using False by (auto simp: m'_def)
    have "accepted tid (Check mt md # ops) (map_run m (Check mt md # ops)) = accepted tid ops (map_run m' ops)"
      using False by (auto simp: Let_def m'_def)
    then show ?thesis using Check.IH [of m'] Check.prems e by simp
  qed
qed

lemma map_run_rate:
  "carries tid (RateLimit n) ops \<Longrightarrow> ResetWindow tid \<notin> set ops \<Longrightarrow>
     length (accepted tid ops (map_run m ops)) \<le> unat n - unat (snd (m tid))"
proof (induction ops arbitrary: m rule: check_op_list_induct)
  case Nil
  then show ?case by simp
next
  case (Reset t ops)
  define m' where "m' = m(t := (fst (m t), 0))"
  have "m' tid = m tid" using Reset.prems(2) by (auto simp: m'_def)
  then show ?case using Reset.IH [of m'] Reset.prems by (simp flip: m'_def)
next
  case (Check mt md ops)
  show ?case
  proof (cases "mt_type_id mt = tid \<and> first_failure mt md (m tid) = None")
    case True
    define m' where "m' = m(tid := track_accept md (m tid))"
    have m': "m' tid = track_accept md (m tid)" by (simp add: m'_def)
    have run: "accepted tid (Check mt md # ops) (map_run m (Check mt md # ops)) =
        md_timestamp md # accepted tid ops (map_run m' ops)" using True by (simp add: Let_def m'_def)
    have "check_single (RateLimit n) md (track_state (m tid))"
      using True Check.prems unfolding first_failure_None carries_simps by blast
    then have "snd (m tid) < n" by (simp add: track_state_def)
    then have lt: "unat (snd (m tid)) < unat n" by (simp add: word_less_nat_alt)
    have "unat n < 2 ^ LENGTH(32)" by (rule unsigned_less)
    with lt have "unat (snd (m' tid)) = Suc (unat (snd (m tid)))"
      by (simp add: m' track_accept_def unat_word_ariths)
    with lt show ?thesis using Check.IH [of m'] Check.prems unfolding run by simp
  next
    case False
    let ?m = "if first_failure mt md (m (mt_type_id mt)) = None
      then m(mt_type_id mt := track_accept md (m (mt_type_id mt))) else m"
    define m' where "m' = ?m"
    have e: "m' tid = m tid" using False by (auto simp: m'_def)
    have "accepted tid (Check mt md # ops) (map_run m (Check mt md # ops)) = accepted tid ops (map_run m' ops)"
      using False by (auto simp: Let_def m'_def)
    then show ?thesis using Check.IH [of m'] Check.prems e by simp
  qed
qed

text \<open>
  The stateful invariants hold of what passes. In any sequence of checks and window resets with at
  most 64 message types, the nonzero timestamps of the accepted messages of a type that carries
  \<open>MonotonicTimestamp\<close> are strictly increasing, and of a type that carries \<open>RateLimit n\<close> at most \<open>n\<close>
  messages are accepted without a reset of its window.\<close>

theorem accepted_streams_keep_invariants:
  assumes few: "card (set (concat (map op_ids ops))) \<le> 64"
  shows "(carries tid MonotonicTimestamp ops \<longrightarrow>
      sorted_wrt (<) (filter (\<lambda>ts. ts \<noteq> 0) (accepted tid ops (checker_run checker_new ops)))) \<and>
    (carries tid (RateLimit n) ops \<and> ResetWindow tid \<notin> set ops \<longrightarrow>
      length (accepted tid ops (checker_run checker_new ops)) \<le> unat n)"
proof -
  have run: "checker_run checker_new ops = map_run (\<lambda>_. (0, 0)) ops"
    using checker_run_eq [of "{}" checker_new ops] checker_inv_new few by (simp add: MAX_MESSAGE_TYPES_def)
  show ?thesis
    using map_run_monotonic [of tid ops "\<lambda>_. (0, 0)"] map_run_rate [of tid n ops "\<lambda>_. (0, 0)"]
    unfolding run by simp
qed

theorem accepted_streams_keep_invariants_witness:
  "sorted_wrt (<) (filter (\<lambda>ts. ts \<noteq> 0) (accepted 16 sample_ops (checker_run checker_new sample_ops))) \<and>
   length (accepted 17 sample_ops (checker_run checker_new sample_ops)) \<le> unat (100 :: u32)"
proof -
  have "carries 16 MonotonicTimestamp sample_ops" "carries 17 (RateLimit 100) sample_ops"
    "ResetWindow 17 \<notin> set sample_ops"
    by (auto simp: carries_def sample_ops_def sample_types)
  then show ?thesis
    using accepted_streams_keep_invariants [OF sample_ops_few, of 16 1]
      accepted_streams_keep_invariants [OF sample_ops_few, of 17 100] by blast
qed

section \<open>The registry\<close>

definition registry_inv :: "message_type_registry \<Rightarrow> bool" where
  [inv_defs]: "registry_inv r \<longleftrightarrow> length (mr_types r) = MAX_MESSAGE_TYPES \<and>
     mr_count r = length (mr_iter r) \<and> distinct (map mt_type_id (mr_iter r))"

lemma registry_inv_new: "registry_inv registry_new"
  by (simp add: registry_inv_def registry_new_def mr_iter_def)

lemma mr_register_spec:
  assumes inv: "registry_inv r"
  shows "case mr_register r mt of (ok, r') \<Rightarrow> registry_inv r' \<and>
    (ok \<longleftrightarrow> mr_lookup r (mt_type_id mt) = None \<and> \<not> mr_is_full r) \<and> (\<not> ok \<longrightarrow> r' = r) \<and>
    mr_lookup r' = (if ok then (mr_lookup r)(mt_type_id mt := Some mt) else mr_lookup r)"
proof -
  let ?xs = "mr_types r" and ?dup = "list_ex (\<lambda>e. mt_type_id e = mt_type_id mt) (flatten_opt (mr_types r))"
  have lk: "mr_lookup r (mt_type_id mt) = None \<longleftrightarrow> \<not> ?dup"
    by (auto simp: mr_lookup_def find_None_iff list_ex_iff)
  have full: "mr_is_full r \<longleftrightarrow> None \<notin> set ?xs"
    using inv flatten_full [of ?xs] length_flatten_opt_le [of ?xs]
    by (auto simp: registry_inv_def mr_is_full_def mr_iter_def)
  show ?thesis
  proof (cases "?dup \<or> None \<notin> set ?xs")
    case True
    then have "mr_register r mt = (False, r)"
    proof
      assume "None \<notin> set ?xs"
      then have "position (\<lambda>s. s = None) ?xs = None" unfolding position_None_iff by metis
      then show ?thesis by (simp add: mr_register_def del: position_None_iff)
    qed (simp add: mr_register_def)
    then show ?thesis using True inv lk full by auto
  next
    case False
    then obtain i where i: "position (\<lambda>s. s = None) ?xs = Some i"
      using position_exists [of None ?xs "\<lambda>s. s = None"] by auto
    note pos = position_SomeD [OF i]
    let ?A = "flatten_opt (take i ?xs)" and ?B = "flatten_opt (drop (Suc i) ?xs)"
    have old: "flatten_opt ?xs = ?A @ ?B"
      using id_take_nth_drop [of i ?xs] pos by (metis flatten_opt_append flatten_opt_simps(2))
    have new: "flatten_opt (?xs[i := Some mt]) = ?A @ mt # ?B" using pos by (simp add: flatten_opt_update_None)
    have reg: "mr_register r mt = (True, r\<lparr>mr_types := ?xs[i := Some mt], mr_count := mr_count r + 1\<rparr>)"
      using False i by (simp add: mr_register_def)
    have fresh: "\<forall>e \<in> set (?A @ ?B). mt_type_id e \<noteq> mt_type_id mt"
      using False unfolding old [symmetric] by (simp add: list_ex_iff)
    have "registry_inv (snd (mr_register r mt))"
      using inv fresh by (auto simp: reg registry_inv_def mr_iter_def old new)
    moreover have "mr_lookup (snd (mr_register r mt)) = (mr_lookup r)(mt_type_id mt := Some mt)"
      using find_insert_key [OF fresh] by (auto simp: reg mr_lookup_def fun_eq_iff old new)
    ultimately show ?thesis using False lk full by (simp add: reg)
  qed
qed

text \<open>
  What the users of a registry rely on: registration succeeds exactly for a new key below the
  capacity, and then the lookup is updated at that key.
\<close>

locale keyed_registry =
  fixes wf :: "'r \<Rightarrow> bool" and reg :: "'r \<Rightarrow> 'v \<Rightarrow> bool \<times> 'r" and look :: "'r \<Rightarrow> 'k \<Rightarrow> 'v option"
    and key :: "'v \<Rightarrow> 'k" and count :: "'r \<Rightarrow> nat" and capacity :: nat
  assumes reg_wf: "wf r \<Longrightarrow> wf (snd (reg r v))"
    and reg_ok: "wf r \<Longrightarrow> fst (reg r v) \<longleftrightarrow> look r (key v) = None \<and> count r < capacity"
    and reg_look: "wf r \<Longrightarrow> look (snd (reg r v)) = (if fst (reg r v) then (look r)(key v := Some v) else look r)"
    and reg_count: "wf r \<Longrightarrow> count (snd (reg r v)) = (if fst (reg r v) then Suc (count r) else count r)"
begin

lemma reg_twice: "wf r \<Longrightarrow> fst (reg r v) \<Longrightarrow> key w = key v \<Longrightarrow> \<not> fst (reg (snd (reg r v)) w)"
  using reg_ok [of "snd (reg r v)" w] reg_wf [of r v] reg_look [of r v] by simp

lemma reg_all:
  assumes "wf r" "distinct (map key vs)" "\<forall>v \<in> set vs. look r (key v) = None" "count r + length vs \<le> capacity"
  shows "let r' = fold (\<lambda>v r. snd (reg r v)) vs r in
    wf r' \<and> count r' = count r + length vs \<and>
    (\<forall>k. look r' k = (case find (\<lambda>v. key v = k) vs of Some v \<Rightarrow> Some v | None \<Rightarrow> look r k))"
  using assms
proof (induction vs arbitrary: r)
  case Nil
  then show ?case by simp
next
  case (Cons v vs)
  let ?r = "snd (reg r v)"
  have ok: "fst (reg r v)" using Cons.prems reg_ok [of r v] by simp
  have l: "look ?r = (look r)(key v := Some v)" using reg_look [of r v] Cons.prems(1) ok by simp
  have "wf ?r" using reg_wf Cons.prems(1) by blast
  moreover have "count ?r = Suc (count r)" using reg_count [of r v] Cons.prems(1) ok by simp
  moreover have other: "key v' \<noteq> key v" if "v' \<in> set vs" for v'
    using Cons.prems(2) that by (metis distinct.simps(2) image_eqI list.map(2) set_map)
  then have "\<forall>v' \<in> set vs. look ?r (key v') = None" using Cons.prems(3) by (auto simp: l)
  ultimately have "let r' = fold (\<lambda>v r. snd (reg r v)) vs ?r in
      wf r' \<and> count r' = count r + length (v # vs) \<and>
      (\<forall>k. look r' k = (case find (\<lambda>v. key v = k) vs of Some v \<Rightarrow> Some v | None \<Rightarrow> look ?r k))"
    using Cons.IH [of ?r] Cons.prems(2,4) by simp
  moreover have "find (\<lambda>v'. key v' = key v) vs = None" using other by (auto simp: find_None_iff)
  ultimately show ?case by (auto simp: Let_def l split: option.splits)
qed

end

interpretation mreg: keyed_registry registry_inv mr_register mr_lookup mt_type_id mr_count MAX_MESSAGE_TYPES
proof
  fix r v assume r: "registry_inv r"
  note spec = mr_register_spec [OF r, of v]
  show "registry_inv (snd (mr_register r v))" using spec by (auto split: prod.splits)
  show "fst (mr_register r v) = (mr_lookup r (mt_type_id v) = None \<and> mr_count r < MAX_MESSAGE_TYPES)"
    using spec by (auto simp: mr_is_full_def split: prod.splits)
  show "mr_lookup (snd (mr_register r v)) =
      (if fst (mr_register r v) then (mr_lookup r)(mt_type_id v := Some v) else mr_lookup r)"
    using spec by (auto split: prod.splits)
  show "mr_count (snd (mr_register r v)) = (if fst (mr_register r v) then Suc (mr_count r) else mr_count r)"
    by (auto simp: mr_register_def split: option.splits)
qed

lemma default_ids: "map mt_type_id DEFAULT_MESSAGE_TYPES = [1, 2, 3, 4, 16, 17, 32, 33, 48, 49, 64]"
  by (simp add: DEFAULT_MESSAGE_TYPES_def)

lemma default_verified: "list_all is_verified DEFAULT_MESSAGE_TYPES"
  by code_simp

lemma default_registry_spec:
  "registry_inv default_registry \<and> mr_count default_registry = 11 \<and>
   mr_lookup default_registry = (\<lambda>k. find (\<lambda>mt. mt_type_id mt = k) DEFAULT_MESSAGE_TYPES)"
proof -
  have "distinct (map mt_type_id DEFAULT_MESSAGE_TYPES)" by (simp add: default_ids)
  moreover have "length DEFAULT_MESSAGE_TYPES = 11" using arg_cong [OF default_ids, of length] by simp
  moreover have "mr_lookup registry_new k = None" "mr_count registry_new = 0" for k
    by (simp_all add: mr_lookup_def registry_new_def)
  ultimately show ?thesis
    using mreg.reg_all [OF registry_inv_new, of DEFAULT_MESSAGE_TYPES]
    by (auto simp: default_registry_def Let_def MAX_MESSAGE_TYPES_def fun_eq_iff split: option.splits)
qed

end
