(* ===== verification/Policy.thy ===== *)
theory Policy
  imports Message_Types
begin

text \<open>
  The security policy (\<open>security/src/policy.rs\<close>): the whitelist of model hashes, loading a policy
  from a blob, remote updates and the revalidation of loaded models. The signature bytes of a blob
  are skipped by the code, so they do not occur in the model of loading.
\<close>

definition POLICY_MAGIC :: u32 where
  "POLICY_MAGIC = 0x53504F4C"

definition POLICY_VERSION :: u32 where
  "POLICY_VERSION = 1"

definition MAX_MODEL_WHITELIST :: nat where
  "MAX_MODEL_WHITELIST = 32"

definition POLICY_SIG_SIZE :: nat where
  "POLICY_SIG_SIZE = 64"

definition POLICY_BOUNDARIES :: nat where
  "POLICY_BOUNDARIES = 5"

section \<open>The whitelist\<close>

record model_whitelist =
  wl_hashes :: "schema_hash list"
  wl_count :: nat

definition whitelist_new :: model_whitelist where
  "whitelist_new = \<lparr>wl_hashes = replicate MAX_MODEL_WHITELIST (replicate 32 0), wl_count = 0\<rparr>"

definition whitelist_contains :: "model_whitelist \<Rightarrow> schema_hash \<Rightarrow> bool" where
  "whitelist_contains w hash = list_ex (\<lambda>i. wl_hashes w ! i = hash) [0..<wl_count w]"

definition whitelist_add :: "model_whitelist \<Rightarrow> schema_hash \<Rightarrow> bool \<times> model_whitelist" where
  "whitelist_add w hash =
     (if wl_count w \<ge> MAX_MODEL_WHITELIST then (False, w)
      else if list_ex (\<lambda>i. wl_hashes w ! i = hash) [0..<wl_count w] then (True, w)
      else (True, w\<lparr>wl_hashes := (wl_hashes w)[wl_count w := hash], wl_count := wl_count w + 1\<rparr>))"

definition whitelist_is_empty :: "model_whitelist \<Rightarrow> bool" where
  "whitelist_is_empty w \<longleftrightarrow> wl_count w = 0"

section \<open>Policies\<close>

datatype policy_error =
    BlobTooShort
  | InvalidMagic
  | UnsupportedVersion
  | SignatureInvalid
  | InconsistentPolicy
  | EnforcementDemotion message_type_id
  | DuplicateTypeId message_type_id

record security_policy =
  sp_type_registry :: message_type_registry
  sp_model_whitelist :: model_whitelist
  sp_boundary_modes :: "enforcement_mode list"
  sp_global_mode :: enforcement_mode
  sp_policy_hash :: schema_hash
  sp_version :: u32

definition default_policy :: security_policy where
  "default_policy =
     \<lparr>sp_type_registry = default_registry, sp_model_whitelist = whitelist_new,
      sp_boundary_modes = replicate POLICY_BOUNDARIES Permissive, sp_global_mode = Permissive,
      sp_policy_hash = UNVERIFIED_HASH, sp_version = POLICY_VERSION\<rparr>"

definition deserialize_payload :: "u8 list \<Rightarrow> u32 \<Rightarrow> (policy_error, security_policy) result" where
  "deserialize_payload payload version =
     (case payload of
        [] \<Rightarrow> Inl InconsistentPolicy
      | b # _ \<Rightarrow>
        (case (if b = 0 then Some Enforcing else if b = 1 then Some Permissive else None) of
           None \<Rightarrow> Inl InconsistentPolicy
         | Some global_mode \<Rightarrow>
             Inr \<lparr>sp_type_registry = default_registry, sp_model_whitelist = whitelist_new,
               sp_boundary_modes = replicate POLICY_BOUNDARIES global_mode, sp_global_mode = global_mode,
               sp_policy_hash = UNVERIFIED_HASH, sp_version = version\<rparr>))"

definition load_from_blob :: "u8 list \<Rightarrow> (policy_error, security_policy) result" where
  "load_from_blob blob =
     (let header_size = 8 + POLICY_SIG_SIZE in
      if length blob < header_size then Inl BlobTooShort
      else if from_le_bytes [blob ! 0, blob ! 1, blob ! 2, blob ! 3] \<noteq> POLICY_MAGIC then Inl InvalidMagic
      else let version = from_le_bytes [blob ! 4, blob ! 5, blob ! 6, blob ! 7] in
        if version \<noteq> POLICY_VERSION then Inl UnsupportedVersion
        else deserialize_payload (drop header_size blob) version)"

definition demoted_by :: "security_policy \<Rightarrow> verified_message_type \<Rightarrow> bool" where
  "demoted_by new_policy existing \<longleftrightarrow> mt_mode existing = Enforcing \<and>
     (case mr_lookup (sp_type_registry new_policy) (mt_type_id existing) of
        Some new_type \<Rightarrow> mt_mode new_type = Permissive | None \<Rightarrow> False)"

definition remote_update :: "security_policy \<Rightarrow> u8 list \<Rightarrow> (policy_error, security_policy) result" where
  "remote_update p blob =
     (case load_from_blob blob of
        Inl e \<Rightarrow> Inl e
      | Inr new_policy \<Rightarrow>
        (case find (demoted_by new_policy) (mr_iter (sp_type_registry p)) of
           Some existing \<Rightarrow> Inl (EnforcementDemotion (mt_type_id existing))
         | None \<Rightarrow> Inr new_policy))"

definition model_allowed :: "security_policy \<Rightarrow> schema_hash \<Rightarrow> bool" where
  "model_allowed p hash \<longleftrightarrow>
     (if whitelist_is_empty (sp_model_whitelist p) then True else whitelist_contains (sp_model_whitelist p) hash)"

record revalidation_result =
  rv_valid_models :: "schema_hash list"
  rv_rejected_models :: "schema_hash list"

definition revalidate_models :: "schema_hash list \<Rightarrow> security_policy \<Rightarrow> revalidation_result" where
  "revalidate_models hashes p = fold
     (\<lambda>hash r. if model_allowed p hash then r\<lparr>rv_valid_models := rv_valid_models r @ [hash]\<rparr>
        else r\<lparr>rv_rejected_models := rv_rejected_models r @ [hash]\<rparr>)
     hashes \<lparr>rv_valid_models = [], rv_rejected_models = []\<rparr>"

section \<open>The whitelist as a list of distinct hashes\<close>

definition whitelisted :: "model_whitelist \<Rightarrow> schema_hash list" where
  "whitelisted w = take (wl_count w) (wl_hashes w)"

definition whitelist_inv :: "model_whitelist \<Rightarrow> bool" where
  [inv_defs]: "whitelist_inv w \<longleftrightarrow> length (wl_hashes w) = MAX_MODEL_WHITELIST \<and> wl_count w \<le> MAX_MODEL_WHITELIST \<and>
     distinct (whitelisted w)"

lemma list_ex_upt_nth: "n \<le> length xs \<Longrightarrow> list_ex (\<lambda>i. xs ! i = y) [0..<n] \<longleftrightarrow> y \<in> set (take n xs)"
  by (auto simp: list_ex_iff in_set_conv_nth)

lemma length_whitelisted: "whitelist_inv w \<Longrightarrow> length (whitelisted w) = wl_count w"
  by (simp add: whitelist_inv_def whitelisted_def)

lemma whitelist_contains_iff: "whitelist_inv w \<Longrightarrow> whitelist_contains w hash \<longleftrightarrow> hash \<in> set (whitelisted w)"
  by (simp add: whitelist_contains_def whitelist_inv_def whitelisted_def list_ex_upt_nth)

lemma whitelist_new_inv: "whitelist_inv whitelist_new \<and> whitelisted whitelist_new = []"
  by (simp add: whitelist_inv_def whitelist_new_def whitelisted_def)

lemma whitelist_add_spec:
  assumes inv: "whitelist_inv w"
  shows "case whitelist_add w hash of (ok, w') \<Rightarrow> whitelist_inv w' \<and> (ok \<longleftrightarrow> length (whitelisted w) < MAX_MODEL_WHITELIST) \<and>
    whitelisted w' = (if ok \<and> hash \<notin> set (whitelisted w) then whitelisted w @ [hash] else whitelisted w)"
proof -
  let ?n = "wl_count w"
  have l: "length (wl_hashes w) = MAX_MODEL_WHITELIST" "?n \<le> MAX_MODEL_WHITELIST" using inv by (auto simp: whitelist_inv_def)
  have mem: "list_ex (\<lambda>i. wl_hashes w ! i = hash) [0..<?n] \<longleftrightarrow> hash \<in> set (whitelisted w)"
    using l by (simp add: list_ex_upt_nth whitelisted_def)
  have "whitelisted (w\<lparr>wl_hashes := (wl_hashes w)[?n := hash], wl_count := ?n + 1\<rparr>) = whitelisted w @ [hash]"
    if "?n < MAX_MODEL_WHITELIST" using that l by (simp add: whitelisted_def take_Suc_conv_app_nth)
  then show ?thesis using inv l length_whitelisted [OF inv]
    by (auto simp: whitelist_add_def mem whitelist_inv_def)
qed

lemma remdups_first_snoc:
  "rev (remdups (rev (xs @ [x]))) = (if x \<in> set xs then rev (remdups (rev xs)) else rev (remdups (rev xs)) @ [x])"
  by simp

lemma whitelist_adds:
  "let w = fold (\<lambda>h w. snd (whitelist_add w h)) hs whitelist_new in
     whitelist_inv w \<and> whitelisted w = take MAX_MODEL_WHITELIST (rev (remdups (rev hs)))"
proof (induction hs rule: rev_induct)
  case Nil
  then show ?case using whitelist_new_inv by simp
next
  case (snoc h hs)
  let ?w = "fold (\<lambda>h w. snd (whitelist_add w h)) hs whitelist_new" and ?d = "rev (remdups (rev hs))"
  have ih: "whitelist_inv ?w" "whitelisted ?w = take MAX_MODEL_WHITELIST ?d" using snoc by (simp_all add: Let_def)
  have "whitelisted (snd (whitelist_add ?w h)) = take MAX_MODEL_WHITELIST (rev (remdups (rev (hs @ [h]))))"
    using whitelist_add_spec [OF ih(1), of h] unfolding ih(2) remdups_first_snoc
    by (cases "length ?d < MAX_MODEL_WHITELIST") (auto split: prod.splits)
  then show ?case using whitelist_add_spec [OF ih(1), of h] by (auto simp: Let_def split: prod.splits)
qed

text \<open>
  The whitelist is a bounded set. After any sequence of additions it holds the first
  thirty-two distinct hashes that were added, and a model is allowed exactly when it is one of
  them, except that every model is allowed while nothing has been added. An addition reports
  success exactly while fewer than thirty-two hashes are held, also for a hash that is present.
\<close>

theorem whitelist_is_bounded_set:
  "let w = fold (\<lambda>h w. snd (whitelist_add w h)) hs whitelist_new;
       held = take 32 (rev (remdups (rev hs))) in
     (model_allowed (p\<lparr>sp_model_whitelist := w\<rparr>) hash \<longleftrightarrow> hs = [] \<or> hash \<in> set held) \<and>
     (fst (whitelist_add w hash) \<longleftrightarrow> length held < 32) \<and> wl_count w = length held"
proof -
  let ?w = "fold (\<lambda>h w. snd (whitelist_add w h)) hs whitelist_new"
  have w: "whitelist_inv ?w" "whitelisted ?w = take 32 (rev (remdups (rev hs)))"
    using whitelist_adds [of hs] by (simp_all add: Let_def MAX_MODEL_WHITELIST_def)
  have n: "wl_count ?w = length (take 32 (rev (remdups (rev hs))))"
    using length_whitelisted [OF w(1)] unfolding w(2) by simp
  have "wl_count ?w = 0 \<longleftrightarrow> hs = []" unfolding n length_take length_rev min_def by (cases hs rule: rev_cases) auto
  moreover have "fst (whitelist_add ?w hash) \<longleftrightarrow> length (whitelisted ?w) < MAX_MODEL_WHITELIST"
    using whitelist_add_spec [OF w(1), of hash] by (auto split: prod.splits)
  ultimately show ?thesis using whitelist_contains_iff [OF w(1), of hash] n
    unfolding w(2) Let_def by (auto simp: model_allowed_def whitelist_is_empty_def MAX_MODEL_WHITELIST_def)
qed

section \<open>Loading and updating\<close>

text \<open>The blobs that load, and the mode they set.\<close>

definition blob_ok :: "u8 list \<Rightarrow> enforcement_mode \<Rightarrow> bool" where
  "blob_ok blob mode \<longleftrightarrow> 8 + POLICY_SIG_SIZE < length blob \<and> take 4 blob = to_le_bytes 4 POLICY_MAGIC \<and>
     take 4 (drop 4 blob) = to_le_bytes 4 POLICY_VERSION \<and>
     blob ! (8 + POLICY_SIG_SIZE) = (case mode of Enforcing \<Rightarrow> 0 | Permissive \<Rightarrow> 1)"

definition policy_of :: "enforcement_mode \<Rightarrow> security_policy" where
  "policy_of mode =
     \<lparr>sp_type_registry = default_registry, sp_model_whitelist = whitelist_new,
      sp_boundary_modes = replicate POLICY_BOUNDARIES mode, sp_global_mode = mode,
      sp_policy_hash = UNVERIFIED_HASH, sp_version = POLICY_VERSION\<rparr>"

lemma le_bytes4_iff: "length bs = 4 \<Longrightarrow> (from_le_bytes bs :: u32) = w \<longleftrightarrow> bs = to_le_bytes 4 w"
  using to_from_le_bytes [where 'a = 32, of 4 bs] from_to_le_bytes [where 'a = 32, of 4 w] by auto

lemma four_nth: "k + 4 \<le> length xs \<Longrightarrow> [xs ! k, xs ! (k + 1), xs ! (k + 2), xs ! (k + 3)] = take 4 (drop k xs)"
  by (rule nth_equalityI) (auto simp: less_Suc_eq numeral_eq_Suc)

lemma ex_mode: "(\<exists>mode. P mode) \<longleftrightarrow> P Enforcing \<or> P Permissive"
  by (metis enforcement_mode.exhaust)

lemma payload_iff:
  "deserialize_payload payload v = Inr q \<longleftrightarrow>
     (\<exists>mode. payload \<noteq> [] \<and> hd payload = (case mode of Enforcing \<Rightarrow> 0 | Permissive \<Rightarrow> 1) \<and>
        q = policy_of mode\<lparr>sp_version := v\<rparr>)"
proof (cases payload)
  case (Cons b bs)
  consider "b = 0" | "b = 1" | "b \<noteq> 0" "b \<noteq> 1" by blast
  then show ?thesis
    by cases (auto simp: deserialize_payload_def policy_of_def Cons ex_mode)
qed (simp add: deserialize_payload_def)

lemma load_iff: "load_from_blob blob = Inr q \<longleftrightarrow> (\<exists>mode. blob_ok blob mode \<and> q = policy_of mode)"
proof (cases "length blob < 72")
  case True
  then show ?thesis by (simp add: load_from_blob_def blob_ok_def POLICY_SIG_SIZE_def)
next
  case False
  have b: "[blob ! 0, blob ! 1, blob ! 2, blob ! 3] = take 4 blob" "[blob ! 4, blob ! 5, blob ! 6, blob ! 7] = take 4 (drop 4 blob)"
    using four_nth [of 0 blob] four_nth [of 4 blob] False by (simp_all add: numeral_2_eq_2)
  have w: "from_le_bytes (take 4 blob) = POLICY_MAGIC \<longleftrightarrow> take 4 blob = to_le_bytes 4 POLICY_MAGIC"
    "from_le_bytes (take 4 (drop 4 blob)) = POLICY_VERSION \<longleftrightarrow> take 4 (drop 4 blob) = to_le_bytes 4 POLICY_VERSION"
    using False by (simp_all add: le_bytes4_iff)
  have "policy_of mode\<lparr>sp_version := POLICY_VERSION\<rparr> = policy_of mode" for mode by (simp add: policy_of_def)
  then show ?thesis using False unfolding load_from_blob_def b Let_def
    by (auto simp: w payload_iff blob_ok_def POLICY_SIG_SIZE_def hd_drop_conv_nth
        simp del: from_le_bytes.simps split: if_splits)
qed

lemma mr_iter_lookup:
  assumes "registry_inv r" "mt \<in> set (mr_iter r)"
  shows "mr_lookup r (mt_type_id mt) = Some mt"
proof -
  have "distinct (map mt_type_id xs) \<Longrightarrow> mt \<in> set xs \<Longrightarrow> find (\<lambda>m. mt_type_id m = mt_type_id mt) xs = Some mt" for xs
    by (induction xs) (auto simp: image_iff)
  then show ?thesis using assms by (simp add: mr_lookup_def registry_inv_def mr_iter_def del: set_flatten_opt)
qed

lemma catalogue_lookup:
  "mr_lookup default_registry tid = Some mt \<Longrightarrow> mt_mode mt = Permissive"
  "mr_lookup default_registry tid = None \<longleftrightarrow> tid \<notin> set (map mt_type_id DEFAULT_MESSAGE_TYPES)"
proof -
  have perm: "\<forall>mt \<in> set DEFAULT_MESSAGE_TYPES. mt_mode mt = Permissive" by (simp add: DEFAULT_MESSAGE_TYPES_def)
  note look = default_registry_spec [THEN conjunct2, THEN conjunct2]
  show "mr_lookup default_registry tid = Some mt \<Longrightarrow> mt_mode mt = Permissive"
    using perm unfolding look by (auto dest: find_SomeD)
  show "mr_lookup default_registry tid = None \<longleftrightarrow> tid \<notin> set (map mt_type_id DEFAULT_MESSAGE_TYPES)"
    unfolding look by (auto simp: find_None_iff)
qed

lemma demoted_iff: "demoted_by (policy_of mode) mt \<longleftrightarrow>
    mt_mode mt = Enforcing \<and> mt_type_id mt \<in> set (map mt_type_id DEFAULT_MESSAGE_TYPES)"
  using catalogue_lookup [of "mt_type_id mt"]
  by (auto simp: demoted_by_def policy_of_def split: option.splits simp del: set_map)

text \<open>
  C38. What a remote update accepts. An update is installed exactly when its blob is longer than
  the header, carries the magic number and version 1 and has a mode byte of 0 or 1, and the
  running policy enforces no type of the built-in catalogue; the policy installed is determined by
  that byte. Otherwise it is refused, and a refusal for demotion names an enforced type of the
  running policy that the catalogue has.
\<close>

theorem remote_update_exact:
  "(remote_update p blob = Inr q \<longleftrightarrow> (\<exists>mode. blob_ok blob mode \<and> q = policy_of mode) \<and>
      (\<forall>mt \<in> set (mr_iter (sp_type_registry p)). mt_mode mt = Enforcing \<longrightarrow>
         mt_type_id mt \<notin> set (map mt_type_id DEFAULT_MESSAGE_TYPES))) \<and>
   (remote_update p blob = Inl (EnforcementDemotion tid) \<longrightarrow>
      (\<exists>mt \<in> set (mr_iter (sp_type_registry p)). mt_type_id mt = tid \<and> mt_mode mt = Enforcing \<and>
         tid \<in> set (map mt_type_id DEFAULT_MESSAGE_TYPES)))"
proof (cases "load_from_blob blob")
  case (Inl e)
  then have "\<nexists>mode. blob_ok blob mode" using load_iff [of blob] by auto
  moreover have "e \<noteq> EnforcementDemotion tid"
    using Inl by (auto simp: load_from_blob_def deserialize_payload_def Let_def split: if_splits list.splits)
  ultimately show ?thesis using Inl by (simp add: remote_update_def)
next
  case (Inr q')
  then obtain mode where m: "blob_ok blob mode" "q' = policy_of mode" using load_iff by auto
  have "q = policy_of mode' \<Longrightarrow> blob_ok blob mode' \<Longrightarrow> q = q'" for mode'
    using load_iff [of blob q] Inr by auto
  then show ?thesis using Inr m(1)
    by (auto simp: remote_update_def m(2) demoted_iff find_None_iff simp del: set_map split: option.splits dest!: find_SomeD)
qed

definition sample_blob :: "u8 \<Rightarrow> u8 list" where
  "sample_blob b = [0x4C, 0x4F, 0x50, 0x53, 1, 0, 0, 0] @ replicate 64 0 @ [b]"

lemma sample_blob_ok: "blob_ok (sample_blob 0) Enforcing" "blob_ok (sample_blob 1) Permissive"
  by (simp_all add: blob_ok_def sample_blob_def POLICY_SIG_SIZE_def POLICY_MAGIC_def POLICY_VERSION_def to_le_bytes_def
      upt_rec nth_append)

theorem remote_update_exact_witness: "remote_update default_policy (sample_blob 0) = Inr (policy_of Enforcing)"
proof (rule remote_update_exact [of _ _ _ 0, THEN conjunct1, THEN iffD2], intro conjI ballI impI)
  show "\<exists>mode. blob_ok (sample_blob 0) mode \<and> policy_of Enforcing = policy_of mode" using sample_blob_ok by blast
  fix mt assume "mt \<in> set (mr_iter (sp_type_registry default_policy))"
  then have "mr_lookup default_registry (mt_type_id mt) = Some mt"
    using mr_iter_lookup [OF default_registry_spec [THEN conjunct1]] by (simp add: default_policy_def)
  then have "mt_mode mt = Permissive" by (rule catalogue_lookup)
  moreover assume "mt_mode mt = Enforcing"
  ultimately show "mt_type_id mt \<notin> set (map mt_type_id DEFAULT_MESSAGE_TYPES)" by simp
qed

text \<open>
  Boundary modes can be demoted remotely. A policy that enforces at every boundary is replaced,
  through a remote update, by one that is permissive at every boundary: the update compares the
  modes of message types only.
\<close>

theorem remote_update_demotes_boundaries:
  "\<exists>p q. load_from_blob (sample_blob 0) = Inr p \<and> sp_boundary_modes p = replicate POLICY_BOUNDARIES Enforcing \<and>
     sp_global_mode p = Enforcing \<and> remote_update p (sample_blob 1) = Inr q \<and>
     sp_boundary_modes q = replicate POLICY_BOUNDARIES Permissive \<and> sp_global_mode q = Permissive"
proof -
  have l: "load_from_blob (sample_blob 0) = Inr (policy_of Enforcing)" "load_from_blob (sample_blob 1) = Inr (policy_of Permissive)"
    using sample_blob_ok load_iff by blast+
  have "\<not> demoted_by (policy_of Permissive) mt" if "mt \<in> set (mr_iter default_registry)" for mt
    using catalogue_lookup(1) mr_iter_lookup [OF default_registry_spec [THEN conjunct1] that] by (fastforce simp: demoted_iff)
  then have "find (demoted_by (policy_of Permissive)) (mr_iter default_registry) = None" by (auto simp: find_None_iff)
  then show ?thesis using l by (simp add: remote_update_def) (simp add: policy_of_def)
qed

text \<open>
  Revalidation splits the loaded models, in order, into those the new policy allows and those
  it does not; nothing is lost or invented.
\<close>

theorem revalidation_partitions:
  "rv_valid_models (revalidate_models hashes p) = filter (model_allowed p) hashes \<and>
   rv_rejected_models (revalidate_models hashes p) = filter (\<lambda>h. \<not> model_allowed p h) hashes"
proof -
  have "fold (\<lambda>hash r. if model_allowed p hash then r\<lparr>rv_valid_models := rv_valid_models r @ [hash]\<rparr>
        else r\<lparr>rv_rejected_models := rv_rejected_models r @ [hash]\<rparr>) hashes r =
      r\<lparr>rv_valid_models := rv_valid_models r @ filter (model_allowed p) hashes,
        rv_rejected_models := rv_rejected_models r @ filter (\<lambda>h. \<not> model_allowed p h) hashes\<rparr>" for r :: revalidation_result
    by (induction hashes arbitrary: r) simp_all
  then show ?thesis by (simp add: revalidate_models_def)
qed

end
