(* ===== verification/Audit_Ring.thy ===== *)
theory Audit_Ring
  imports Ring Audit_Entry
begin

text \<open>
  The audit ring buffer (\<open>security/src/audit/ring_buffer.rs\<close>): a fixed array that overwrites its oldest
  entry when it is full, with draining, indexing and iteration. The capacity \<open>N\<close> is the length
  of the array. The atomics are accessed by one owner (\<open>&mut self\<close>), so they are plain counters;
  \<open>fetch_add\<close> wraps at 64 bits and \<open>pos + 1\<close> panics on overflow.

  \<open>ring_rep r h\<close> relates a ring to the list of everything pushed since it was last empty.
\<close>

section \<open>The ring\<close>

record audit_ring =
  ar_entries :: "audit_entry option list"
  ar_write_pos :: nat
  ar_total_written :: nat
  ar_overwritten :: nat

definition ring_new :: "nat \<Rightarrow> audit_ring option" where
  "ring_new n = do {
     _ \<leftarrow> ensure (n > 0);
     Some \<lparr>ar_entries = replicate n None, ar_write_pos = 0, ar_total_written = 0, ar_overwritten = 0\<rparr> }"

definition fetch_add1 :: "nat \<Rightarrow> nat" where
  "fetch_add1 n = (n + 1) mod 2 ^ 64"

definition ring_push :: "audit_ring \<Rightarrow> audit_entry \<Rightarrow> audit_ring option" where
  "ring_push r entry =
     (let n = length (ar_entries r); pos = ar_write_pos r; i = pos mod n in do {
        old \<leftarrow> idx (ar_entries r) i;
        es \<leftarrow> idx_upd (ar_entries r) i (Some entry);
        pos' \<leftarrow> uadd pos 1;
        Some \<lparr>ar_entries = es, ar_write_pos = pos', ar_total_written = fetch_add1 (ar_total_written r),
          ar_overwritten = (if pos \<ge> n \<and> old \<noteq> None then fetch_add1 (ar_overwritten r) else ar_overwritten r)\<rparr> })"

definition ring_len :: "audit_ring \<Rightarrow> nat" where
  "ring_len r = min (ar_write_pos r) (length (ar_entries r))"

definition ring_is_empty :: "audit_ring \<Rightarrow> bool" where
  "ring_is_empty r \<longleftrightarrow> ar_write_pos r = 0"

definition ring_is_full :: "audit_ring \<Rightarrow> bool" where
  "ring_is_full r \<longleftrightarrow> ar_write_pos r \<ge> length (ar_entries r)"

definition ring_start :: "audit_ring \<Rightarrow> nat" where
  "ring_start r = ar_write_pos r - length (ar_entries r)"

text \<open>One step of the draining loop: an empty slot leaves the output as it was.\<close>

definition drain_step :: "nat \<Rightarrow> nat \<Rightarrow> audit_entry list \<times> audit_entry option list \<Rightarrow> audit_entry list \<times> audit_entry option list" where
  "drain_step start i = (\<lambda>(out, es).
     let j = (start + i) mod length es in
     (case es ! j of Some e \<Rightarrow> (out[i := e], es[j := None]) | None \<Rightarrow> (out, es)))"

definition ring_drain :: "audit_ring \<Rightarrow> audit_entry list \<Rightarrow> nat \<Rightarrow> audit_entry list \<times> audit_ring \<times> nat" where
  "ring_drain r out max_n =
     (if ar_write_pos r = 0 then (out, r, 0)
      else let count = min (min (ring_len r) max_n) (length out) in
        if count = 0 then (out, r, 0)
        else let (out', es) = fold (drain_step (ring_start r)) [0..<count] (out, ar_entries r);
                 r' = r\<lparr>ar_entries := es\<rparr> in
          (out', (if count = ring_len r then r'\<lparr>ar_write_pos := 0\<rparr> else r'), count))"

definition ring_get :: "audit_ring \<Rightarrow> nat \<Rightarrow> audit_entry option" where
  "ring_get r i =
     (if ar_write_pos r = 0 \<or> i \<ge> ring_len r then None
      else ar_entries r ! ((ring_start r + i) mod length (ar_entries r)))"

text \<open>What a loop over the iterator sees: \<open>next\<close> ends the loop at the end position or at an empty slot.\<close>

definition ring_iter :: "audit_ring \<Rightarrow> audit_entry list" where
  "ring_iter r = map the (takeWhile (\<lambda>s. s \<noteq> None)
     (map (\<lambda>p. ar_entries r ! (p mod length (ar_entries r))) [ring_start r..<ar_write_pos r]))"

definition ring_clear :: "audit_ring \<Rightarrow> audit_ring" where
  "ring_clear r = r\<lparr>ar_entries := map (\<lambda>_. None) (ar_entries r), ar_write_pos := 0\<rparr>"

section \<open>The history of a ring\<close>

definition newest :: "nat \<Rightarrow> 'a list \<Rightarrow> 'a list" where
  "newest n h = drop (length h - n) h"

lemma length_newest [simp]: "length (newest n h) = min (length h) n"
  by (simp add: newest_def)

definition ring_rep :: "audit_ring \<Rightarrow> audit_entry list \<Rightarrow> bool" where
  "ring_rep r h \<longleftrightarrow> (let n = length (ar_entries r) in
     0 < n \<and> ar_write_pos r = length h \<and>
     ring_list (ar_entries r) (length h - n) (min (length h) n) = map Some (newest n h) \<and>
     (\<forall>i < n. length h \<le> i \<longrightarrow> ar_entries r ! i = None))"

lemma ring_list_mod: "ring_list xs (h mod length xs) c = ring_list xs h c"
  by (simp add: ring_list_def mod_simps)

lemma ring_rep_new: "0 < n \<Longrightarrow> \<exists>r. ring_new n = Some r \<and> ring_rep r [] \<and> length (ar_entries r) = n \<and>
    ar_total_written r = 0 \<and> ar_overwritten r = 0"
  by (simp add: ring_new_def ring_rep_def newest_def)

lemma newest_snoc_short: "length h < n \<Longrightarrow> newest n (h @ [e]) = newest n h @ [e]"
  by (simp add: newest_def)

lemma newest_snoc_full: "n \<le> length h \<Longrightarrow> 0 < n \<Longrightarrow> newest n (h @ [e]) = tl (newest n h) @ [e]"
  by (simp add: newest_def Suc_diff_le drop_Suc tl_drop)

lemma ring_rep_push:
  assumes rep: "ring_rep r h" and len: "length h < 2 ^ 64 - 1"
  shows "\<exists>r'. ring_push r e = Some r' \<and> ring_rep r' (h @ [e]) \<and> length (ar_entries r') = length (ar_entries r) \<and>
    ar_total_written r' = fetch_add1 (ar_total_written r) \<and>
    ar_overwritten r' = (if length h \<ge> length (ar_entries r) then fetch_add1 (ar_overwritten r) else ar_overwritten r)"
proof -
  let ?es = "ar_entries r" and ?n = "length (ar_entries r)" and ?l = "length h"
  let ?es' = "?es[?l mod ?n := Some e]"
  from rep have n: "0 < ?n" and pos: "ar_write_pos r = ?l"
    and live: "ring_list ?es (?l - ?n) (min ?l ?n) = map Some (newest ?n h)"
    and unused: "\<And>i. i < ?n \<Longrightarrow> ?l \<le> i \<Longrightarrow> ?es ! i = None"
    by (auto simp: ring_rep_def Let_def)
  have i: "?l mod ?n < ?n" using n by simp
  have old: "?es ! (?l mod ?n) \<noteq> None" if "?n \<le> ?l"
  proof -
    have "(?l - ?n + 0) mod ?n = ?l mod ?n" using that by (simp add: le_mod_geq)
    then have "?es ! (?l mod ?n) = ring_list ?es (?l - ?n) (min ?l ?n) ! 0" using n that by simp
    then show ?thesis using live n that by (simp add: nth_map)
  qed
  have "ring_list ?es' (Suc ?l - ?n) (min (Suc ?l) ?n) = map Some (newest ?n (h @ [e]))"
  proof (cases "?l < ?n")
    case True
    then show ?thesis
      using ring_list_push [of 0 ?es ?l "Some e"] n live by (simp add: newest_snoc_short min_def)
  next
    case False
    have s: "Suc (?l mod ?n) mod ?n = (Suc ?l - ?n) mod ?n"
      using False by (simp add: mod_Suc_eq Suc_diff_le le_mod_geq)
    have "ring_list ?es' (Suc ?l - ?n) ?n = tl (ring_list ?es (?l mod ?n) ?n) @ [Some e]"
      using ring_list_overwrite [OF i, of "Some e"] ring_list_mod [of ?es' "Suc ?l - ?n" ?n]
      unfolding s length_list_update by simp
    also have "ring_list ?es (?l mod ?n) ?n = ring_list ?es (?l - ?n) ?n"
      using ring_list_mod [of ?es ?l ?n] ring_list_mod [of ?es "?l - ?n" ?n] False by (simp add: le_mod_geq)
    also have "\<dots> = map Some (newest ?n h)" using live False by (simp add: min_absorb2)
    finally show ?thesis using False n by (simp add: newest_snoc_full min_absorb2 map_tl)
  qed
  moreover have "?es' ! j = None" if "j < ?n" "Suc ?l \<le> j" for j
    using that unused [of j] by (simp add: nth_list_update)
  ultimately have "ring_rep (r\<lparr>ar_entries := ?es', ar_write_pos := Suc ?l, ar_total_written := t, ar_overwritten := v\<rparr>) (h @ [e])"
    for t v using n by (simp add: ring_rep_def Let_def)
  moreover have "ring_push r e = Some (r\<lparr>ar_entries := ?es', ar_write_pos := Suc ?l,
      ar_total_written := fetch_add1 (ar_total_written r),
      ar_overwritten := (if ?l \<ge> ?n then fetch_add1 (ar_overwritten r) else ar_overwritten r)\<rparr>)"
    using i old len pos by (simp add: ring_push_def Let_def)
  ultimately show ?thesis by simp
qed

section \<open>Reading\<close>

lemma ring_rep_len: "ring_rep r h \<Longrightarrow> ring_len r = min (length h) (length (ar_entries r))"
  by (simp add: ring_rep_def ring_len_def Let_def)

lemma ring_rep_get:
  assumes "ring_rep r h"
  shows "ring_get r i = (let live = newest (length (ar_entries r)) h in if i < length live then Some (live ! i) else None)"
proof -
  let ?n = "length (ar_entries r)" and ?c = "min (length h) (length (ar_entries r))"
  have live: "ring_list (ar_entries r) (length h - ?n) ?c = map Some (newest ?n h)" "ar_write_pos r = length h" "0 < ?n"
    using assms by (auto simp: ring_rep_def Let_def)
  show ?thesis
  proof (cases "i < ?c")
    case True
    then have "ar_entries r ! ((length h - ?n + i) mod ?n) = Some (newest ?n h ! i)"
      using arg_cong [OF live(1), of "\<lambda>xs. xs ! i"] by simp
    moreover have "ar_write_pos r \<noteq> 0" using True live(2) by auto
    ultimately show ?thesis
      using True ring_rep_len [OF assms] live(2) by (simp add: ring_get_def ring_start_def not_le)
  next
    case False
    then show ?thesis using ring_rep_len [OF assms] by (auto simp: ring_get_def)
  qed
qed

lemma ring_rep_iter:
  assumes "ring_rep r h"
  shows "ring_iter r = newest (length (ar_entries r)) h"
proof -
  let ?n = "length (ar_entries r)" and ?s = "length h - length (ar_entries r)"
  have r: "ring_list (ar_entries r) ?s (min (length h) ?n) = map Some (newest ?n h)" "ar_write_pos r = length h"
    using assms by (auto simp: ring_rep_def Let_def)
  have "[?s..<length h] = map (\<lambda>k. ?s + k) [0..<min (length h) ?n]"
    by (cases "length h \<le> ?n") (auto intro!: nth_equalityI simp: min_def)
  then have "map (\<lambda>p. ar_entries r ! (p mod ?n)) [?s..<length h] = map Some (newest ?n h)"
    using r(1) by (simp add: ring_list_def comp_def)
  moreover have "takeWhile (\<lambda>s. s \<noteq> None) (map Some xs) = map Some xs" for xs :: "audit_entry list"
    by (induction xs) auto
  ultimately show ?thesis unfolding ring_iter_def ring_start_def r(2) by (simp add: comp_def del: not_None_eq takeWhile_eq_all_conv)
qed

section \<open>Draining\<close>

text \<open>The draining loop after \<open>k\<close> steps over a window of live slots.\<close>

lemma drain_loop:
  assumes "ring_list es s c = map Some live" "k \<le> c" "c \<le> length es" "k \<le> length out"
  shows "\<exists>es'. fold (drain_step s) [0..<k] (out, es) = (take k live @ drop k out, es') \<and>
    length es' = length es \<and> ring_list es' s c = replicate k None @ map Some (drop k live) \<and>
    (\<forall>i < length es. es' ! i = None \<or> es' ! i = es ! i)"
  using assms(2,4)
proof (induction k)
  case 0
  then show ?case using assms(1) by simp
next
  case (Suc k)
  then obtain es' where es': "fold (drain_step s) [0..<k] (out, es) = (take k live @ drop k out, es')"
    "length es' = length es" "ring_list es' s c = replicate k None @ map Some (drop k live)"
    "\<forall>i < length es. es' ! i = None \<or> es' ! i = es ! i" by auto
  let ?j = "(s + k) mod length es"
  have len: "length live = c" using assms(1) by (metis length_map length_ring_list)
  have k: "k < c" "k < length live" "k < length out" using Suc.prems len by simp_all
  have j: "?j < length es" using k assms(3) by (intro mod_less_divisor) linarith
  have "es' ! ?j = ring_list es' s c ! k" using k es'(2) by simp
  also have "\<dots> = Some (live ! k)" using k by (simp add: es'(3) nth_append)
  finally have at: "es' ! ?j = Some (live ! k)" .
  have out: "(take k live @ drop k out)[k := live ! k] = take (Suc k) live @ drop (Suc k) out"
    using k by (simp add: list_update_append take_Suc_conv_app_nth flip: Cons_nth_drop_Suc)
  have "ring_list (es'[?j := None]) s c = (replicate k None @ map Some (drop k live))[k := None]"
  proof (rule nth_equalityI)
    fix i assume "i < length (ring_list (es'[?j := None]) s c)"
    then have i: "i < c" by simp
    have "(s + i) mod length es = ?j \<longleftrightarrow> i = k"
      using ring_index_inj [of s i "length es" k] i k assms(3) by auto
    then show "ring_list (es'[?j := None]) s c ! i = (replicate k None @ map Some (drop k live))[k := None] ! i"
      using i j es'(2) k len by (auto simp: nth_list_update simp flip: es'(3))
  qed (use k len in simp)
  also have "\<dots> = replicate (Suc k) None @ map Some (drop (Suc k) live)"
    using k by (simp add: list_update_append replicate_append_same flip: Cons_nth_drop_Suc)
  finally have "ring_list (es'[?j := None]) s c = replicate (Suc k) None @ map Some (drop (Suc k) live)" .
  moreover have "fold (drain_step s) [0..<Suc k] (out, es) = (take (Suc k) live @ drop (Suc k) out, es'[?j := None])"
    using es'(1) at out es'(2) by (simp add: drain_step_def)
  moreover have "es'[?j := None] ! i = None \<or> es'[?j := None] ! i = es ! i" if "i < length es" for i
    using that es'(2,4) by (cases "i = ?j") auto
  ultimately show ?case using es'(2) by auto
qed

lemma ring_slot_covered: "i < n \<Longrightarrow> \<exists>k < n. (s + k) mod n = (i::nat)"
proof -
  assume i: "i < n"
  let ?k = "(i + (n - s mod n)) mod n"
  have "s mod n \<le> n" using i by (simp add: less_imp_le)
  have "(s + ?k) mod n = (s mod n + (i + (n - s mod n))) mod n" by (simp add: mod_simps)
  also have "\<dots> = (i + n) mod n" using \<open>s mod n \<le> n\<close> by (simp add: add.commute)
  finally show ?thesis using i by (intro exI [of _ ?k]) simp
qed

lemma ring_rep_drain:
  fixes max_n :: nat and out :: "audit_entry list"
  assumes rep: "ring_rep r h"
  defines "live \<equiv> newest (length (ar_entries r)) h"
  defines "c \<equiv> min (min (length live) max_n) (length out)"
  shows "\<exists>r'. ring_drain r out max_n = (take c live @ drop c out, r', c) \<and>
    length (ar_entries r') = length (ar_entries r) \<and>
    (if c = length live then ring_rep r' [] else ar_write_pos r' = ar_write_pos r)"
proof -
  let ?n = "length (ar_entries r)"
  have r: "ring_list (ar_entries r) (length h - ?n) (min (length h) ?n) = map Some live" "ar_write_pos r = length h"
    "0 < ?n" "\<And>i. i < ?n \<Longrightarrow> length h \<le> i \<Longrightarrow> ar_entries r ! i = None"
    using rep by (auto simp: ring_rep_def Let_def live_def)
  have len: "length live = min (length h) ?n" "ring_len r = length live"
    using ring_rep_len [OF rep] by (simp_all add: live_def)
  consider "h = []" | "h \<noteq> []" "c = 0" | "h \<noteq> []" "c > 0" by auto
  then show ?thesis
  proof cases
    case 1
    then have "c = 0" "length live = 0" by (simp_all add: c_def len)
    moreover have "ring_drain r out max_n = (out, r, 0)" using 1 r(2) by (simp add: ring_drain_def)
    ultimately show ?thesis using rep 1 by simp
  next
    case 2
    then have "length live \<noteq> 0" using r(3) by (simp add: len)
    moreover have "ring_drain r out max_n = (out, r, 0)"
      using 2 r(2) len(2) c_def by (simp add: ring_drain_def Let_def)
    ultimately show ?thesis using 2 by simp
  next
    case 3
    have bounds: "c \<le> min (length h) ?n" "min (length h) ?n \<le> ?n" "c \<le> length out"
      unfolding c_def len(1) by linarith+
    from drain_loop [OF r(1) bounds] obtain es' where
      es': "fold (drain_step (length h - ?n)) [0..<c] (out, ar_entries r) = (take c live @ drop c out, es')"
        "length es' = ?n" "ring_list es' (length h - ?n) (length live) = replicate c None @ map Some (drop c live)"
        "\<forall>i < ?n. es' ! i = None \<or> es' ! i = ar_entries r ! i"
      unfolding len(1) by blast
    have d: "ring_drain r out max_n = (take c live @ drop c out,
        (if c = length live then r\<lparr>ar_entries := es', ar_write_pos := 0\<rparr> else r\<lparr>ar_entries := es'\<rparr>), c)"
      unfolding ring_drain_def len(2) ring_start_def r(2) c_def [symmetric] Let_def using 3 es'(1) by simp
    have "es' ! i = None" if "c = length live" "i < ?n" for i
    proof (cases "length h \<le> i")
      case True
      then show ?thesis using es'(4) r(4) that(2) by metis
    next
      case False
      obtain k where k: "k < length live" "(length h - ?n + k) mod ?n = i"
      proof (cases "length h < ?n")
        case True
        with \<open>\<not> length h \<le> i\<close> \<open>i < ?n\<close> show ?thesis by (intro that [of i]) (auto simp: len(1))
      next
        case False
        then have "length live = ?n" by (simp add: len(1))
        with ring_slot_covered [OF \<open>i < ?n\<close>, of "length h - ?n"] show ?thesis using that by metis
      qed
      have "ring_list es' (length h - ?n) (length live) ! k = None"
        using k(1) that(1) by (simp add: es'(3) nth_append)
      with k es'(2) show ?thesis by simp
    qed
    then show ?thesis using d es'(2) r(3) by (auto simp: ring_rep_def Let_def newest_def)
  qed
qed

section \<open>What the ring keeps\<close>

lemma mfold_push:
  assumes "ring_rep r h" "length h + length es < 2 ^ 64" "ar_total_written r = length h"
    "ar_overwritten r = length h - length (ar_entries r)"
  shows "\<exists>r'. mfold (\<lambda>e r. ring_push r e) es r = Some r' \<and> ring_rep r' (h @ es) \<and>
    length (ar_entries r') = length (ar_entries r) \<and> ar_total_written r' = length (h @ es) \<and>
    ar_overwritten r' = length (h @ es) - length (ar_entries r)"
  using assms
proof (induction es arbitrary: r h)
  case Nil
  then show ?case by simp
next
  case (Cons e es)
  from ring_rep_push [OF Cons.prems(1), of e] Cons.prems(2) obtain r1 where
    r1: "ring_push r e = Some r1" "ring_rep r1 (h @ [e])" "length (ar_entries r1) = length (ar_entries r)"
      "ar_total_written r1 = fetch_add1 (ar_total_written r)"
      "ar_overwritten r1 = (if length h \<ge> length (ar_entries r) then fetch_add1 (ar_overwritten r) else ar_overwritten r)"
    by auto
  have "ar_total_written r1 = length (h @ [e])" "ar_overwritten r1 = length (h @ [e]) - length (ar_entries r1)"
    using Cons.prems r1(3,4,5) by (auto simp: fetch_add1_def)
  from Cons.IH [OF r1(2) _ this] Cons.prems(2) r1(1,3) show ?case by simp
qed

lemma ring_pushes:
  assumes "0 < n" "length es < 2 ^ 64"
  shows "\<exists>r0 r. ring_new n = Some r0 \<and> mfold (\<lambda>e r. ring_push r e) es r0 = Some r \<and> ring_rep r es \<and>
    length (ar_entries r) = n \<and> ar_total_written r = length es \<and> ar_overwritten r = length es - n"
proof -
  from ring_rep_new [OF assms(1)] obtain r0 where "ring_new n = Some r0" "ring_rep r0 []" "length (ar_entries r0) = n"
    "ar_total_written r0 = 0" "ar_overwritten r0 = 0" by blast
  with mfold_push [of r0 "[]" es] assms(2) show ?thesis by auto
qed



text \<open>
  A partial drain does not move the write position, so the ring still counts the drained slots.
  From a ring of capacity 2 holding two entries, a drain of one entry delivers the first; a
  second drain of one entry reports one entry but delivers nothing, the output slot being left
  as it was, while the second entry stays in the ring and the iterator sees no entry.\<close>

theorem partial_drain_repeats:
  "let r = \<lparr>ar_entries = [Some a, Some b], ar_write_pos = 2, ar_total_written = 2, ar_overwritten = 0\<rparr>;
       (out1, r1, n1) = ring_drain r [x] 1;
       (out2, r2, n2) = ring_drain r1 [x] 1 in
     do { r0 \<leftarrow> ring_new 2; r0 \<leftarrow> ring_push r0 a; ring_push r0 b } = Some r \<and>
     out1 = [a] \<and> n1 = 1 \<and> out2 = [x] \<and> n2 = 1 \<and> r2 = r1 \<and>
     ring_len r1 = 2 \<and> ring_iter r1 = [] \<and> ring_get r1 1 = Some b"
proof -
  have two: "replicate 2 (None :: audit_entry option) = [None, None]" "[0..<2] = [0, Suc 0]"
    by (simp_all add: numeral_2_eq_2)
  show ?thesis
    by (simp add: two ring_new_def ring_push_def fetch_add1_def ring_drain_def ring_len_def ring_start_def drain_step_def
      ring_iter_def ring_get_def uadd_def idx_def idx_upd_def)
qed

end
