(* ===== verification/Gate.thy ===== *)
theory Gate
  imports Capability Audit_Ring Message_Types
begin

text \<open>
  The security gate (\<open>security/src/gate.rs\<close>): every crossing of a trust boundary runs through a
  capability check, the Bell-LaPadula classification check, the Biba integrity check and the
  message type check; a failure is denied or let through depending on the enforcement mode, and
  every decision is counted and written to the gate's audit ring. The gate composes the
  capability registry, the invariant checker, the type registry and the audit ring of the other
  theories; the counters are 64-bit words that wrap.
\<close>

section \<open>The gate\<close>

definition NUM_BOUNDARIES :: nat where
  "NUM_BOUNDARIES = 5"

definition GATE_AUDIT_CAPACITY :: nat where
  "GATE_AUDIT_CAPACITY = 256"

record boundary_crossing =
  bc_boundary :: trust_boundary
  bc_direction :: data_flow_direction
  bc_task_id :: u64
  bc_label :: security_label
  bc_resource :: resource_ref
  bc_required_permissions :: permissions
  bc_metadata :: message_metadata
  bc_dest_integrity :: integrity_level
  bc_dest_max_classification :: classification_level
  bc_now :: u64

record security_gate =
  sg_boundary_modes :: "enforcement_mode list"
  sg_global_mode :: enforcement_mode
  sg_invariant_checker :: invariant_checker
  sg_audit_buffer :: audit_ring
  sg_total_checks :: u64
  sg_total_allowed :: u64
  sg_total_denied :: u64
  sg_total_permissive_passes :: u64

definition gate_new :: "enforcement_mode \<Rightarrow> security_gate option" where
  "gate_new global_mode = do {
     ring \<leftarrow> ring_new GATE_AUDIT_CAPACITY;
     Some \<lparr>sg_boundary_modes = replicate NUM_BOUNDARIES global_mode, sg_global_mode = global_mode,
       sg_invariant_checker = checker_new, sg_audit_buffer = ring, sg_total_checks = 0, sg_total_allowed = 0,
       sg_total_denied = 0, sg_total_permissive_passes = 0\<rparr> }"

definition set_boundary_mode :: "security_gate \<Rightarrow> trust_boundary \<Rightarrow> enforcement_mode \<Rightarrow> security_gate" where
  "set_boundary_mode g b mode = (let i = boundary_index b in
     if i < NUM_BOUNDARIES then g\<lparr>sg_boundary_modes := (sg_boundary_modes g)[i := mode]\<rparr> else g)"

definition boundary_mode :: "security_gate \<Rightarrow> trust_boundary \<Rightarrow> enforcement_mode" where
  "boundary_mode g b = (let i = boundary_index b in
     if i < NUM_BOUNDARIES then sg_boundary_modes g ! i else sg_global_mode g)"

definition gate_entry :: "boundary_crossing \<Rightarrow> gate_verdict \<Rightarrow> audit_entry" where
  "gate_entry x v =
     \<lparr>timestamp_ns = bc_now x,
      event_type = (case v of Allowed \<Rightarrow> gate_allowed | Denied _ _ \<Rightarrow> gate_denied | PermissivePass _ _ \<Rightarrow> gate_permissive_pass),
      task_id = bc_task_id x,
      resource_type = of_nat (boundary_index (bc_boundary x)),
      resource_instance = (case sl_message_type (bc_label x) of None \<Rightarrow> 0 | Some tid \<Rightarrow> ucast tid),
      operation = operation_new (ascii (case v of Allowed \<Rightarrow> ''gate-check'' | Denied _ r \<Rightarrow> reason_as_str r
        | PermissivePass _ r \<Rightarrow> reason_as_str r)),
      audit_result = (if verdict_is_allowed v then AuditSuccess else AuditFailure),
      capability_id = 0\<rparr>"

definition emit_audit :: "security_gate \<Rightarrow> boundary_crossing \<Rightarrow> gate_verdict \<Rightarrow> security_gate option" where
  "emit_audit g x v = do {
     ring \<leftarrow> ring_push (sg_audit_buffer g) (gate_entry x v);
     Some (g\<lparr>sg_audit_buffer := ring\<rparr>) }"

definition make_verdict ::
  "security_gate \<Rightarrow> boundary_crossing \<Rightarrow> u8 \<Rightarrow> deny_reason \<Rightarrow> message_type_registry \<Rightarrow> (gate_verdict \<times> security_gate) option" where
  "make_verdict g x layer reason types =
     (let type_mode = do { tid \<leftarrow> sl_message_type (bc_label x); mt \<leftarrow> mr_lookup types tid; Some (mt_mode mt) };
          mode = resolve_mode type_mode (boundary_mode g (bc_boundary x)) (sg_global_mode g);
          (v, g1) = (case mode of
             Enforcing \<Rightarrow> (Denied layer reason, g\<lparr>sg_total_denied := sg_total_denied g + 1\<rparr>)
           | Permissive \<Rightarrow> (PermissivePass layer reason, g\<lparr>sg_total_permissive_passes := sg_total_permissive_passes g + 1\<rparr>)) in
      do { g2 \<leftarrow> emit_audit g1 x v; Some (v, g2) })"

definition gate_allow :: "security_gate \<Rightarrow> boundary_crossing \<Rightarrow> (gate_verdict \<times> security_gate) option" where
  "gate_allow g x = do {
     g1 \<leftarrow> emit_audit (g\<lparr>sg_total_allowed := sg_total_allowed g + 1\<rparr>) x Allowed;
     Some (Allowed, g1) }"

definition gate_check ::
  "security_gate \<Rightarrow> boundary_crossing \<Rightarrow> cap_registry \<Rightarrow> message_type_registry \<Rightarrow> (gate_verdict \<times> security_gate) option" where
  "gate_check g0 x cap_reg types =
     (let g = g0\<lparr>sg_total_checks := sg_total_checks g0 + 1\<rparr> in
      case check_access cap_reg (bc_task_id x) (bc_resource x) (bc_required_permissions x) (bc_now x) of
        Inl _ \<Rightarrow> make_verdict g x 1 MissingCapability types
      | Inr _ \<Rightarrow>
        if sl_classification (bc_label x) > bc_dest_max_classification x then
          make_verdict g x 2 ClassificationViolation types
        else if \<not> may_flow_to (sl_integrity (bc_label x)) (bc_dest_integrity x) then
          make_verdict g x 3 IntegrityViolation types
        else case sl_message_type (bc_label x) of
          None \<Rightarrow> gate_allow g x
        | Some tid \<Rightarrow> (case mr_lookup types tid of
            None \<Rightarrow> make_verdict g x 4 UnknownMessageType types
          | Some mt \<Rightarrow> (case checker_check (sg_invariant_checker g) mt (bc_metadata x) of (r, c) \<Rightarrow>
              let g1 = g\<lparr>sg_invariant_checker := c\<rparr> in
              (case r of Some i \<Rightarrow> make_verdict g1 x 4 (InvariantFailed i) types | None \<Rightarrow> gate_allow g1 x))))"

definition gate_reset_rate_window :: "security_gate \<Rightarrow> message_type_id \<Rightarrow> security_gate" where
  "gate_reset_rate_window g tid = g\<lparr>sg_invariant_checker := reset_rate_window (sg_invariant_checker g) tid\<rparr>"

section \<open>The specification of a decision\<close>

text \<open>The first layer that a crossing fails, given what has been accepted of each message type.\<close>

definition failing_layer ::
  "boundary_crossing \<Rightarrow> cap_registry \<Rightarrow> message_type_registry \<Rightarrow> (message_type_id \<Rightarrow> track) \<Rightarrow> (u8 \<times> deny_reason) option" where
  "failing_layer x cap_reg types tr =
     (if isl (check_access cap_reg (bc_task_id x) (bc_resource x) (bc_required_permissions x) (bc_now x))
      then Some (1, MissingCapability)
      else if \<not> sl_classification (bc_label x) \<le> bc_dest_max_classification x then Some (2, ClassificationViolation)
      else if \<not> bc_dest_integrity x \<le> sl_integrity (bc_label x) then Some (3, IntegrityViolation)
      else case sl_message_type (bc_label x) of
        None \<Rightarrow> None
      | Some tid \<Rightarrow> (case mr_lookup types tid of
          None \<Rightarrow> Some (4, UnknownMessageType)
        | Some mt \<Rightarrow> map_option (\<lambda>i. (4, InvariantFailed i)) (first_failure mt (bc_metadata x) (tr tid))))"

text \<open>The mode that decides a failure: the type's own, otherwise the boundary's.\<close>

definition effective_mode :: "security_gate \<Rightarrow> boundary_crossing \<Rightarrow> message_type_registry \<Rightarrow> enforcement_mode" where
  "effective_mode g x types = (case sl_message_type (bc_label x) of
     None \<Rightarrow> boundary_mode g (bc_boundary x)
   | Some tid \<Rightarrow> (case mr_lookup types tid of None \<Rightarrow> boundary_mode g (bc_boundary x) | Some mt \<Rightarrow> mt_mode mt))"

definition verdict_for :: "(u8 \<times> deny_reason) option \<Rightarrow> enforcement_mode \<Rightarrow> gate_verdict" where
  "verdict_for failure mode = (case failure of
     None \<Rightarrow> Allowed
   | Some (l, r) \<Rightarrow> (if mode = Enforcing then Denied l r else PermissivePass l r))"

definition gate_view :: "security_gate \<Rightarrow> message_type_id \<Rightarrow> track" where
  "gate_view g = checker_view (sg_invariant_checker g)"

definition gate_decision :: "security_gate \<Rightarrow> boundary_crossing \<Rightarrow> cap_registry \<Rightarrow> message_type_registry \<Rightarrow> gate_verdict" where
  "gate_decision g x cap_reg types = verdict_for (failing_layer x cap_reg types (gate_view g)) (effective_mode g x types)"

text \<open>The gate with a history \<open>h\<close> of decisions since its ring was last emptied.\<close>

definition gate_inv :: "message_type_registry \<Rightarrow> audit_entry list \<Rightarrow> security_gate \<Rightarrow> bool" where
  [inv_defs]: "gate_inv types h g \<longleftrightarrow> length (sg_boundary_modes g) = NUM_BOUNDARIES \<and>
     ring_rep (sg_audit_buffer g) h \<and> length (ar_entries (sg_audit_buffer g)) = GATE_AUDIT_CAPACITY \<and>
     (\<exists>seen. checker_inv seen (sg_invariant_checker g) \<and> seen \<subseteq> {tid. mr_lookup types tid \<noteq> None})"

lemma gate_inv_new: "\<exists>g. gate_new mode = Some g \<and> gate_inv types [] g \<and> sg_total_checks g = 0 \<and>
    sg_total_allowed g = 0 \<and> sg_total_denied g = 0 \<and> sg_total_permissive_passes g = 0 \<and>
    (\<forall>b. boundary_mode g b = mode)"
proof -
  from ring_rep_new [of GATE_AUDIT_CAPACITY] obtain r where
    r: "ring_new GATE_AUDIT_CAPACITY = Some r" "ring_rep r []" "length (ar_entries r) = GATE_AUDIT_CAPACITY"
    by (auto simp: GATE_AUDIT_CAPACITY_def)
  have "\<exists>seen. checker_inv seen checker_new \<and> seen \<subseteq> {tid. mr_lookup types tid \<noteq> None}"
    using checker_inv_new by blast
  moreover have "boundary_index b < 5" for b by (cases b) simp_all
  ultimately show ?thesis using r
    by (simp add: gate_new_def gate_inv_def NUM_BOUNDARIES_def boundary_mode_def Let_def)
qed

lemma gate_view_new: "gate_new mode = Some g \<Longrightarrow> gate_view g = (\<lambda>_. (0, 0))"
  using checker_inv_new by (auto simp: gate_new_def gate_view_def split: Option.bind_splits)

lemma default_permissive: "list_all (\<lambda>mt. mt_mode mt = Permissive) DEFAULT_MESSAGE_TYPES"
  by (simp add: DEFAULT_MESSAGE_TYPES_def)

lemma lookup_dom_card:
  assumes "registry_inv types" "A \<subseteq> {tid. mr_lookup types tid \<noteq> None}"
  shows "card A \<le> MAX_MESSAGE_TYPES"
proof -
  let ?ids = "set (map mt_type_id (mr_iter types))"
  have "A \<subseteq> ?ids" using assms(2) by (auto simp: mr_lookup_def mr_iter_def dest!: find_SomeD)
  then have "card A \<le> card ?ids" by (simp add: card_mono)
  also have "\<dots> \<le> length (mr_types types)"
    using card_length [of "map mt_type_id (mr_iter types)"] length_flatten_opt_le [of "mr_types types"]
    by (simp add: mr_iter_def)
  finally show ?thesis using assms(1) by (simp add: registry_inv_def)
qed

section \<open>Every decision is the specified one\<close>

lemma emit_audit_inv:
  assumes "gate_inv types h g" "length h < 2 ^ 64 - 1"
  shows "\<exists>ring. emit_audit g x v = Some (g\<lparr>sg_audit_buffer := ring\<rparr>) \<and>
    gate_inv types (h @ [gate_entry x v]) (g\<lparr>sg_audit_buffer := ring\<rparr>)"
proof -
  from assms ring_rep_push [of "sg_audit_buffer g" h "gate_entry x v"] obtain ring where
    "ring_push (sg_audit_buffer g) (gate_entry x v) = Some ring" "ring_rep ring (h @ [gate_entry x v])"
    "length (ar_entries ring) = length (ar_entries (sg_audit_buffer g))" by (auto simp: gate_inv_def)
  then show ?thesis using assms(1) by (auto simp: emit_audit_def gate_inv_def)
qed

text \<open>What a decision does to the counters.\<close>

definition counted :: "gate_verdict \<Rightarrow> security_gate \<Rightarrow> security_gate \<Rightarrow> bool" where
  "counted v g g' \<longleftrightarrow> sg_total_checks g' = sg_total_checks g + 1 \<and>
     sg_total_allowed g' = sg_total_allowed g + of_bool (v = Allowed) \<and>
     sg_total_denied g' = sg_total_denied g + of_bool (\<not> verdict_is_allowed v) \<and>
     sg_total_permissive_passes g' = sg_total_permissive_passes g + of_bool (verdict_is_allowed v \<and> v \<noteq> Allowed)"

lemma make_verdict_spec:
  fixes x l r
  assumes "gate_inv types h g" "length h < 2 ^ 64 - 1"
  defines "v \<equiv> verdict_for (Some (l, r)) (effective_mode g x types)"
  shows "\<exists>g'. make_verdict g x l r types = Some (v, g') \<and> gate_inv types (h @ [gate_entry x v]) g' \<and>
    sg_total_checks g' = sg_total_checks g \<and> sg_total_allowed g' = sg_total_allowed g \<and>
    sg_total_denied g' = sg_total_denied g + of_bool (\<not> verdict_is_allowed v) \<and>
    sg_total_permissive_passes g' = sg_total_permissive_passes g + of_bool (verdict_is_allowed v) \<and>
    sg_boundary_modes g' = sg_boundary_modes g \<and> sg_global_mode g' = sg_global_mode g \<and>
    sg_invariant_checker g' = sg_invariant_checker g"
proof -
  have mode: "resolve_mode (do { tid \<leftarrow> sl_message_type (bc_label x); mt \<leftarrow> mr_lookup types tid; Some (mt_mode mt) })
      (boundary_mode g (bc_boundary x)) (sg_global_mode g) = effective_mode g x types"
    by (auto simp: resolve_mode_def effective_mode_def split: option.splits)
  show ?thesis
  proof (cases "effective_mode g x types")
    case Enforcing
    let ?g = "g\<lparr>sg_total_denied := sg_total_denied g + 1\<rparr>"
    have "gate_inv types h ?g" using assms(1) by (simp add: gate_inv_def)
    from emit_audit_inv [OF this assms(2), of x v] obtain ring where
      "emit_audit ?g x v = Some (?g\<lparr>sg_audit_buffer := ring\<rparr>)"
      "gate_inv types (h @ [gate_entry x v]) (?g\<lparr>sg_audit_buffer := ring\<rparr>)" by blast
    then show ?thesis using Enforcing by (simp add: make_verdict_def mode v_def verdict_for_def)
  next
    case Permissive
    let ?g = "g\<lparr>sg_total_permissive_passes := sg_total_permissive_passes g + 1\<rparr>"
    have "gate_inv types h ?g" using assms(1) by (simp add: gate_inv_def)
    from emit_audit_inv [OF this assms(2), of x v] obtain ring where
      "emit_audit ?g x v = Some (?g\<lparr>sg_audit_buffer := ring\<rparr>)"
      "gate_inv types (h @ [gate_entry x v]) (?g\<lparr>sg_audit_buffer := ring\<rparr>)" by blast
    then show ?thesis using Permissive by (simp add: make_verdict_def mode v_def verdict_for_def)
  qed
qed

lemma make_verdict_mode:
  "make_verdict g x l r types = Some (v, g') \<Longrightarrow> v = verdict_for (Some (l, r)) (effective_mode g x types)"
  by (auto simp: make_verdict_def effective_mode_def verdict_for_def resolve_mode_def Let_def
      split: option.splits enforcement_mode.splits Option.bind_splits)

lemma gate_allow_spec:
  assumes "gate_inv types h g" "length h < 2 ^ 64 - 1"
  shows "\<exists>g'. gate_allow g x = Some (Allowed, g') \<and> gate_inv types (h @ [gate_entry x Allowed]) g' \<and>
    sg_total_checks g' = sg_total_checks g \<and> sg_total_allowed g' = sg_total_allowed g + 1 \<and>
    sg_total_denied g' = sg_total_denied g \<and> sg_total_permissive_passes g' = sg_total_permissive_passes g \<and>
    sg_boundary_modes g' = sg_boundary_modes g \<and> sg_global_mode g' = sg_global_mode g \<and>
    sg_invariant_checker g' = sg_invariant_checker g"
proof -
  let ?g = "g\<lparr>sg_total_allowed := sg_total_allowed g + 1\<rparr>"
  have "gate_inv types h ?g" using assms(1) by (simp add: gate_inv_def)
  from emit_audit_inv [OF this assms(2), of x Allowed] obtain ring where
    "emit_audit ?g x Allowed = Some (?g\<lparr>sg_audit_buffer := ring\<rparr>)"
    "gate_inv types (h @ [gate_entry x Allowed]) (?g\<lparr>sg_audit_buffer := ring\<rparr>)" by blast
  then show ?thesis by (simp add: gate_allow_def)
qed

text \<open>The state of the message types after a decision.\<close>

definition gate_track :: "security_gate \<Rightarrow> boundary_crossing \<Rightarrow> gate_verdict \<Rightarrow> message_type_id \<Rightarrow> track" where
  "gate_track g x v = (case sl_message_type (bc_label x) of
     Some tid \<Rightarrow> (if v = Allowed then (gate_view g)(tid := track_accept (bc_metadata x) (gate_view g tid)) else gate_view g)
   | None \<Rightarrow> gate_view g)"

definition gate_step_ok ::
  "message_type_registry \<Rightarrow> audit_entry list \<Rightarrow> boundary_crossing \<Rightarrow> gate_verdict \<Rightarrow> security_gate \<Rightarrow> security_gate \<Rightarrow> bool" where
  "gate_step_ok types h x v g g' \<longleftrightarrow> gate_inv types (h @ [gate_entry x v]) g' \<and> counted v g g' \<and>
     sg_boundary_modes g' = sg_boundary_modes g \<and> sg_global_mode g' = sg_global_mode g \<and>
     gate_view g' = gate_track g x v"

lemma mr_lookup_id: "mr_lookup types tid = Some mt \<Longrightarrow> mt_type_id mt = tid"
  by (auto simp: mr_lookup_def dest: find_SomeD)

lemma effective_mode_frame [simp]:
  "effective_mode (g\<lparr>sg_invariant_checker := c\<rparr>) x types = effective_mode g x types"
  "effective_mode (g\<lparr>sg_total_checks := n\<rparr>) x types = effective_mode g x types"
  by (simp_all add: effective_mode_def boundary_mode_def Let_def split: option.splits)

lemma gate_deny_step:
  fixes x cap_reg
  assumes fail: "failing_layer x cap_reg types (gate_view g0) = Some (l, r)"
    and g1: "gate_inv types h g1" "g1 = g0\<lparr>sg_total_checks := sg_total_checks g0 + 1, sg_invariant_checker := c\<rparr>"
    and c: "checker_view c = gate_view g0" and len: "length h < 2 ^ 64 - 1"
  defines "v \<equiv> gate_decision g0 x cap_reg types"
  shows "\<exists>g'. make_verdict g1 x l r types = Some (v, g') \<and> gate_step_ok types h x v g0 g'"
proof -
  have v: "v = verdict_for (Some (l, r)) (effective_mode g1 x types)"
    using fail by (simp add: v_def gate_decision_def g1(2))
  then have ne: "v \<noteq> Allowed" by (simp add: verdict_for_def)
  from make_verdict_spec [OF g1(1) len, of x l r] show ?thesis
    using ne g1(2) c unfolding v [symmetric]
    by (auto simp: gate_step_ok_def counted_def gate_view_def gate_track_def split: option.splits)
qed

lemma gate_allow_step:
  assumes "failing_layer x cap_reg types (gate_view g0) = None"
    and g1: "gate_inv types h g1" "g1 = g0\<lparr>sg_total_checks := sg_total_checks g0 + 1, sg_invariant_checker := c\<rparr>"
    and c: "checker_view c = gate_track g0 x Allowed" and len: "length h < 2 ^ 64 - 1"
  shows "\<exists>g'. gate_allow g1 x = Some (gate_decision g0 x cap_reg types, g') \<and>
    gate_step_ok types h x (gate_decision g0 x cap_reg types) g0 g'"
proof -
  have v: "gate_decision g0 x cap_reg types = Allowed" using assms(1) by (simp add: gate_decision_def verdict_for_def)
  from gate_allow_spec [OF g1(1) len, of x] show ?thesis
    using g1(2) c unfolding v by (auto simp: gate_step_ok_def counted_def gate_view_def)
qed

lemma invariant_layer:
  fixes m
  assumes "gate_inv types h g" "registry_inv types" "mr_lookup types tid = Some mt"
  defines "f \<equiv> first_failure mt m (gate_view g tid)"
  shows "\<exists>c. checker_check (sg_invariant_checker g) mt m = (f, c) \<and>
    gate_inv types h (g\<lparr>sg_invariant_checker := c\<rparr>) \<and>
    checker_view c = (if f = None then (gate_view g)(tid := track_accept m (gate_view g tid)) else gate_view g)"
proof -
  from assms(1) obtain seen where seen: "checker_inv seen (sg_invariant_checker g)"
    "seen \<subseteq> {tid. mr_lookup types tid \<noteq> None}" by (auto simp: gate_inv_def)
  have id: "mt_type_id mt = tid" using mr_lookup_id [OF assms(3)] .
  have sub: "insert tid seen \<subseteq> {tid. mr_lookup types tid \<noteq> None}" using seen(2) assms(3) by auto
  have "card (insert (mt_type_id mt) seen) \<le> MAX_MESSAGE_TYPES"
    using lookup_dom_card [OF assms(2) sub] by (simp add: id)
  from checker_check_spec [OF seen(1) this, of m] obtain c where
    c: "checker_check (sg_invariant_checker g) mt m = (f, c)" "checker_inv (insert tid seen) c"
      "checker_view c = (if f = None then (gate_view g)(tid := track_accept m (gate_view g tid)) else gate_view g)"
    unfolding id gate_view_def f_def by blast
  moreover have "gate_inv types h (g\<lparr>sg_invariant_checker := c\<rparr>)" using assms(1) c(2) sub by (auto simp: gate_inv_def)
  ultimately show ?thesis by blast
qed

text \<open>The first three layers, and what is left of a check when they pass.\<close>

definition base_layers :: "boundary_crossing \<Rightarrow> cap_registry \<Rightarrow> bool" where
  "base_layers x cap_reg \<longleftrightarrow>
     (\<exists>i. check_access cap_reg (bc_task_id x) (bc_resource x) (bc_required_permissions x) (bc_now x) = Inr i) \<and>
     sl_classification (bc_label x) \<le> bc_dest_max_classification x \<and> bc_dest_integrity x \<le> sl_integrity (bc_label x)"

lemma base_layers_pass:
  assumes "base_layers x cap_reg"
  shows "failing_layer x cap_reg types tr = (case sl_message_type (bc_label x) of
      None \<Rightarrow> None
    | Some tid \<Rightarrow> (case mr_lookup types tid of
        None \<Rightarrow> Some (4, UnknownMessageType)
      | Some mt \<Rightarrow> map_option (\<lambda>i. (4, InvariantFailed i)) (first_failure mt (bc_metadata x) (tr tid))))"
    "gate_check g0 x cap_reg types = (let g = g0\<lparr>sg_total_checks := sg_total_checks g0 + 1\<rparr> in
      case sl_message_type (bc_label x) of
        None \<Rightarrow> gate_allow g x
      | Some tid \<Rightarrow> (case mr_lookup types tid of
          None \<Rightarrow> make_verdict g x 4 UnknownMessageType types
        | Some mt \<Rightarrow> (case checker_check (sg_invariant_checker g) mt (bc_metadata x) of (r, c) \<Rightarrow>
            let g1 = g\<lparr>sg_invariant_checker := c\<rparr> in
            (case r of Some i \<Rightarrow> make_verdict g1 x 4 (InvariantFailed i) types | None \<Rightarrow> gate_allow g1 x))))"
  using assms by (auto simp: base_layers_def failing_layer_def gate_check_def may_flow_to_def not_less Let_def)

lemma base_layers_fail:
  assumes "\<not> base_layers x cap_reg"
  shows "\<exists>l r. failing_layer x cap_reg types tr = Some (l, r) \<and>
    gate_check g0 x cap_reg types = make_verdict (g0\<lparr>sg_total_checks := sg_total_checks g0 + 1\<rparr>) x l r types"
  using assms by (auto simp: base_layers_def failing_layer_def gate_check_def may_flow_to_def not_less Let_def isl_def
      split: sum.splits)

lemma gate_check_spec:
  assumes inv: "gate_inv types h g0" and types: "registry_inv types" and len: "length h < 2 ^ 64 - 1"
  shows "\<exists>g'. gate_check g0 x cap_reg types = Some (gate_decision g0 x cap_reg types, g') \<and>
    gate_step_ok types h x (gate_decision g0 x cap_reg types) g0 g'"
proof -
  let ?g = "g0\<lparr>sg_total_checks := sg_total_checks g0 + 1\<rparr>"
  have g: "gate_inv types h ?g" "?g = ?g\<lparr>sg_invariant_checker := sg_invariant_checker g0\<rparr>"
    using inv by (simp_all add: gate_inv_def)
  have view: "checker_view (sg_invariant_checker g0) = gate_view g0" "gate_view ?g = gate_view g0"
    by (simp_all add: gate_view_def)
  note deny = gate_deny_step [OF _ g view(1) len, where x = x and cap_reg = cap_reg]
  show ?thesis
  proof (cases "base_layers x cap_reg")
    case False
    from base_layers_fail [OF this, of types "gate_view g0" g0] show ?thesis using deny by force
  next
    case True
    note pass = base_layers_pass [OF True]
    show ?thesis
    proof (cases "sl_message_type (bc_label x)")
      case None
      then show ?thesis using gate_allow_step [OF _ g _ len, of x cap_reg]
        by (simp add: pass gate_track_def view)
    next
      case tid: (Some tid)
      show ?thesis
      proof (cases "mr_lookup types tid")
        case None
        then show ?thesis using tid deny [of 4 UnknownMessageType] by (simp add: pass)
      next
        case mt: (Some mt)
        from invariant_layer [OF g(1) types mt, of "bc_metadata x"] obtain c where
          c: "checker_check (sg_invariant_checker g0) mt (bc_metadata x) =
              (first_failure mt (bc_metadata x) (gate_view g0 tid), c)"
            "gate_inv types h (?g\<lparr>sg_invariant_checker := c\<rparr>)"
            "checker_view c = (if first_failure mt (bc_metadata x) (gate_view g0 tid) = None
              then (gate_view g0)(tid := track_accept (bc_metadata x) (gate_view g0 tid)) else gate_view g0)"
          unfolding view(2) by auto
        show ?thesis
          using tid mt c(1,3) gate_allow_step [OF _ c(2) refl _ len, of x cap_reg]
            gate_deny_step [OF _ c(2) refl _ len, of x cap_reg 4]
          by (cases "first_failure mt (bc_metadata x) (gate_view g0 tid)") (simp_all add: pass gate_track_def)
      qed
    qed
  qed
qed

section \<open>Administration\<close>

lemma boundary_index_less: "boundary_index b < NUM_BOUNDARIES"
  by (cases b) (simp_all add: NUM_BOUNDARIES_def)

lemma boundary_index_inject: "boundary_index a = boundary_index b \<longleftrightarrow> a = b"
  by (cases a; cases b) simp_all

lemma set_boundary_mode_spec:
  assumes "gate_inv types h g"
  shows "gate_inv types h (set_boundary_mode g b mode) \<and>
    boundary_mode (set_boundary_mode g b mode) = (boundary_mode g)(b := mode) \<and>
    gate_view (set_boundary_mode g b mode) = gate_view g"
  using assms boundary_index_less
  by (auto simp: gate_inv_def set_boundary_mode_def boundary_mode_def gate_view_def Let_def boundary_index_inject fun_eq_iff
      nth_list_update)

lemma gate_reset_rate_window_spec:
  assumes "gate_inv types h g"
  shows "gate_inv types h (gate_reset_rate_window g tid) \<and>
    gate_view (gate_reset_rate_window g tid) = (gate_view g)(tid := (fst (gate_view g tid), 0)) \<and>
    boundary_mode (gate_reset_rate_window g tid) = boundary_mode g"
proof -
  from assms obtain seen where seen: "checker_inv seen (sg_invariant_checker g)"
    "seen \<subseteq> {tid. mr_lookup types tid \<noteq> None}" by (auto simp: gate_inv_def)
  from reset_rate_window_spec [OF seen(1), of tid] show ?thesis
    using assms seen(2) by (auto simp: gate_inv_def gate_reset_rate_window_def gate_view_def boundary_mode_def Let_def)
qed

lemma ascii_utf8: "list_all (\<lambda>c. of_char c < (0x80 :: u8)) s \<Longrightarrow> utf8_valid (ascii s)"
  by (induction s) (simp_all add: ascii_def)

lemma gate_entry_wf: "entry_wf (gate_entry x v)"
proof -
  have "utf8_valid (ascii (reason_as_str r))" for r by (cases r) (simp_all add: ascii_utf8)
  moreover have "utf8_valid (ascii ''gate-check'')" by (simp add: ascii_utf8)
  ultimately have "op_wf (operation (gate_entry x v))"
    unfolding op_wf_def by (cases v) (auto simp: gate_entry_def)
  moreover have "et_wf (event_type (gate_entry x v))"
    using event_consts_wf by (cases v) (simp_all add: gate_entry_def)
  ultimately show ?thesis by (simp add: entry_wf_def)
qed

section \<open>Runs of the gate\<close>

fun gate_checks ::
  "security_gate \<Rightarrow> boundary_crossing list \<Rightarrow> cap_registry \<Rightarrow> message_type_registry \<Rightarrow> (gate_verdict list \<times> security_gate) option" where
  "gate_checks g [] cap_reg types = Some ([], g)"
| "gate_checks g (x # xs) cap_reg types = do {
     (v, g1) \<leftarrow> gate_check g x cap_reg types;
     (vs, g2) \<leftarrow> gate_checks g1 xs cap_reg types;
     Some (v # vs, g2) }"

text \<open>The decisions of an ideal gate, which keeps what it has accepted in a function.\<close>

fun ideal_verdicts ::
  "(trust_boundary \<Rightarrow> enforcement_mode) \<Rightarrow> (message_type_id \<Rightarrow> track) \<Rightarrow> boundary_crossing list \<Rightarrow> cap_registry \<Rightarrow>
     message_type_registry \<Rightarrow> gate_verdict list" where
  "ideal_verdicts modes tr [] cap_reg types = []"
| "ideal_verdicts modes tr (x # xs) cap_reg types =
     (let mode = (case Option.bind (sl_message_type (bc_label x)) (mr_lookup types) of
            None \<Rightarrow> modes (bc_boundary x) | Some mt \<Rightarrow> mt_mode mt);
          v = verdict_for (failing_layer x cap_reg types tr) mode;
          tr' = (case sl_message_type (bc_label x) of
            Some tid \<Rightarrow> (if v = Allowed then tr(tid := track_accept (bc_metadata x) (tr tid)) else tr)
          | None \<Rightarrow> tr) in
      v # ideal_verdicts modes tr' xs cap_reg types)"

lemma length_ideal_verdicts [simp]: "length (ideal_verdicts modes tr xs cap_reg types) = length xs"
  by (induction xs arbitrary: tr) (auto simp: Let_def)

lemma effective_mode_alt: "effective_mode g x types = (case Option.bind (sl_message_type (bc_label x)) (mr_lookup types) of
    None \<Rightarrow> boundary_mode g (bc_boundary x) | Some mt \<Rightarrow> mt_mode mt)"
  by (simp add: effective_mode_def split: option.splits)

lemma gate_decision_step:
  assumes "gate_step_ok types h x v g g'" "v = gate_decision g x cap_reg types"
  shows "ideal_verdicts (boundary_mode g) (gate_view g) (x # xs) cap_reg types =
    v # ideal_verdicts (boundary_mode g') (gate_view g') xs cap_reg types"
proof -
  have "boundary_mode g' = boundary_mode g" using assms(1)
    by (auto simp: gate_step_ok_def boundary_mode_def Let_def)
  moreover have "gate_view g' = gate_track g x v" using assms(1) by (simp add: gate_step_ok_def)
  ultimately show ?thesis
    by (simp add: assms(2) gate_decision_def effective_mode_alt gate_track_def Let_def split: option.splits)
qed

text \<open>The counters of a run.\<close>

definition tallied :: "gate_verdict list \<Rightarrow> security_gate \<Rightarrow> security_gate \<Rightarrow> bool" where
  "tallied vs g g' \<longleftrightarrow> sg_total_checks g' = sg_total_checks g + of_nat (length vs) \<and>
     sg_total_allowed g' = sg_total_allowed g + of_nat (length (filter (\<lambda>v. v = Allowed) vs)) \<and>
     sg_total_denied g' = sg_total_denied g + of_nat (length (filter (\<lambda>v. \<not> verdict_is_allowed v) vs)) \<and>
     sg_total_permissive_passes g' = sg_total_permissive_passes g +
       of_nat (length (filter (\<lambda>v. verdict_is_allowed v \<and> v \<noteq> Allowed) vs))"

lemma tallied_Cons: "counted v g g1 \<Longrightarrow> tallied vs g1 g' \<Longrightarrow> tallied (v # vs) g g'"
  by (auto simp: counted_def tallied_def)

lemma gate_checks_spec:
  fixes cap_reg
  assumes "gate_inv types h g" "registry_inv types" "length h + length xs < 2 ^ 64"
  defines "vs \<equiv> ideal_verdicts (boundary_mode g) (gate_view g) xs cap_reg types"
  shows "\<exists>g'. gate_checks g xs cap_reg types = Some (vs, g') \<and> gate_inv types (h @ map2 gate_entry xs vs) g' \<and>
    tallied vs g g'"
  using assms(1,3) unfolding vs_def
proof (induction xs arbitrary: g h)
  case Nil
  then show ?case by (simp add: tallied_def)
next
  case (Cons x xs)
  let ?v = "gate_decision g x cap_reg types"
  from gate_check_spec [OF Cons.prems(1) assms(2), of x cap_reg] Cons.prems(2) obtain g1 where
    g1: "gate_check g x cap_reg types = Some (?v, g1)" "gate_step_ok types h x ?v g g1" by auto
  then have "gate_inv types (h @ [gate_entry x ?v]) g1" by (simp add: gate_step_ok_def)
  from Cons.IH [OF this] Cons.prems(2) obtain g2 where
    g2: "gate_checks g1 xs cap_reg types = Some (ideal_verdicts (boundary_mode g1) (gate_view g1) xs cap_reg types, g2)"
      "gate_inv types ((h @ [gate_entry x ?v]) @ map2 gate_entry xs (ideal_verdicts (boundary_mode g1) (gate_view g1) xs cap_reg types)) g2"
      "tallied (ideal_verdicts (boundary_mode g1) (gate_view g1) xs cap_reg types) g1 g2" by auto
  have "counted ?v g g1" using g1(2) by (simp add: gate_step_ok_def)
  then show ?case unfolding gate_decision_step [OF g1(2) refl] using g1(1) g2
    by (simp add: tallied_Cons del: ideal_verdicts.simps)
qed

section \<open>What the gate guarantees\<close>


definition sample_crossing :: "u64 \<Rightarrow> message_type_id option \<Rightarrow> boundary_crossing" where
  "sample_crossing t tid =
     \<lparr>bc_boundary = Kernel, bc_direction = Inbound, bc_task_id = t,
      bc_label = \<lparr>sl_classification = Public, sl_integrity = High, sl_message_type = tid\<rparr>,
      bc_resource = \<lparr>rr_type = OnnxModel, rr_instance = 5\<rparr>, bc_required_permissions = 1,
      bc_metadata = metadata_empty, bc_dest_integrity = Low, bc_dest_max_classification = Internal, bc_now = 20\<rparr>"

lemma sample_verdicts:
  "failing_layer (sample_crossing 9 None) ex_registry types tr = None"
  "failing_layer (sample_crossing 10 None) ex_registry types tr = Some (1, MissingCapability)"
proof -
  have "\<exists>i. check_access ex_registry 9 \<lparr>rr_type = OnnxModel, rr_instance = 5\<rparr> 1 20 = Inr i"
    unfolding check_access_iff by (simp add: ex_registry_def ex_cap_def is_expired_def perm_contains_def)
  then show "failing_layer (sample_crossing 9 None) ex_registry types tr = None"
    by (auto simp: failing_layer_def sample_crossing_def less_eq_classification_level_def less_eq_integrity_level_def)
  have "\<nexists>i. check_access ex_registry 10 \<lparr>rr_type = OnnxModel, rr_instance = 5\<rparr> 1 20 = Inr i"
    unfolding check_access_iff by (simp add: ex_registry_def ex_cap_def)
  then have "isl (check_access ex_registry 10 \<lparr>rr_type = OnnxModel, rr_instance = 5\<rparr> 1 20)"
    by (cases "check_access ex_registry 10 \<lparr>rr_type = OnnxModel, rr_instance = 5\<rparr> 1 20") auto
  then show "failing_layer (sample_crossing 10 None) ex_registry types tr = Some (1, MissingCapability)"
    by (simp add: failing_layer_def sample_crossing_def)
qed


text \<open>
  C8. Complete mediation. When the mode that applies to a crossing is Enforcing, whatever the
  state of the gate, a crossing that is let through satisfies every layer: the task owns a live,
  unrevoked, unexpired capability for the resource with the required permissions, the data is
  not classified above the destination's ceiling, its integrity is at least the destination's,
  and its message type, if it names one, is registered and the checker accepts its invariants.
\<close>

theorem gate_complete_mediation:
  assumes "gate_check g x cap_reg types = Some (v, g')" "verdict_is_allowed v"
    "(case Option.bind (sl_message_type (bc_label x)) (mr_lookup types) of
       None \<Rightarrow> boundary_mode g (bc_boundary x) | Some mt \<Rightarrow> mt_mode mt) = Enforcing"
  shows "(\<exists>c \<in> set (caps cap_reg). cap_owner c = bc_task_id x \<and> \<not> is_revoked cap_reg (cap_id c) \<and>
      \<not> is_expired c (bc_now x) \<and> cap_resource c = bc_resource x \<and>
      perm_contains (cap_permissions c) (bc_required_permissions x)) \<and>
    sl_classification (bc_label x) \<le> bc_dest_max_classification x \<and>
    bc_dest_integrity x \<le> sl_integrity (bc_label x) \<and>
    (\<forall>tid. sl_message_type (bc_label x) = Some tid \<longrightarrow> (\<exists>mt. mr_lookup types tid = Some mt \<and>
      fst (checker_check (sg_invariant_checker g) mt (bc_metadata x)) = None))"
proof -
  have deny: "make_verdict g1 x l r types \<noteq> Some (v, g')"
    if "g1 = g\<lparr>sg_total_checks := n, sg_invariant_checker := c\<rparr>" for g1 l r n c
  proof -
    have "effective_mode g1 x types = Enforcing" using assms(3) by (simp add: that effective_mode_alt [symmetric])
    then show ?thesis using make_verdict_mode [of g1 x l r types] assms(2) by (auto simp: verdict_for_def)
  qed
  have deny0: "make_verdict (g\<lparr>sg_total_checks := sg_total_checks g + 1\<rparr>) x l r types \<noteq> Some (v, g')" for l r
    by (rule deny [where n = "sg_total_checks g + 1" and c = "sg_invariant_checker g"]) simp
  have "base_layers x cap_reg"
  proof (rule ccontr)
    assume "\<not> base_layers x cap_reg"
    from base_layers_fail [OF this, of types "gate_view g" g] assms(1) deny0
    show False by metis
  qed
  moreover have "\<exists>mt. mr_lookup types tid = Some mt \<and> fst (checker_check (sg_invariant_checker g) mt (bc_metadata x)) = None"
    if "sl_message_type (bc_label x) = Some tid" for tid
    using assms(1) that base_layers_pass(2) [OF calculation, of g types]
      deny0 deny [OF refl]
    by (auto simp: Let_def split: option.splits prod.splits)
  ultimately show ?thesis unfolding base_layers_def check_access_iff by blast
qed

theorem gate_complete_mediation_witness:
  "\<exists>c \<in> set (caps ex_registry). cap_owner c = 9 \<and> \<not> is_revoked ex_registry (cap_id c) \<and>
     \<not> is_expired c 20 \<and> cap_resource c = \<lparr>rr_type = OnnxModel, rr_instance = 5\<rparr> \<and> perm_contains (cap_permissions c) 1"
proof -
  let ?x = "sample_crossing 9 None"
  from gate_inv_new [of Enforcing registry_new] obtain g where
    g: "gate_inv registry_new [] g" "boundary_mode g (bc_boundary ?x) = Enforcing" by blast
  have "gate_decision g ?x ex_registry registry_new = Allowed"
    by (simp add: gate_decision_def sample_verdicts verdict_for_def)
  with gate_check_spec [OF g(1) registry_inv_new, of ?x ex_registry] obtain g' where
    "gate_check g ?x ex_registry registry_new = Some (Allowed, g')" by auto
  from gate_complete_mediation [OF this] g(2) show ?thesis
    by (simp add: sample_crossing_def)
qed

text \<open>
  A message type's own mode outranks the boundary. With the built-in catalogue, in which
  every type is permissive, a crossing whose label names a catalogue type is let through by any
  gate in any state that has decided fewer than 2 to the 64 crossings, whatever the boundary's
  mode is and whether or not the task holds a capability.
\<close>

theorem catalogue_types_always_pass:
  assumes "gate_inv default_registry h g" "length h < 2 ^ 64 - 1"
    "sl_message_type (bc_label x) = Some tid" "tid \<in> set (map mt_type_id DEFAULT_MESSAGE_TYPES)"
  shows "\<exists>v g'. gate_check g x cap_reg default_registry = Some (v, g') \<and> verdict_is_allowed v"
proof -
  from assms(4) obtain mt where mt: "mr_lookup default_registry tid = Some mt" "mt \<in> set DEFAULT_MESSAGE_TYPES"
    unfolding default_registry_spec [THEN conjunct2, THEN conjunct2]
    by (cases "find (\<lambda>mt. mt_type_id mt = tid) DEFAULT_MESSAGE_TYPES")
      (auto simp: find_None_iff dest: find_SomeD)
  have "effective_mode g x default_registry = Permissive"
    using assms(3) mt default_permissive by (simp add: effective_mode_def list_all_iff)
  then have "verdict_is_allowed (gate_decision g x cap_reg default_registry)"
    by (auto simp: gate_decision_def verdict_for_def split: option.splits)
  with gate_check_spec [OF assms(1) _ assms(2)] default_registry_spec show ?thesis by blast
qed

theorem catalogue_types_always_pass_witness:
  "\<exists>g v g'. gate_new Enforcing = Some g \<and>
     gate_check g (sample_crossing 10 (Some 1)) ex_registry default_registry = Some (v, g') \<and> verdict_is_allowed v"
proof -
  from gate_inv_new [of Enforcing default_registry] obtain g where
    g: "gate_new Enforcing = Some g" "gate_inv default_registry [] g" by blast
  from catalogue_types_always_pass [OF g(2), of "sample_crossing 10 (Some 1)" 1 ex_registry] g(1)
  show ?thesis by (auto simp: sample_crossing_def default_ids)
qed

end
