(* ===== verification/Inference.thy ===== *)
theory Inference
  imports Gate Key_Expr
begin

text \<open>
  The inference protocol (\<open>ipc/src/inference_proto.rs\<close>), its wire codec, and the place where inbound
  requests meet the security gate (\<open>ipc/src/gate_check.rs\<close>). Strings are their UTF-8 bytes. The
  decoders check the remaining length before every read; a check and the read it guards are one
  operation here. The part of the file that calls the ONNX runtime is not modelled.
\<close>

section \<open>Results\<close>

primrec and_then :: "('e, 'a) result \<Rightarrow> ('a \<Rightarrow> ('e, 'b) result) \<Rightarrow> ('e, 'b) result" where
  "and_then (Inl e) f = Inl e"
| "and_then (Inr x) f = f x"

lemma and_then_Inr: "and_then x f = Inr z \<longleftrightarrow> (\<exists>y. x = Inr y \<and> f y = Inr z)"
  by (cases x) auto

section \<open>The protocol\<close>

definition INFERENCE_MAGIC :: u32 where
  "INFERENCE_MAGIC = 0x4F4E4E58"

definition PROTOCOL_VERSION :: u8 where
  "PROTOCOL_VERSION = 1"

datatype inference_request_type = LoadModel | UnloadModel | RunInference | GetModelInfo

fun request_type_u8 :: "inference_request_type \<Rightarrow> u8" where
  "request_type_u8 LoadModel = 1"
| "request_type_u8 UnloadModel = 2"
| "request_type_u8 RunInference = 3"
| "request_type_u8 GetModelInfo = 4"

definition request_type_from_u8 :: "u8 \<Rightarrow> (ipc_error, inference_request_type) result" where
  "request_type_from_u8 v =
     (if v = 1 then Inr LoadModel else if v = 2 then Inr UnloadModel else if v = 3 then Inr RunInference
      else if v = 4 then Inr GetModelInfo else Inl InvalidProtocol)"

datatype tensor_data_type = Float32 | Float16 | Int8 | Int32 | Int64 | Uint8

fun data_type_u8 :: "tensor_data_type \<Rightarrow> u8" where
  "data_type_u8 Float32 = 1"
| "data_type_u8 Float16 = 2"
| "data_type_u8 Int8 = 3"
| "data_type_u8 Int32 = 4"
| "data_type_u8 Int64 = 5"
| "data_type_u8 Uint8 = 6"

definition data_type_from_u8 :: "u8 \<Rightarrow> (ipc_error, tensor_data_type) result" where
  "data_type_from_u8 v =
     (if v = 1 then Inr Float32 else if v = 2 then Inr Float16 else if v = 3 then Inr Int8
      else if v = 4 then Inr Int32 else if v = 5 then Inr Int64 else if v = 6 then Inr Uint8
      else Inl InvalidProtocol)"

record tensor_data =
  td_name :: "u8 list"
  td_data_type :: tensor_data_type
  td_shape :: "u32 list"
  td_data :: "u8 list"

definition tensor_encode :: "tensor_data \<Rightarrow> u8 list" where
  "tensor_encode t =
     to_be_bytes 2 (of_nat (length (td_name t)) :: u16) @ td_name t @ [data_type_u8 (td_data_type t)] @
     to_be_bytes 2 (of_nat (length (td_shape t)) :: u16) @ concat (map (to_be_bytes 4) (td_shape t)) @
     to_be_bytes 4 (of_nat (length (td_data t)) :: u32) @ td_data t"

text \<open>\<open>if pos + n > data.len() { return Err(PacketTooShort) }\<close> and the bytes that are read then.\<close>

definition take_at :: "u8 list \<Rightarrow> nat \<Rightarrow> nat \<Rightarrow> (ipc_error, u8 list) result" where
  "take_at data pos n = (if pos + n > length data then Inl PacketTooShort else Inr (take n (drop pos data)))"

fun read_dims :: "u8 list \<Rightarrow> nat \<Rightarrow> u32 list" where
  "read_dims bs 0 = []"
| "read_dims bs (Suc n) = from_be_bytes (take 4 bs) # read_dims (drop 4 bs) n"

definition tensor_decode :: "u8 list \<Rightarrow> nat \<Rightarrow> (ipc_error, tensor_data \<times> nat) result" where
  "tensor_decode data offset =
     and_then (take_at data offset 2) (\<lambda>b1.
     let name_len = unat (from_be_bytes b1 :: u16); pos1 = offset + 2 in
     and_then (take_at data pos1 name_len) (\<lambda>name.
     if \<not> utf8_valid name then Inl InvalidProtocol
     else let pos2 = pos1 + name_len in
     and_then (take_at data pos2 1) (\<lambda>b2.
     and_then (data_type_from_u8 (hd b2)) (\<lambda>data_type.
     let pos3 = pos2 + 1 in
     and_then (take_at data pos3 2) (\<lambda>b3.
     let num_dims = unat (from_be_bytes b3 :: u16); pos4 = pos3 + 2 in
     and_then (take_at data pos4 (4 * num_dims)) (\<lambda>b4.
     let shape = read_dims b4 num_dims; pos5 = pos4 + 4 * num_dims in
     and_then (take_at data pos5 4) (\<lambda>b5.
     let data_len = unat (from_be_bytes b5 :: u32); pos6 = pos5 + 4 in
     and_then (take_at data pos6 data_len) (\<lambda>bytes.
     Inr (\<lparr>td_name = name, td_data_type = data_type, td_shape = shape, td_data = bytes\<rparr>,
          pos6 + data_len - offset)))))))))"

fun tensors_decode :: "u8 list \<Rightarrow> nat \<Rightarrow> nat \<Rightarrow> (ipc_error, tensor_data list) result" where
  "tensors_decode data offset 0 = Inr []"
| "tensors_decode data offset (Suc n) =
     and_then (tensor_decode data offset) (\<lambda>(t, consumed).
     and_then (tensors_decode data (offset + consumed) n) (\<lambda>ts. Inr (t # ts)))"

record inf_request =
  iq_request_type :: inference_request_type
  iq_request_id :: u64
  iq_model_id :: u32
  iq_inputs :: "tensor_data list"
  iq_timeout_ms :: u32

definition request_encode :: "inf_request \<Rightarrow> u8 list" where
  "request_encode r =
     to_be_bytes 4 INFERENCE_MAGIC @ [PROTOCOL_VERSION] @ [request_type_u8 (iq_request_type r)] @
     to_be_bytes 8 (iq_request_id r) @ to_be_bytes 4 (iq_model_id r) @ to_be_bytes 4 (iq_timeout_ms r) @
     to_be_bytes 2 (of_nat (length (iq_inputs r)) :: u16) @ concat (map tensor_encode (iq_inputs r))"

definition request_decode :: "u8 list \<Rightarrow> (ipc_error, inf_request) result" where
  "request_decode data =
     (if length data < 24 then Inl PacketTooShort
      else if from_be_bytes (take 4 data) \<noteq> INFERENCE_MAGIC then Inl InvalidProtocol
      else if data ! 4 \<noteq> PROTOCOL_VERSION then Inl InvalidProtocol
      else and_then (request_type_from_u8 (data ! 5)) (\<lambda>request_type.
        let request_id = from_be_bytes (take 8 (drop 6 data));
            model_id = from_be_bytes (take 4 (drop 14 data));
            timeout_ms = from_be_bytes (take 4 (drop 18 data));
            num_inputs = unat (from_be_bytes (take 2 (drop 22 data)) :: u16) in
        and_then (tensors_decode data 24 num_inputs) (\<lambda>inputs.
        Inr \<lparr>iq_request_type = request_type, iq_request_id = request_id, iq_model_id = model_id,
          iq_inputs = inputs, iq_timeout_ms = timeout_ms\<rparr>)))"

datatype response_status = Ok | ModelNotFound | InvalidInput | InferenceError | Timeout | InternalError

fun status_u8 :: "response_status \<Rightarrow> u8" where
  "status_u8 Ok = 0"
| "status_u8 ModelNotFound = 1"
| "status_u8 InvalidInput = 2"
| "status_u8 InferenceError = 3"
| "status_u8 Timeout = 4"
| "status_u8 InternalError = 5"

definition status_from_u8 :: "u8 \<Rightarrow> (ipc_error, response_status) result" where
  "status_from_u8 v =
     (if v = 0 then Inr Ok else if v = 1 then Inr ModelNotFound else if v = 2 then Inr InvalidInput
      else if v = 3 then Inr InferenceError else if v = 4 then Inr Timeout else if v = 5 then Inr InternalError
      else Inl InvalidProtocol)"

record inf_response =
  ir_request_id :: u64
  ir_status :: response_status
  ir_outputs :: "tensor_data list"
  ir_elapsed_us :: u64

definition response_encode :: "inf_response \<Rightarrow> u8 list" where
  "response_encode r =
     to_be_bytes 4 INFERENCE_MAGIC @ [PROTOCOL_VERSION] @ to_be_bytes 8 (ir_request_id r) @
     [status_u8 (ir_status r)] @ to_be_bytes 8 (ir_elapsed_us r) @
     to_be_bytes 2 (of_nat (length (ir_outputs r)) :: u16) @ concat (map tensor_encode (ir_outputs r))"

definition response_decode :: "u8 list \<Rightarrow> (ipc_error, inf_response) result" where
  "response_decode data =
     (if length data < 24 then Inl PacketTooShort
      else if from_be_bytes (take 4 data) \<noteq> INFERENCE_MAGIC then Inl InvalidProtocol
      else if data ! 4 \<noteq> PROTOCOL_VERSION then Inl InvalidProtocol
      else let request_id = from_be_bytes (take 8 (drop 5 data)) in
        and_then (status_from_u8 (data ! 13)) (\<lambda>status.
        let elapsed_us = from_be_bytes (take 8 (drop 14 data));
            num_outputs = unat (from_be_bytes (take 2 (drop 22 data)) :: u16) in
        and_then (tensors_decode data 24 num_outputs) (\<lambda>outputs.
        Inr \<lparr>ir_request_id = request_id, ir_status = status, ir_outputs = outputs, ir_elapsed_us = elapsed_us\<rparr>)))"

section \<open>The gate call\<close>

definition saturating_mul32 :: "u32 \<Rightarrow> u32 \<Rightarrow> u32" where
  "saturating_mul32 a b = (if unat a * unat b < 2 ^ 32 then a * b else - 1)"

fun dtype_of :: "tensor_data_type \<Rightarrow> tensor_dtype" where
  "dtype_of Float32 = tensor_dtype.Float32"
| "dtype_of Float16 = tensor_dtype.Float16"
| "dtype_of Int8 = tensor_dtype.Int8"
| "dtype_of Int32 = tensor_dtype.Int32"
| "dtype_of Int64 = tensor_dtype.Int64"
| "dtype_of Uint8 = tensor_dtype.Uint8"

definition request_metadata :: "inf_request \<Rightarrow> u64 \<Rightarrow> message_metadata" where
  "request_metadata r now = (case iq_inputs r of
     input # _ \<Rightarrow> metadata_empty\<lparr>
        md_rank := of_nat (length (td_shape input)), md_num_dimensions := of_nat (length (td_shape input)),
        md_dimensions := take 8 (td_shape input) @ drop (length (take 8 (td_shape input))) (md_dimensions metadata_empty),
        md_element_count := fold (\<lambda>d a. saturating_mul32 a d) (td_shape input) 1,
        md_payload_bytes := of_nat (length (td_data input)),
        md_dtype := dtype_u8 (dtype_of (td_data_type input)), md_timestamp := now\<rparr>
   | [] \<Rightarrow> metadata_empty\<lparr>md_timestamp := now\<rparr>)"

fun inbound_type_id :: "inference_request_type \<Rightarrow> message_type_id option" where
  "inbound_type_id RunInference = Some 3"
| "inbound_type_id LoadModel = Some 3"
| "inbound_type_id UnloadModel = Some 3"
| "inbound_type_id GetModelInfo = Some 3"

definition PERM_READ :: permissions where
  "PERM_READ = 1"

definition inbound_crossing :: "inf_request \<Rightarrow> u64 \<Rightarrow> u64 \<Rightarrow> boundary_crossing" where
  "inbound_crossing r tid now =
     \<lparr>bc_boundary = Network, bc_direction = Inbound, bc_task_id = tid,
      bc_label = \<lparr>sl_classification = Public, sl_integrity = Low, sl_message_type = inbound_type_id (iq_request_type r)\<rparr>,
      bc_resource = \<lparr>rr_type = NetworkSocket, rr_instance = 0\<rparr>, bc_required_permissions = PERM_READ,
      bc_metadata = request_metadata r now, bc_dest_integrity = Medium,
      bc_dest_max_classification = Restricted, bc_now = now\<rparr>"

definition check_inbound_inference ::
  "inf_request \<Rightarrow> u64 \<Rightarrow> security_gate \<Rightarrow> cap_registry \<Rightarrow> message_type_registry \<Rightarrow> u64 \<Rightarrow>
     (gate_verdict \<times> security_gate) option" where
  "check_inbound_inference r tid g cap_reg types now = gate_check g (inbound_crossing r tid now) cap_reg types"

section \<open>The codec\<close>

definition tensor_wf :: "tensor_data \<Rightarrow> bool" where
  [inv_defs]: "tensor_wf t \<longleftrightarrow> length (td_name t) < 2 ^ 16 \<and> utf8_valid (td_name t) \<and> length (td_shape t) < 2 ^ 16 \<and>
     length (td_data t) < 2 ^ 32"

lemma take_at_Inr: "take_at d p n = Inr bs \<longleftrightarrow> p + n \<le> length d \<and> bs = take n (drop p d)"
  by (auto simp: take_at_def)

lemma drop_append_next:
  assumes "drop p d = bs @ post" "p \<le> length d"
  shows "drop (p + length bs) d = post" "p + length bs \<le> length d"
proof -
  have "drop (p + length bs) d = drop (length bs) (drop p d)" by (simp add: add.commute)
  then show "drop (p + length bs) d = post" using assms(1) by simp
  have "length d - p = length bs + length post" using arg_cong [OF assms(1), of length] by simp
  then show "p + length bs \<le> length d" using assms(2) by linarith
qed

lemma take_at_append: "drop p d = bs @ post \<Longrightarrow> p \<le> length d \<Longrightarrow> n = length bs \<Longrightarrow> take_at d p n = Inr bs"
  using drop_append_next(2) [of p d bs post] by (simp add: take_at_def)

text \<open>A read that succeeds, as the next field of the input.\<close>

lemma take_at_next:
  assumes "take_at d p n = Inr bs"
  shows "drop p d = bs @ drop (p + n) d" "length bs = n" "p + n \<le> length d"
  using assms append_take_drop_id [of n "drop p d"] by (auto simp: take_at_Inr add.commute)

lemma data_type_from_u8_Inr [simp]: "data_type_from_u8 v = Inr dt \<longleftrightarrow> v = data_type_u8 dt"
  by (cases dt) (auto simp: data_type_from_u8_def)

lemma request_type_from_u8_Inr [simp]: "request_type_from_u8 v = Inr ty \<longleftrightarrow> v = request_type_u8 ty"
  by (cases ty) (auto simp: request_type_from_u8_def)

lemma status_from_u8_Inr [simp]: "status_from_u8 v = Inr st \<longleftrightarrow> v = status_u8 st"
  by (cases st) (auto simp: status_from_u8_def)

lemma from_u8_u8 [simp]:
  "data_type_from_u8 (data_type_u8 dt) = Inr dt" "request_type_from_u8 (request_type_u8 ty) = Inr ty"
  "status_from_u8 (status_u8 st) = Inr st"
  by simp_all

lemma length_dims [simp]: "length (concat (map (to_be_bytes 4) xs)) = 4 * length xs"
  by (induction xs) simp_all

lemma read_dims_encode: "read_dims (concat (map (to_be_bytes 4) xs)) (length xs) = (xs :: u32 list)"
  by (induction xs) simp_all

lemma encode_read_dims: "length bs = 4 * n \<Longrightarrow> concat (map (to_be_bytes 4) (read_dims bs n)) = bs \<and> length (read_dims bs n) = n"
proof (induction n arbitrary: bs)
  case (Suc n)
  have "to_be_bytes 4 (from_be_bytes (take 4 bs) :: u32) = take 4 bs" using Suc.prems by simp
  then show ?case using Suc.IH [of "drop 4 bs"] Suc.prems by simp
qed simp

lemma unat_len16: "n < 2 ^ 16 \<Longrightarrow> unat (of_nat n :: u16) = n"
  by (simp add: unat_of_nat take_bit_eq_mod)

lemma unat_len32: "n < 2 ^ 32 \<Longrightarrow> unat (of_nat n :: u32) = n"
  by (simp add: unat_of_nat take_bit_eq_mod)

lemma unat16_bound: "unat (w :: u16) < 65536"
  using unsigned_less [of w, where ?'a = nat] by simp

lemma unat32_bound: "unat (w :: u32) < 4294967296"
  using unsigned_less [of w, where ?'a = nat] by simp

lemma tensor_decode_encode:
  assumes wf: "tensor_wf t" and d: "drop p d = tensor_encode t @ post" and p: "p \<le> length d"
  shows "tensor_decode d p = Inr (t, length (tensor_encode t))"
proof -
  let ?N = "to_be_bytes 2 (of_nat (length (td_name t)) :: u16)" and ?D = "to_be_bytes 2 (of_nat (length (td_shape t)) :: u16)"
    and ?S = "concat (map (to_be_bytes 4) (td_shape t))" and ?L = "to_be_bytes 4 (of_nat (length (td_data t)) :: u32)"
    and ?T = "[data_type_u8 (td_data_type t)]"
  have len: "unat (of_nat (length (td_name t)) :: u16) = length (td_name t)"
    "unat (of_nat (length (td_shape t)) :: u16) = length (td_shape t)"
    "unat (of_nat (length (td_data t)) :: u32) = length (td_data t)"
    using wf by (simp_all add: tensor_wf_def unat_len16 unat_len32)
  have d1: "drop p d = ?N @ (td_name t @ ?T @ ?D @ ?S @ ?L @ td_data t @ post)" using d by (simp add: tensor_encode_def)
  note n1 = drop_append_next [OF d1 p]
  note n2 = drop_append_next [OF n1] note n3 = drop_append_next [OF n2] note n4 = drop_append_next [OF n3]
  note n5 = drop_append_next [OF n4] note n6 = drop_append_next [OF n5]
  note r = take_at_append [OF d1 p refl] take_at_append [OF n1 refl] take_at_append [OF n2 refl] take_at_append [OF n3 refl]
    take_at_append [OF n4 refl] take_at_append [OF n5 refl] take_at_append [OF n6 refl]
  show ?thesis
    using r wf by (simp add: tensor_decode_def len read_dims_encode Let_def tensor_wf_def algebra_simps) (simp add: tensor_encode_def)
qed

lemma tensor_decode_canonical:
  assumes dec: "tensor_decode d p = Inr (t, n)" and p: "p \<le> length d"
  shows "tensor_wf t \<and> n = length (tensor_encode t) \<and> drop p d = tensor_encode t @ drop (p + n) d \<and> p + n \<le> length d"
proof -
  obtain b1 name b2 dt b3 b4 b5 bytes where
    r: "take_at d p 2 = Inr b1" "take_at d (p + 2) (unat (from_be_bytes b1 :: u16)) = Inr name" "utf8_valid name"
      "take_at d (p + 2 + unat (from_be_bytes b1 :: u16)) 1 = Inr b2" "data_type_u8 dt = hd b2"
      "take_at d (p + 2 + unat (from_be_bytes b1 :: u16) + 1) 2 = Inr b3"
      "take_at d (p + 2 + unat (from_be_bytes b1 :: u16) + 1 + 2) (4 * unat (from_be_bytes b3 :: u16)) = Inr b4"
      "take_at d (p + 2 + unat (from_be_bytes b1 :: u16) + 1 + 2 + 4 * unat (from_be_bytes b3 :: u16)) 4 = Inr b5"
      "take_at d (p + 2 + unat (from_be_bytes b1 :: u16) + 1 + 2 + 4 * unat (from_be_bytes b3 :: u16) + 4)
        (unat (from_be_bytes b5 :: u32)) = Inr bytes"
    and t: "t = \<lparr>td_name = name, td_data_type = dt, td_shape = read_dims b4 (unat (from_be_bytes b3 :: u16)), td_data = bytes\<rparr>"
    and n: "n = 2 + unat (from_be_bytes b1 :: u16) + 1 + 2 + 4 * unat (from_be_bytes b3 :: u16) + 4 + unat (from_be_bytes b5 :: u32)"
    using dec by (auto simp: tensor_decode_def Let_def and_then_Inr split: if_splits)
  note f = take_at_next [OF r(1)] take_at_next [OF r(2)] take_at_next [OF r(4)] take_at_next [OF r(6)]
    take_at_next [OF r(7)] take_at_next [OF r(8)] take_at_next [OF r(9)]
  have b2: "b2 = [data_type_u8 dt]" using f(8) r(5) by (cases b2) auto
  have lens: "to_be_bytes 2 (of_nat (length name) :: u16) = b1" "to_be_bytes 4 (of_nat (length bytes) :: u32) = b5"
    "to_be_bytes 2 (from_be_bytes b3 :: u16) = b3"
    using f(2,5,11,17,20) by simp_all
  have dims: "concat (map (to_be_bytes 4) (read_dims b4 (unat (from_be_bytes b3 :: u16)))) = b4"
    "length (read_dims b4 (unat (from_be_bytes b3 :: u16))) = unat (from_be_bytes b3 :: u16)"
    using encode_read_dims [of b4] f(14) by simp_all
  have enc: "tensor_encode t = b1 @ name @ b2 @ b3 @ b4 @ b5 @ bytes"
    by (simp add: tensor_encode_def t lens dims b2)
  have "tensor_wf t" using f(5,20) r(3) unat16_bound [of "from_be_bytes b1"] unat16_bound [of "from_be_bytes b3"]
      unat32_bound [of "from_be_bytes b5"] by (simp add: tensor_wf_def t dims)
  moreover have "n = length (tensor_encode t)" using f(2,5,8,11,14,17,20) by (simp add: enc n)
  moreover have "drop p d = tensor_encode t @ drop (p + n) d"
    using f(1,4,7,10,13,16,19) by (simp add: enc n ac_simps)
  moreover have "p + n \<le> length d" using f(21) by (simp add: n ac_simps)
  ultimately show ?thesis by blast
qed

lemma tensors_decode_iff:
  assumes "p \<le> length d"
  shows "tensors_decode d p k = Inr ts \<longleftrightarrow> length ts = k \<and> (\<forall>t \<in> set ts. tensor_wf t) \<and>
    (\<exists>rest. drop p d = concat (map tensor_encode ts) @ rest)"
  using assms
proof (induction k arbitrary: p ts)
  case 0
  then show ?case by auto
next
  case (Suc k)
  show ?case
  proof
    assume "tensors_decode d p (Suc k) = Inr ts"
    then obtain t n ts' where r: "tensor_decode d p = Inr (t, n)" "tensors_decode d (p + n) k = Inr ts'" "ts = t # ts'"
      by (auto simp: and_then_Inr)
    note c = tensor_decode_canonical [OF r(1) Suc.prems]
    with Suc.IH [of "p + n" ts'] r(2) obtain rest where "length ts' = k" "\<forall>t \<in> set ts'. tensor_wf t"
      "drop (p + n) d = concat (map tensor_encode ts') @ rest" by auto
    then show "length ts = Suc k \<and> (\<forall>t \<in> set ts. tensor_wf t) \<and> (\<exists>rest. drop p d = concat (map tensor_encode ts) @ rest)"
      using c r(3) by auto
  next
    assume "length ts = Suc k \<and> (\<forall>t \<in> set ts. tensor_wf t) \<and> (\<exists>rest. drop p d = concat (map tensor_encode ts) @ rest)"
    then obtain t ts' rest where ts: "ts = t # ts'" "length ts' = k" "tensor_wf t" "\<forall>t \<in> set ts'. tensor_wf t"
      "drop p d = tensor_encode t @ (concat (map tensor_encode ts') @ rest)" by (cases ts) auto
    note next_pos = drop_append_next [OF ts(5) Suc.prems]
    have "tensors_decode d (p + length (tensor_encode t)) k = Inr ts'"
      using Suc.IH [OF next_pos(2)] next_pos(1) ts(2,4) by blast
    then show "tensors_decode d p (Suc k) = Inr ts"
      using tensor_decode_encode [OF ts(3,5) Suc.prems] ts(1) by simp
  qed
qed

text \<open>The 24 bytes in front of the tensors, of a request and of a response.\<close>

lemma take_drop_step: "k + n = m \<Longrightarrow> take n (drop k d) @ drop m d = drop k d"
  using append_take_drop_id [of n "drop k d"] by (simp add: add.commute)

lemma nth_drop_step: "Suc k = m \<Longrightarrow> k < length d \<Longrightarrow> d ! k # drop m d = drop k d"
  by (auto simp: Cons_nth_drop_Suc)

lemma request_header:
  assumes "24 \<le> length d"
  shows "d = take 4 d @ [d ! 4] @ [d ! 5] @ take 8 (drop 6 d) @ take 4 (drop 14 d) @ take 4 (drop 18 d) @
    take 2 (drop 22 d) @ drop 24 d"
  using assms by (simp add: take_drop_step nth_drop_step)

lemma response_header:
  assumes "24 \<le> length d"
  shows "d = take 4 d @ [d ! 4] @ take 8 (drop 5 d) @ [d ! 13] @ take 8 (drop 14 d) @ take 2 (drop 22 d) @ drop 24 d"
  using assms by (simp add: take_drop_step nth_drop_step)

definition request_wf :: "inf_request \<Rightarrow> bool" where
  [inv_defs]: "request_wf r \<longleftrightarrow> length (iq_inputs r) < 2 ^ 16 \<and> (\<forall>t \<in> set (iq_inputs r). tensor_wf t)"

definition response_wf :: "inf_response \<Rightarrow> bool" where
  [inv_defs]: "response_wf r \<longleftrightarrow> length (ir_outputs r) < 2 ^ 16 \<and> (\<forall>t \<in> set (ir_outputs r). tensor_wf t)"

lemma request_decode_encode:
  assumes "request_wf r" "d = request_encode r @ rest"
  shows "request_decode d = Inr r"
proof -
  have k: "unat (of_nat (length (iq_inputs r)) :: u16) = length (iq_inputs r)"
    using assms(1) by (simp add: request_wf_def unat_len16)
  have "drop 24 d = concat (map tensor_encode (iq_inputs r)) @ rest" "24 \<le> length d"
    by (simp_all add: assms(2) request_encode_def)
  then have "tensors_decode d 24 (length (iq_inputs r)) = Inr (iq_inputs r)"
    using tensors_decode_iff [of 24 d] assms(1) by (auto simp: request_wf_def)
  moreover have "take 4 d = to_be_bytes 4 INFERENCE_MAGIC" "d ! 4 = PROTOCOL_VERSION" "d ! 5 = request_type_u8 (iq_request_type r)"
    "take 8 (drop 6 d) = to_be_bytes 8 (iq_request_id r)" "take 4 (drop 14 d) = to_be_bytes 4 (iq_model_id r)"
    "take 4 (drop 18 d) = to_be_bytes 4 (iq_timeout_ms r)" "take 2 (drop 22 d) = to_be_bytes 2 (of_nat (length (iq_inputs r)) :: u16)"
    by (simp_all add: assms(2) request_encode_def nth_append)
  ultimately show ?thesis using \<open>24 \<le> length d\<close> by (simp add: request_decode_def k Let_def)
qed

lemma request_decode_canonical:
  assumes "request_decode d = Inr r"
  shows "request_wf r \<and> (\<exists>rest. d = request_encode r @ rest)"
proof -
  let ?k = "unat (from_be_bytes (take 2 (drop 22 d)) :: u16)"
  have d: "24 \<le> length d" "from_be_bytes (take 4 d) = INFERENCE_MAGIC" "d ! 4 = PROTOCOL_VERSION"
    and ty: "d ! 5 = request_type_u8 (iq_request_type r)" and ts: "tensors_decode d 24 ?k = Inr (iq_inputs r)"
    and r: "iq_request_id r = from_be_bytes (take 8 (drop 6 d))" "iq_model_id r = from_be_bytes (take 4 (drop 14 d))"
      "iq_timeout_ms r = from_be_bytes (take 4 (drop 18 d))"
    using assms by (auto simp: request_decode_def Let_def and_then_Inr split: if_splits)
  from ts tensors_decode_iff [OF d(1)] obtain rest where
    i: "length (iq_inputs r) = ?k" "\<forall>t \<in> set (iq_inputs r). tensor_wf t"
      "drop 24 d = concat (map tensor_encode (iq_inputs r)) @ rest" by auto
  have m: "take 4 d = to_be_bytes 4 INFERENCE_MAGIC" using d(1) by (simp flip: d(2))
  have "d = request_encode r @ rest"
    using request_header [OF d(1)] d(1) by (simp add: request_encode_def r i m d(3) ty)
  then show ?thesis using i unat16_bound by (auto simp: request_wf_def)
qed

lemma response_decode_encode:
  assumes "response_wf r" "d = response_encode r @ rest"
  shows "response_decode d = Inr r"
proof -
  have k: "unat (of_nat (length (ir_outputs r)) :: u16) = length (ir_outputs r)"
    using assms(1) by (simp add: response_wf_def unat_len16)
  have "drop 24 d = concat (map tensor_encode (ir_outputs r)) @ rest" "24 \<le> length d"
    by (simp_all add: assms(2) response_encode_def)
  then have "tensors_decode d 24 (length (ir_outputs r)) = Inr (ir_outputs r)"
    using tensors_decode_iff [of 24 d] assms(1) by (auto simp: response_wf_def)
  moreover have "take 4 d = to_be_bytes 4 INFERENCE_MAGIC" "d ! 4 = PROTOCOL_VERSION"
    "take 8 (drop 5 d) = to_be_bytes 8 (ir_request_id r)" "d ! 13 = status_u8 (ir_status r)"
    "take 8 (drop 14 d) = to_be_bytes 8 (ir_elapsed_us r)" "take 2 (drop 22 d) = to_be_bytes 2 (of_nat (length (ir_outputs r)) :: u16)"
    by (simp_all add: assms(2) response_encode_def nth_append)
  ultimately show ?thesis using \<open>24 \<le> length d\<close> by (simp add: response_decode_def k Let_def)
qed

lemma response_decode_canonical:
  assumes "response_decode d = Inr r"
  shows "response_wf r \<and> (\<exists>rest. d = response_encode r @ rest)"
proof -
  let ?k = "unat (from_be_bytes (take 2 (drop 22 d)) :: u16)"
  have d: "24 \<le> length d" "from_be_bytes (take 4 d) = INFERENCE_MAGIC" "d ! 4 = PROTOCOL_VERSION"
    and st: "d ! 13 = status_u8 (ir_status r)" and ts: "tensors_decode d 24 ?k = Inr (ir_outputs r)"
    and r: "ir_request_id r = from_be_bytes (take 8 (drop 5 d))" "ir_elapsed_us r = from_be_bytes (take 8 (drop 14 d))"
    using assms by (auto simp: response_decode_def Let_def and_then_Inr split: if_splits)
  from ts tensors_decode_iff [OF d(1)] obtain rest where
    i: "length (ir_outputs r) = ?k" "\<forall>t \<in> set (ir_outputs r). tensor_wf t"
      "drop 24 d = concat (map tensor_encode (ir_outputs r)) @ rest" by auto
  have m: "take 4 d = to_be_bytes 4 INFERENCE_MAGIC" using d(1) by (simp flip: d(2))
  have "d = response_encode r @ rest"
    using response_header [OF d(1)] d(1) by (simp add: response_encode_def r i m d(3) st)
  then show ?thesis using i unat16_bound by (auto simp: response_wf_def)
qed

text \<open>
  C34. Messages survive the wire, and only they do. A byte string decodes to a request, or to a
  response, exactly when it starts with the encoding of that message and the message is within the
  limits of the format (fewer than 65536 tensors, names of fewer than 65536 bytes of UTF-8, fewer
  than 65536 dimensions, fewer than 2 to the 32 bytes of data); so decoding inverts encoding,
  encodings of different messages differ, and nothing else is accepted.
\<close>

theorem inference_codec:
  "(request_decode d = Inr q \<longleftrightarrow> request_wf q \<and> (\<exists>rest. d = request_encode q @ rest)) \<and>
   (response_decode d = Inr r \<longleftrightarrow> response_wf r \<and> (\<exists>rest. d = response_encode r @ rest))"
  using request_decode_encode request_decode_canonical response_decode_encode response_decode_canonical by blast

text \<open>
  Counts wrap. The number of inputs is written as sixteen bits: a request with 65536 inputs
  encodes without an error, and its encoding decodes to a request with no input.
\<close>

theorem request_count_wraps:
  assumes "length (iq_inputs r) = 65536"
  shows "request_decode (request_encode r) = Inr (r\<lparr>iq_inputs := []\<rparr>)"
proof -
  have "(of_nat (length (iq_inputs r)) :: u16) = 0" unfolding assms by simp
  then have "request_encode r = request_encode (r\<lparr>iq_inputs := []\<rparr>) @ concat (map tensor_encode (iq_inputs r))"
    by (simp add: request_encode_def)
  then show ?thesis by (intro request_decode_encode) (simp_all add: request_wf_def)
qed

definition sample_request :: "tensor_data list \<Rightarrow> inf_request" where
  "sample_request inputs = \<lparr>iq_request_type = RunInference, iq_request_id = 7, iq_model_id = 1, iq_inputs = inputs,
     iq_timeout_ms = 100\<rparr>"

theorem request_count_wraps_witness:
  "request_decode (request_encode (sample_request (replicate 65536 \<lparr>td_name = [0x78], td_data_type = Int8, td_shape = [1], td_data = [5]\<rparr>))) =
     Inr (sample_request [])"
  using request_count_wraps [of "sample_request (replicate 65536 \<lparr>td_name = [0x78], td_data_type = Int8, td_shape = [1], td_data = [5]\<rparr>)"]
  by (simp add: sample_request_def)

section \<open>Inbound requests at the gate\<close>

text \<open>
  C10. No inbound inference request satisfies the gate. Its label has low integrity and the kernel
  side demands medium, so the verdict always names a missing capability or an integrity violation:
  the request is denied when type 3 (or, for an unregistered type, the network boundary) enforces
  and is otherwise let through as a violation, and the invariants of its message type are never
  evaluated: the state of the invariant checker does not change.
\<close>

theorem inbound_inference_never_allowed:
  assumes "check_inbound_inference r tid g cap_reg types now = Some (v, g')"
  shows "(\<exists>l reason. (l, reason) \<in> {(1, MissingCapability), (3, IntegrityViolation)} \<and>
      v = (if (case mr_lookup types 3 of Some mt \<Rightarrow> mt_mode mt | None \<Rightarrow> boundary_mode g Network) = Enforcing
           then Denied l reason else PermissivePass l reason)) \<and>
    sg_invariant_checker g' = sg_invariant_checker g"
proof -
  let ?x = "inbound_crossing r tid now" and ?g = "g\<lparr>sg_total_checks := sg_total_checks g + 1\<rparr>"
  have ty: "inbound_type_id (iq_request_type r) = Some 3" by (cases "iq_request_type r") simp_all
  have mode: "effective_mode ?g ?x types = (case mr_lookup types 3 of Some mt \<Rightarrow> mt_mode mt | None \<Rightarrow> boundary_mode g Network)"
    by (simp add: effective_mode_def inbound_crossing_def ty boundary_mode_def Let_def split: option.splits)
  have low: "\<not> Medium \<le> Low" "\<not> Public > Restricted"
    by (simp_all add: less_eq_integrity_level_def less_classification_level_def word_le_nat_alt)
  obtain l reason where m: "(l, reason) \<in> {(1, MissingCapability), (3, IntegrityViolation)}"
    "make_verdict ?g ?x l reason types = Some (v, g')"
    using assms low
    by (auto simp: check_inbound_inference_def gate_check_def Let_def inbound_crossing_def may_flow_to_def split: sum.splits)
  from make_verdict_mode [OF m(2)] have "v = verdict_for (Some (l, reason)) (effective_mode ?g ?x types)" .
  moreover have "sg_invariant_checker g' = sg_invariant_checker g"
    using m(2) by (auto simp: make_verdict_def emit_audit_def Let_def split: enforcement_mode.splits Option.bind_splits)
  ultimately show ?thesis using m(1) mode by (auto simp: verdict_for_def)
qed

theorem inbound_inference_never_allowed_witness:
  "\<exists>g v g'. gate_new Enforcing = Some g \<and>
     check_inbound_inference (sample_request []) 9 g ex_registry registry_new 20 = Some (v, g') \<and> \<not> verdict_is_allowed v"
proof -
  from gate_inv_new [of Enforcing registry_new] obtain g where
    g: "gate_new Enforcing = Some g" "gate_inv registry_new [] g" "boundary_mode g Network = Enforcing" by blast
  from gate_check_spec [OF g(2) registry_inv_new, of "inbound_crossing (sample_request []) 9 20" ex_registry] obtain v g' where
    r: "check_inbound_inference (sample_request []) 9 g ex_registry registry_new 20 = Some (v, g')"
    by (auto simp: check_inbound_inference_def)
  have "mr_lookup registry_new 3 = None" by (simp add: mr_lookup_def registry_new_def)
  with inbound_inference_never_allowed [OF r] g(3) have "\<not> verdict_is_allowed v" by auto
  then show ?thesis using g(1) r by blast
qed

end
