(* ===== verification/Shm_Ring.thy ===== *)
theory Shm_Ring
  imports Key_Expr Bytes
begin

text \<open>
  The shared memory ring (\<open>ipc/src/shm.rs\<close>): one producer and one consumer exchange messages through
  sixty-four slots without a lock. The operations are modelled twice: as the functions of the
  source, and as the steps a producer and a consumer take when they interleave, one step per
  access to shared memory (an atomic load or store, or an access to a slot). The head and the tail
  are 64-bit words that wrap; the theorems hold for any number of messages.
\<close>

section \<open>The ring\<close>

definition RING_BUFFER_CAPACITY :: nat where
  "RING_BUFFER_CAPACITY = 64"

definition MAX_MSG_SIZE :: nat where
  "MAX_MSG_SIZE = 4096"

definition INDEX_MASK :: u64 where
  "INDEX_MASK = 63"

record ring_slot =
  rs_data :: "u8 list"
  rs_len :: nat

record shm_ring =
  shm_slots :: "ring_slot list"
  shm_head :: u64
  shm_tail :: u64

definition slot_default :: ring_slot where
  "slot_default = \<lparr>rs_data = replicate MAX_MSG_SIZE 0, rs_len = 0\<rparr>"

definition shm_new :: shm_ring where
  "shm_new = \<lparr>shm_slots = replicate RING_BUFFER_CAPACITY slot_default, shm_head = 0, shm_tail = 0\<rparr>"

text \<open>The slot of a position, and the message written to or read from a slot.\<close>

definition slot_index :: "u64 \<Rightarrow> nat" where
  "slot_index p = unat (p AND INDEX_MASK)"

definition slot_write :: "ring_slot \<Rightarrow> u8 list \<Rightarrow> ring_slot" where
  "slot_write s data = s\<lparr>rs_data := data @ drop (length data) (rs_data s), rs_len := length data\<rparr>"

definition slot_read :: "ring_slot \<Rightarrow> u8 list" where
  "slot_read s = take (rs_len s) (rs_data s)"

definition shm_push :: "shm_ring \<Rightarrow> u8 list \<Rightarrow> (ipc_error, shm_ring) result" where
  "shm_push r data =
     (if length data > MAX_MSG_SIZE then Inl MessageTooLarge
      else let head = shm_head r; tail = shm_tail r in
        if unat (head - tail) \<ge> RING_BUFFER_CAPACITY then Inl BufferFull
        else let i = slot_index head in
          Inr (r\<lparr>shm_slots := (shm_slots r)[i := slot_write (shm_slots r ! i) data], shm_head := head + 1\<rparr>))"

text \<open>The buffer after a \<open>pop\<close> and the number of bytes are the result.\<close>

definition shm_pop :: "shm_ring \<Rightarrow> u8 list \<Rightarrow> (ipc_error, nat \<times> u8 list \<times> shm_ring) result" where
  "shm_pop r buf =
     (let tail = shm_tail r; head = shm_head r in
      if tail = head then Inl NotFound
      else let s = shm_slots r ! slot_index tail; msg_len = rs_len s in
        if length buf < msg_len then Inl BufferTooSmall
        else Inr (msg_len, slot_read s @ drop msg_len buf, r\<lparr>shm_tail := tail + 1\<rparr>))"

definition shm_is_empty :: "shm_ring \<Rightarrow> bool" where
  "shm_is_empty r \<longleftrightarrow> shm_head r = shm_tail r"

definition shm_is_full :: "shm_ring \<Rightarrow> bool" where
  "shm_is_full r \<longleftrightarrow> unat (shm_head r - shm_tail r) \<ge> RING_BUFFER_CAPACITY"

definition shm_len :: "shm_ring \<Rightarrow> nat" where
  "shm_len r = unat (shm_head r - shm_tail r)"

section \<open>Interleaved execution\<close>

text \<open>
  Where the producer is in \<open>push\<close>: between calls, after the load of \<open>tail\<close> with the check passed,
  after the copy of the bytes, after the store of the length. The consumer is between calls,
  after the load of \<open>head\<close> with the ring not empty, and after the copy with the message in its buffer.
\<close>

datatype producer = PIdle | PWriteData "u8 list" | PWriteLen "u8 list" | PPublish "u8 list"
datatype consumer = CIdle | CRead nat | CRelease "u8 list"

record system =
  sys_ring :: shm_ring
  sys_prod :: producer
  sys_cons :: consumer
  sys_sent :: "u8 list list"
  sys_got :: "u8 list list"

definition upd_slot :: "shm_ring \<Rightarrow> nat \<Rightarrow> (ring_slot \<Rightarrow> ring_slot) \<Rightarrow> shm_ring" where
  "upd_slot r i f = r\<lparr>shm_slots := (shm_slots r)[i := f (shm_slots r ! i)]\<rparr>"

definition sys_new :: system where
  "sys_new = \<lparr>sys_ring = shm_new, sys_prod = PIdle, sys_cons = CIdle, sys_sent = [], sys_got = []\<rparr>"

text \<open>The calls that return an error change nothing; they are steps of the idle state to itself.\<close>

inductive shm_step :: "system \<Rightarrow> system \<Rightarrow> bool" where
  p_begin: "sys_prod s = PIdle \<Longrightarrow> length data \<le> MAX_MSG_SIZE \<Longrightarrow>
     unat (shm_head (sys_ring s) - shm_tail (sys_ring s)) < RING_BUFFER_CAPACITY \<Longrightarrow>
     shm_step s (s\<lparr>sys_prod := PWriteData data\<rparr>)"
| p_data: "sys_prod s = PWriteData data \<Longrightarrow>
     shm_step s (s\<lparr>sys_prod := PWriteLen data, sys_ring := upd_slot (sys_ring s) (slot_index (shm_head (sys_ring s)))
       (\<lambda>sl. sl\<lparr>rs_data := data @ drop (length data) (rs_data sl)\<rparr>)\<rparr>)"
| p_len: "sys_prod s = PWriteLen data \<Longrightarrow>
     shm_step s (s\<lparr>sys_prod := PPublish data, sys_ring := upd_slot (sys_ring s) (slot_index (shm_head (sys_ring s)))
       (\<lambda>sl. sl\<lparr>rs_len := length data\<rparr>)\<rparr>)"
| p_publish: "sys_prod s = PPublish data \<Longrightarrow>
     shm_step s (s\<lparr>sys_prod := PIdle, sys_ring := sys_ring s\<lparr>shm_head := shm_head (sys_ring s) + 1\<rparr>,
       sys_sent := sys_sent s @ [data]\<rparr>)"
| c_begin: "sys_cons s = CIdle \<Longrightarrow> shm_tail (sys_ring s) \<noteq> shm_head (sys_ring s) \<Longrightarrow>
     shm_step s (s\<lparr>sys_cons := CRead space\<rparr>)"
| c_small: "sys_cons s = CRead space \<Longrightarrow>
     space < rs_len (shm_slots (sys_ring s) ! slot_index (shm_tail (sys_ring s))) \<Longrightarrow>
     shm_step s (s\<lparr>sys_cons := CIdle\<rparr>)"
| c_copy: "sys_cons s = CRead space \<Longrightarrow>
     rs_len (shm_slots (sys_ring s) ! slot_index (shm_tail (sys_ring s))) \<le> space \<Longrightarrow>
     shm_step s (s\<lparr>sys_cons := CRelease (slot_read (shm_slots (sys_ring s) ! slot_index (shm_tail (sys_ring s))))\<rparr>)"
| c_release: "sys_cons s = CRelease msg \<Longrightarrow>
     shm_step s (s\<lparr>sys_cons := CIdle, sys_ring := sys_ring s\<lparr>shm_tail := shm_tail (sys_ring s) + 1\<rparr>,
       sys_got := sys_got s @ [msg]\<rparr>)"

text \<open>The slots that a step of the producer may write and a step of the consumer may read.\<close>

definition writing :: "system \<Rightarrow> nat option" where
  "writing s = (case sys_prod s of PIdle \<Rightarrow> None | _ \<Rightarrow> Some (slot_index (shm_head (sys_ring s))))"

definition reading :: "system \<Rightarrow> nat option" where
  "reading s = (case sys_cons s of CIdle \<Rightarrow> None | _ \<Rightarrow> Some (slot_index (shm_tail (sys_ring s))))"

section \<open>Counters that wrap\<close>

lemma slot_index_of_nat: "slot_index (of_nat n) = n mod 64"
proof -
  have "slot_index (of_nat n) = unat (take_bit 6 (of_nat n :: u64))"
    by (simp add: slot_index_def INDEX_MASK_def take_bit_eq_mask mask_eq_exp_minus_1)
  also have "\<dots> = n mod 2 ^ 64 mod 2 ^ 6" by (simp add: unsigned_take_bit_eq take_bit_eq_mod [of _ "_ :: nat"] unat_of_nat)
  also have "\<dots> = n mod 64" by (simp add: mod_mod_cancel)
  finally show ?thesis .
qed

lemma wrapping_distance:
  assumes "m \<le> n" "n - m < 2 ^ 64"
  shows "unat (of_nat n - of_nat m :: u64) = n - m"
proof -
  have "of_nat n - of_nat m = (of_nat (n - m) :: u64)" using assms(1) by simp
  then show ?thesis using assms(2) by (simp only: unat_of_nat take_bit_eq_mod) simp
qed

lemma of_nat_eq_near:
  assumes "m \<le> n" "n - m < 2 ^ 64"
  shows "of_nat m = (of_nat n :: u64) \<longleftrightarrow> m = n"
  using wrapping_distance [OF assms] assms(1) by auto

lemma near_slots_differ: "k < n \<Longrightarrow> n - k < 64 \<Longrightarrow> n mod 64 \<noteq> k mod (64 :: nat)"
proof
  assume a: "k < n" "n - k < 64" "n mod 64 = k mod 64"
  then have "64 dvd n - k" using mod_eq_dvd_iff_nat [of k n 64] by simp
  with a show False using nat_dvd_not_less [of "n - k" 64] by simp
qed

section \<open>The invariant of every interleaving\<close>

definition held :: "u8 list list \<Rightarrow> nat \<Rightarrow> ring_slot list \<Rightarrow> bool" where
  "held sent m slots \<longleftrightarrow> (\<forall>k. m \<le> k \<longrightarrow> k < length sent \<longrightarrow> slot_read (slots ! (k mod 64)) = sent ! k)"

fun prod_ok :: "nat \<Rightarrow> ring_slot \<Rightarrow> producer \<Rightarrow> bool" where
  "prod_ok pending cell PIdle \<longleftrightarrow> True"
| "prod_ok pending cell (PWriteData data) \<longleftrightarrow> pending < 64 \<and> length data \<le> MAX_MSG_SIZE"
| "prod_ok pending cell (PWriteLen data) \<longleftrightarrow> pending < 64 \<and> length data \<le> MAX_MSG_SIZE \<and>
     take (length data) (rs_data cell) = data"
| "prod_ok pending cell (PPublish data) \<longleftrightarrow> pending < 64 \<and> length data \<le> MAX_MSG_SIZE \<and> slot_read cell = data"

fun cons_ok :: "u8 list list \<Rightarrow> nat \<Rightarrow> consumer \<Rightarrow> bool" where
  "cons_ok sent m CIdle \<longleftrightarrow> True"
| "cons_ok sent m (CRead space) \<longleftrightarrow> m < length sent"
| "cons_ok sent m (CRelease msg) \<longleftrightarrow> m < length sent \<and> msg = sent ! m"

lemma cons_ok_publish: "cons_ok sent m c \<Longrightarrow> cons_ok (sent @ [data]) m c"
  by (cases c) (auto simp: nth_append)

lemma prod_ok_release: "prod_ok (Suc k) cell p \<Longrightarrow> prod_ok k cell p"
  by (cases p) auto

definition shm_inv :: "system \<Rightarrow> bool" where
  [inv_defs]: "shm_inv s \<longleftrightarrow>
     (let r = sys_ring s; n = length (sys_sent s); m = length (sys_got s); cell = shm_slots r ! (n mod 64) in
       length (shm_slots r) = 64 \<and> (\<forall>sl \<in> set (shm_slots r). length (rs_data sl) = MAX_MSG_SIZE \<and> rs_len sl \<le> MAX_MSG_SIZE) \<and>
       shm_head r = of_nat n \<and> shm_tail r = of_nat m \<and> m \<le> n \<and> n - m \<le> 64 \<and>
       sys_got s = take m (sys_sent s) \<and> held (sys_sent s) m (shm_slots r) \<and>
       (\<forall>msg \<in> set (sys_sent s). length msg \<le> MAX_MSG_SIZE) \<and>
       prod_ok (n - m) cell (sys_prod s) \<and> cons_ok (sys_sent s) m (sys_cons s))"

lemma shm_inv_new: "shm_inv sys_new"
  by (simp add: shm_inv_def sys_new_def shm_new_def RING_BUFFER_CAPACITY_def slot_default_def MAX_MSG_SIZE_def held_def)

lemma held_upd:
  assumes "held sent m slots" "length sent - m < 64" "m \<le> length sent"
  shows "held sent m (slots[length sent mod 64 := v])"
  unfolding held_def
proof (intro allI impI)
  fix k assume k: "m \<le> k" "k < length sent"
  then have "length sent mod 64 \<noteq> k mod 64" using near_slots_differ assms(2) by simp
  then show "slot_read (slots[length sent mod 64 := v] ! (k mod 64)) = sent ! k"
    using assms(1) k by (simp add: held_def)
qed

lemma held_publish:
  assumes "held sent m slots" "slot_read (slots ! (length sent mod 64)) = data"
  shows "held (sent @ [data]) m slots"
  using assms by (auto simp: held_def nth_append less_Suc_eq)

lemma shm_step_inv:
  assumes "shm_step s s'" "shm_inv s"
  shows "shm_inv s'"
  using assms
proof (induction rule: shm_step.induct)
  case (p_begin s data)
  then show ?case
    using wrapping_distance [of "length (sys_got s)" "length (sys_sent s)"]
    by (auto simp: shm_inv_def Let_def RING_BUFFER_CAPACITY_def)
next
  case (p_data s data)
  let ?r = "sys_ring s" and ?n = "length (sys_sent s)"
  let ?cell = "shm_slots ?r ! (?n mod 64)"
  let ?v = "?cell\<lparr>rs_data := data @ drop (length data) (rs_data ?cell)\<rparr>"
  have i: "length (shm_slots ?r) = 64" "slot_index (shm_head ?r) = ?n mod 64" "?n mod 64 < length (shm_slots ?r)"
    using p_data.prems by (auto simp: shm_inv_def Let_def slot_index_of_nat)
  have "length (rs_data ?cell) = MAX_MSG_SIZE" "rs_len ?cell \<le> MAX_MSG_SIZE"
    using p_data.prems i(1,3) by (auto simp: shm_inv_def Let_def)
  then have d: "length (rs_data ?v) = MAX_MSG_SIZE" "rs_len ?v \<le> MAX_MSG_SIZE"
    using p_data by (simp_all add: shm_inv_def Let_def)
  have "held (sys_sent s) (length (sys_got s)) ((shm_slots ?r)[?n mod 64 := ?v])"
    using p_data by (intro held_upd) (auto simp: shm_inv_def Let_def)
  then show ?case using p_data i d
    by (auto simp: shm_inv_def Let_def upd_slot_def dest!: set_update_subset_insert [THEN subsetD])
next
  case (p_len s data)
  let ?r = "sys_ring s" and ?n = "length (sys_sent s)"
  let ?cell = "shm_slots ?r ! (?n mod 64)"
  let ?v = "?cell\<lparr>rs_len := length data\<rparr>"
  have i: "length (shm_slots ?r) = 64" "slot_index (shm_head ?r) = ?n mod 64" "?n mod 64 < length (shm_slots ?r)"
    using p_len.prems by (auto simp: shm_inv_def Let_def slot_index_of_nat)
  have d: "length (rs_data ?v) = MAX_MSG_SIZE" "rs_len ?v \<le> MAX_MSG_SIZE"
    using p_len i(1,3) by (auto simp: shm_inv_def Let_def)
  have "held (sys_sent s) (length (sys_got s)) ((shm_slots ?r)[?n mod 64 := ?v])"
    using p_len by (intro held_upd) (auto simp: shm_inv_def Let_def)
  then show ?case using p_len i d
    by (auto simp: shm_inv_def Let_def upd_slot_def slot_read_def dest!: set_update_subset_insert [THEN subsetD])
next
  case (p_publish s data)
  then have "held (sys_sent s @ [data]) (length (sys_got s)) (shm_slots (sys_ring s))"
    by (intro held_publish) (auto simp: shm_inv_def Let_def)
  then show ?case using p_publish
    by (auto simp: shm_inv_def Let_def intro: cons_ok_publish)
next
  case (c_begin s space)
  then show ?case
    using of_nat_eq_near [of "length (sys_got s)" "length (sys_sent s)"]
    by (auto simp: shm_inv_def Let_def)
next
  case (c_small s space)
  then show ?case by (simp add: shm_inv_def Let_def)
next
  case (c_copy s space)
  then show ?case by (auto simp: shm_inv_def Let_def slot_index_of_nat held_def)
next
  case (c_release s msg)
  let ?n = "length (sys_sent s)" and ?m = "length (sys_got s)"
  have lt: "?m < ?n" "msg = sys_sent s ! ?m" using c_release by (auto simp: shm_inv_def Let_def)
  then have "?n - ?m = Suc (?n - Suc ?m)" by simp
  then have "prod_ok (?n - Suc ?m) (shm_slots (sys_ring s) ! (?n mod 64)) (sys_prod s)"
    using c_release.prems prod_ok_release by (auto simp: shm_inv_def Let_def)
  moreover have "sys_got s @ [msg] = take (Suc ?m) (sys_sent s)"
    using c_release.prems lt by (auto simp: shm_inv_def Let_def take_Suc_conv_app_nth)
  ultimately show ?case using c_release.prems lt by (auto simp: shm_inv_def Let_def held_def)
qed

inductive_cases shm_stepE: "shm_step s s'"

definition shm_reachable :: "system \<Rightarrow> bool" where
  "shm_reachable s \<longleftrightarrow> shm_step\<^sup>*\<^sup>* sys_new s"

lemma reachable_inv: "shm_reachable s \<Longrightarrow> shm_inv s"
  unfolding shm_reachable_def
  by (induction rule: rtranclp_induct) (simp_all add: shm_inv_new shm_step_inv)

section \<open>The calls are sequences of steps\<close>

lemma push_is_steps:
  assumes "sys_prod s = PIdle" "shm_push (sys_ring s) data = Inr r'"
  shows "shm_step\<^sup>*\<^sup>* s (s\<lparr>sys_ring := r', sys_sent := sys_sent s @ [data]\<rparr>)"
proof -
  let ?i = "slot_index (shm_head (sys_ring s))"
  let ?s1 = "s\<lparr>sys_prod := PWriteData data\<rparr>"
  let ?s2 = "?s1\<lparr>sys_prod := PWriteLen data, sys_ring := upd_slot (sys_ring ?s1) ?i
    (\<lambda>sl. sl\<lparr>rs_data := data @ drop (length data) (rs_data sl)\<rparr>)\<rparr>"
  let ?s3 = "?s2\<lparr>sys_prod := PPublish data, sys_ring := upd_slot (sys_ring ?s2) ?i (\<lambda>sl. sl\<lparr>rs_len := length data\<rparr>)\<rparr>"
  let ?s4 = "?s3\<lparr>sys_prod := PIdle, sys_ring := sys_ring ?s3\<lparr>shm_head := shm_head (sys_ring ?s3) + 1\<rparr>,
    sys_sent := sys_sent ?s3 @ [data]\<rparr>"
  have ok: "length data \<le> MAX_MSG_SIZE" "unat (shm_head (sys_ring s) - shm_tail (sys_ring s)) < RING_BUFFER_CAPACITY"
    and r': "r' = (sys_ring s)\<lparr>shm_slots := (shm_slots (sys_ring s))[?i := slot_write (shm_slots (sys_ring s) ! ?i) data],
      shm_head := shm_head (sys_ring s) + 1\<rparr>"
    using assms(2) by (auto simp: shm_push_def Let_def split: if_splits)
  have "shm_step s ?s1" using p_begin [OF assms(1) ok] .
  moreover have "shm_step ?s1 ?s2" using p_data [of ?s1 data] by simp
  moreover have "shm_step ?s2 ?s3" using p_len [of ?s2 data] by (simp add: upd_slot_def)
  moreover have "shm_step ?s3 ?s4" using p_publish [of ?s3 data] by simp
  ultimately have "shm_step\<^sup>*\<^sup>* s ?s4" by (meson converse_rtranclp_into_rtranclp rtranclp.rtrancl_refl)
  moreover have "?s4 = s\<lparr>sys_ring := r', sys_sent := sys_sent s @ [data]\<rparr>"
    using assms(1) by (cases s; cases "?i < length (shm_slots (sys_ring s))")
      (simp_all add: upd_slot_def slot_write_def r' list_update_beyond)
  ultimately show ?thesis by simp
qed

lemma pop_is_steps:
  assumes "sys_cons s = CIdle" "shm_pop (sys_ring s) buf = Inr (n, out, r')"
  shows "\<exists>msg. n = rs_len (shm_slots (sys_ring s) ! slot_index (shm_tail (sys_ring s))) \<and>
    msg = slot_read (shm_slots (sys_ring s) ! slot_index (shm_tail (sys_ring s))) \<and> out = msg @ drop n buf \<and>
    shm_step\<^sup>*\<^sup>* s (s\<lparr>sys_ring := r', sys_got := sys_got s @ [msg]\<rparr>)"
proof -
  let ?sl = "shm_slots (sys_ring s) ! slot_index (shm_tail (sys_ring s))"
  let ?s1 = "s\<lparr>sys_cons := CRead (length buf)\<rparr>"
  let ?s2 = "?s1\<lparr>sys_cons := CRelease (slot_read ?sl)\<rparr>"
  let ?s3 = "?s2\<lparr>sys_cons := CIdle, sys_ring := sys_ring ?s2\<lparr>shm_tail := shm_tail (sys_ring ?s2) + 1\<rparr>,
    sys_got := sys_got ?s2 @ [slot_read ?sl]\<rparr>"
  have ok: "shm_tail (sys_ring s) \<noteq> shm_head (sys_ring s)" "rs_len ?sl \<le> length buf" "n = rs_len ?sl"
    "out = slot_read ?sl @ drop n buf" "r' = (sys_ring s)\<lparr>shm_tail := shm_tail (sys_ring s) + 1\<rparr>"
    using assms(2) by (auto simp: shm_pop_def Let_def split: if_splits)
  have "shm_step s ?s1" using c_begin [OF assms(1) ok(1)] .
  moreover have "shm_step ?s1 ?s2" using c_copy [of ?s1 "length buf"] ok(2) by simp
  moreover have "shm_step ?s2 ?s3" using c_release [of ?s2] by simp
  ultimately have "shm_step\<^sup>*\<^sup>* s ?s3" by (meson converse_rtranclp_into_rtranclp rtranclp.rtrancl_refl)
  moreover have "?s3 = s\<lparr>sys_ring := r', sys_got := sys_got s @ [slot_read ?sl]\<rparr>" using assms(1) ok(5) by (cases s) simp
  ultimately show ?thesis using ok(3,4) by simp
qed

lemma push_new: "shm_push shm_new [7] = Inr (shm_new\<lparr>shm_slots := (shm_slots shm_new)[0 := slot_write slot_default [7]], shm_head := 1\<rparr>)"
  by (simp add: shm_push_def shm_new_def Let_def MAX_MSG_SIZE_def RING_BUFFER_CAPACITY_def slot_index_def)

definition sample_system :: system where
  "sample_system = sys_new\<lparr>sys_ring := shm_new\<lparr>shm_slots := (shm_slots shm_new)[0 := slot_write slot_default [7]], shm_head := 1\<rparr>,
     sys_sent := [[7]]\<rparr>"

lemma sample_system_reachable: "shm_reachable sample_system"
  using push_is_steps [of sys_new "[7]"] push_new
  by (simp add: shm_reachable_def sample_system_def sys_new_def)

section \<open>What the ring guarantees\<close>

text \<open>
  C9. Lock-free exchange is safe under every interleaving. However the accesses of one producer and
  one consumer to shared memory interleave, and also after the 64-bit positions have wrapped, the
  messages received are a prefix of the messages sent, in order and unaltered, at most 64 are in
  flight, and the producer never works on the slot that the consumer is reading.
\<close>

theorem shm_interleavings_safe:
  assumes "shm_reachable s"
  shows "sys_got s = take (length (sys_got s)) (sys_sent s) \<and>
    length (sys_sent s) \<le> length (sys_got s) + RING_BUFFER_CAPACITY \<and>
    (writing s = None \<or> writing s \<noteq> reading s)"
proof -
  note inv = reachable_inv [OF assms]
  have "writing s \<noteq> reading s" if "writing s \<noteq> None"
  proof (cases "sys_cons s")
    case CIdle
    then show ?thesis using that by (simp add: reading_def)
  next
    case c: (CRead space)
    have "length (sys_sent s) mod 64 \<noteq> length (sys_got s) mod 64"
      using inv that c by (intro near_slots_differ; cases "sys_prod s") (auto simp: shm_inv_def Let_def writing_def)
    then show ?thesis using inv that c
      by (cases "sys_prod s") (auto simp: writing_def reading_def shm_inv_def Let_def slot_index_of_nat)
  next
    case c: (CRelease msg)
    have "length (sys_sent s) mod 64 \<noteq> length (sys_got s) mod 64"
      using inv that c by (intro near_slots_differ; cases "sys_prod s") (auto simp: shm_inv_def Let_def writing_def)
    then show ?thesis using inv that c
      by (cases "sys_prod s") (auto simp: writing_def reading_def shm_inv_def Let_def slot_index_of_nat)
  qed
  then show ?thesis using inv by (auto simp: shm_inv_def Let_def RING_BUFFER_CAPACITY_def)
qed

theorem shm_interleavings_safe_witness: "sys_got sample_system = take 0 [[7]] \<and> writing sample_system = None"
  using shm_interleavings_safe [OF sample_system_reachable] by (simp add: sample_system_def sys_new_def writing_def)

text \<open>
  Every call does what the queue of messages in flight says. Between calls of a reachable system,
  \<open>push\<close> refuses messages above 4096 bytes and a queue of 64, and otherwise appends; \<open>pop\<close> reports an
  empty queue or a buffer that is too small, leaving the message in place, and otherwise copies the
  oldest message to the front of the buffer and removes it; \<open>len\<close> is the length of the queue. The
  system with the ring a call returns is reachable by the steps of that call.
\<close>

theorem shm_calls_exact:
  assumes "shm_reachable s" "sys_prod s = PIdle" "sys_cons s = CIdle"
  defines "q \<equiv> drop (length (sys_got s)) (sys_sent s)"
  shows "shm_len (sys_ring s) = length q \<and> (shm_is_empty (sys_ring s) \<longleftrightarrow> q = []) \<and> (shm_is_full (sys_ring s) \<longleftrightarrow> length q = 64) \<and>
    (case shm_push (sys_ring s) data of
       Inl e \<Rightarrow> e = (if length data > 4096 then MessageTooLarge else BufferFull) \<and> (length data > 4096 \<or> length q = 64)
     | Inr r' \<Rightarrow> length data \<le> 4096 \<and> length q < 64 \<and>
         shm_reachable (s\<lparr>sys_ring := r', sys_sent := sys_sent s @ [data]\<rparr>)) \<and>
    (case shm_pop (sys_ring s) buf of
       Inl e \<Rightarrow> e = (if q = [] then NotFound else BufferTooSmall) \<and> (q = [] \<or> length buf < length (hd q))
     | Inr (n, out, r') \<Rightarrow> q \<noteq> [] \<and> n = length (hd q) \<and> n \<le> length buf \<and> out = hd q @ drop n buf \<and>
         shm_reachable (s\<lparr>sys_ring := r', sys_got := sys_got s @ [hd q]\<rparr>))"
proof -
  let ?r = "sys_ring s" and ?n = "length (sys_sent s)" and ?m = "length (sys_got s)"
  note inv = reachable_inv [OF assms(1)]
  have b: "?m \<le> ?n" "?n - ?m \<le> 64" "shm_head ?r = of_nat ?n" "shm_tail ?r = of_nat ?m"
    "held (sys_sent s) ?m (shm_slots ?r)" using inv by (auto simp: shm_inv_def Let_def)
  have len: "unat (shm_head ?r - shm_tail ?r) = length q"
    unfolding b(3,4) using b(1,2) by (subst wrapping_distance) (auto simp: q_def)
  have emp: "shm_tail ?r = shm_head ?r \<longleftrightarrow> q = []"
    unfolding b(3,4) using b(1,2) by (subst of_nat_eq_near) (auto simp: q_def)
  have le: "length q \<le> 64" using b by (simp add: q_def)
  let ?sl = "shm_slots ?r ! slot_index (shm_tail ?r)"
  have "slot_index (shm_tail ?r) < length (shm_slots ?r)" using inv by (simp add: shm_inv_def Let_def slot_index_of_nat)
  then have slot: "length (rs_data ?sl) = MAX_MSG_SIZE" "rs_len ?sl \<le> MAX_MSG_SIZE"
    using inv by (auto simp: shm_inv_def Let_def)
  have front: "slot_read ?sl = hd q" "rs_len ?sl = length (hd q)" if "q \<noteq> []"
  proof -
    have m: "?m < ?n" using that by (simp add: q_def)
    then show rd: "slot_read ?sl = hd q" using b(4,5) by (simp add: held_def q_def hd_drop_conv_nth slot_index_of_nat)
    show "rs_len ?sl = length (hd q)" using slot unfolding rd [symmetric] slot_read_def by simp
  qed
  have push: "case shm_push ?r data of
       Inl e \<Rightarrow> e = (if length data > 4096 then MessageTooLarge else BufferFull) \<and> (length data > 4096 \<or> length q = 64)
     | Inr r' \<Rightarrow> length data \<le> 4096 \<and> length q < 64 \<and>
         shm_reachable (s\<lparr>sys_ring := r', sys_sent := sys_sent s @ [data]\<rparr>)"
  proof (cases "shm_push ?r data")
    case (Inl e)
    then show ?thesis using len le by (auto simp: shm_push_def Let_def MAX_MSG_SIZE_def RING_BUFFER_CAPACITY_def split: if_splits)
  next
    case (Inr r')
    have "shm_reachable (s\<lparr>sys_ring := r', sys_sent := sys_sent s @ [data]\<rparr>)"
      using assms(1) push_is_steps [OF assms(2) Inr] unfolding shm_reachable_def by simp
    then show ?thesis using Inr len by (auto simp: shm_push_def Let_def MAX_MSG_SIZE_def RING_BUFFER_CAPACITY_def split: if_splits)
  qed
  have "case shm_pop ?r buf of
       Inl e \<Rightarrow> e = (if q = [] then NotFound else BufferTooSmall) \<and> (q = [] \<or> length buf < length (hd q))
     | Inr (n, out, r') \<Rightarrow> q \<noteq> [] \<and> n = length (hd q) \<and> n \<le> length buf \<and> out = hd q @ drop n buf \<and>
         shm_reachable (s\<lparr>sys_ring := r', sys_got := sys_got s @ [hd q]\<rparr>)"
  proof (cases "shm_pop ?r buf")
    case (Inl e)
    then show ?thesis using emp front by (auto simp: shm_pop_def Let_def split: if_splits)
  next
    case (Inr x)
    obtain n out r' where x: "x = (n, out, r')" by (cases x) auto
    have ne: "q \<noteq> []" using Inr emp by (auto simp: shm_pop_def Let_def split: if_splits)
    from pop_is_steps [OF assms(3) Inr [unfolded x]] have
      "n = length (hd q)" "out = hd q @ drop n buf" "shm_step\<^sup>*\<^sup>* s (s\<lparr>sys_ring := r', sys_got := sys_got s @ [hd q]\<rparr>)"
      using front [OF ne] by auto
    moreover have "n \<le> length buf" using Inr x by (auto simp: shm_pop_def Let_def split: if_splits)
    ultimately show ?thesis using Inr x ne assms(1) unfolding shm_reachable_def by simp
  qed
  then show ?thesis using push len emp le
    by (auto simp: shm_len_def shm_is_empty_def shm_is_full_def RING_BUFFER_CAPACITY_def eq_commute [of "shm_head ?r"])
qed

theorem shm_calls_exact_witness:
  "shm_len (sys_ring sample_system) = 1 \<and> shm_pop (sys_ring sample_system) [] = Inl BufferTooSmall"
proof -
  have s: "sys_prod sample_system = PIdle" "sys_cons sample_system = CIdle" "drop (length (sys_got sample_system)) (sys_sent sample_system) = [[7]]"
    by (simp_all add: sample_system_def sys_new_def)
  from shm_calls_exact [OF sample_system_reachable s(1,2), of "[]" "[]"] show ?thesis
    unfolding s(3) by (auto split: sum.splits prod.splits)
qed

end
