(* ===== verification/Spec2Isabelle.thy ===== *)
theory Spec2Isabelle
  imports Phys_Map Syscalls Messaging Audit_Export Policy Inference Shm_Ring
begin

text \<open>
  A verification development for SmallAIOS, a kernel and service stack in Rust for running models
  on embedded machines. It models the parts on which isolation and accountability rest and
  proves that they do what they promise; where they do not, it proves what they do instead.

  \<^bold>\<open>The parts and their theories.\<close>

  \<^item> \<open>Prelude\<close>, \<open>Bytes\<close>: results, panics, indexing, loops that may panic, slices, integers as bytes,
    UTF-8 validity. Everything else builds on them.
  \<^item> \<open>Mem_Types\<close>, \<open>Buddy_Bitmap\<close>, \<open>Buddy\<close> (\<open>kernel/src/mem\<close>): the page allocator, with its per-order
    bitmaps, splitting, merging and the allocation map. The lemmas relate the bitmaps to sets of
    blocks and show that live blocks never overlap and no page is lost.
  \<^item> \<open>Ring\<close>, \<open>Run_Queue\<close>, \<open>Scheduler\<close> (\<open>kernel/src/sched\<close>, \<open>sched-types\<close>, \<open>kernel/src/safety\<close>): the ring
    buffers of the three classes, priorities and stealing; task states, the watchdog, operator
    budgets and the timer's arithmetic.
  \<^item> \<open>Capability\<close> (\<open>security/src/capability.rs\<close>): the registry of capabilities with delegation,
    recursive revocation, quotas and the access check, over the registries the operations reach.
  \<^item> \<open>Key_Expr\<close>, \<open>Messaging\<close> (\<open>ipc/src\<close>): key expressions and the meaning of their patterns, the
    subscription router, subscriber queues and the query router.
  \<^item> \<open>Sha3\<close> (\<open>security/src/crypto/sha3.rs\<close>): the permutation, the buffered sponge, the hasher and the
    extendable output, against an unbuffered definition of the padded sponge.
  \<^item> \<open>Audit_Entry\<close>, \<open>Audit_Ring\<close>, \<open>Audit_Chain\<close>, \<open>Audit_Export\<close> (\<open>security/src/audit\<close>): the codec of
    entries, the ring they are written to, the accumulator and hash chain of sealed batches, the
    signing queue, the export header and retention.
  \<^item> \<open>Labels\<close>, \<open>Message_Types\<close>, \<open>Gate\<close>, \<open>Policy\<close> (\<open>security/src\<close>): labels and modes, the checker of message
    invariants with its slots, the type registry and the built-in catalogue, the gate that every
    boundary crossing passes, and the policy blobs that configure it.

  \<^bold>\<open>How they interact.\<close> A crossing is checked by the gate against the capability registry, the labels
  and the message types; the decision is counted and written to the gate's audit ring; the ring is
  drained into the accumulator, whose batches are hashed with SHA-3 into a chain. The theorem
  below goes through all of them.

  \<^bold>\<open>Conventions.\<close> A Rust \<open>Result\<close> is a sum with the error on the left. A panic (an index out of range, an
  overflow of size arithmetic that the build checks) is \<open>None\<close>, so a theorem with \<open>Some\<close> on its
  right-hand side includes the absence of panics. Machine integers are words that wrap where the
  code lets them wrap; sizes and indices are naturals with the bound written where it matters.
  Atomics are plain fields: each operation is one step. State is passed explicitly.

  \<^bold>\<open>Interfaces.\<close> What one component promises to another is a locale, interpreted on the model in the
  theory of the provider: the bitmap operations for the allocator, the bounded ring for the run
  queue and the message queues, the registry of keyed entries for the message types.

  \<^bold>\<open>Fuel and termination.\<close> Loops are structural recursion or have a termination proof by a measure.
  Only \<open>revoke\<close> takes fuel, because the calls it makes change the table it walks; one more than the
  number of capabilities always suffices, which is proved, and the fuel is computed from the
  registry by the definition itself.

  \<^bold>\<open>Not modelled.\<close> Drivers and the architecture ports, whose behaviour is that of devices; the
  tensor kernels of the ONNX runtime, whose rounding the source leaves to the hardware; lattice
  and elliptic-curve cryptography; transports and servers, which are input and output around the
  modelled core; display names and static tables. Signatures are values supplied by the caller.
\<close>

section \<open>From decisions to a verified log\<close>

text \<open>
  One round of a supervisor: the gate decides a list of crossings, its audit ring is drained into a
  buffer of 256 entries, and every drained entry is pushed to the batch accumulator.
\<close>

definition audit_round ::
  "cap_registry \<Rightarrow> message_type_registry \<Rightarrow> audit_entry list \<Rightarrow> boundary_crossing list \<times> u64 \<Rightarrow>
     security_gate \<times> (audit_batch list \<times> batch_accumulator) \<Rightarrow>
     (gate_verdict list \<times> security_gate \<times> (audit_batch list \<times> batch_accumulator)) option" where
  "audit_round cap_reg types buf rd st = do {
     (vs, g) \<leftarrow> gate_checks (fst st) (fst rd) cap_reg types;
     (case ring_drain (sg_audit_buffer g) buf (length buf) of (out, ring, n) \<Rightarrow> do {
        log \<leftarrow> mfold acc_exec (map (\<lambda>e. AccPush e (snd rd)) (take n out)) (snd st);
        Some (vs, g\<lparr>sg_audit_buffer := ring\<rparr>, log) }) }"

fun audit_rounds ::
  "cap_registry \<Rightarrow> message_type_registry \<Rightarrow> audit_entry list \<Rightarrow> (boundary_crossing list \<times> u64) list \<Rightarrow>
     security_gate \<times> (audit_batch list \<times> batch_accumulator) \<Rightarrow>
     (gate_verdict list \<times> security_gate \<times> (audit_batch list \<times> batch_accumulator)) option" where
  "audit_rounds cap_reg types buf [] st = Some ([], st)"
| "audit_rounds cap_reg types buf (rd # rds) st = do {
     (vs, st1) \<leftarrow> audit_round cap_reg types buf rd st;
     (vs', st2) \<leftarrow> audit_rounds cap_reg types buf rds st1;
     Some (vs @ vs', st2) }"

lemma all_pushed_pushes [simp]: "all_pushed (map (\<lambda>e. AccPush e now) es) = es"
  by (induction es) simp_all

lemma audit_round_spec:
  assumes g: "gate_inv types [] g" "registry_inv types" and rd: "length xs \<le> 256" and buf: "length buf = 256"
    and log: "acc_inv es 255 log"
  shows "\<exists>vs g' log'. audit_round cap_reg types buf (xs, now) (g, log) = Some (vs, g', log') \<and>
    length vs = length xs \<and> gate_inv types [] g' \<and> acc_inv (es @ map2 gate_entry xs vs) 255 log'"
proof -
  have "(256::nat) < 2 ^ 64" by simp
  then have "length ([] :: audit_entry list) + length xs < 2 ^ 64" using rd by (simp del: numeral_less_iff power_numeral)
  from gate_checks_spec [OF g this, of cap_reg] obtain vs g1 where
    g1: "gate_checks g xs cap_reg types = Some (vs, g1)" "gate_inv types (map2 gate_entry xs vs) g1" "length vs = length xs"
    by auto
  let ?h = "map2 gate_entry xs vs"
  have ring: "ring_rep (sg_audit_buffer g1) ?h" "length (ar_entries (sg_audit_buffer g1)) = 256"
    using g1(2) by (simp_all add: gate_inv_def GATE_AUDIT_CAPACITY_def)
  have live: "newest (length (ar_entries (sg_audit_buffer g1))) ?h = ?h"
    using rd g1(3) ring(2) by (simp add: newest_def)
  have c: "min (min (length ?h) (length buf)) (length buf) = length ?h" using rd buf g1(3) by simp
  from ring_rep_drain [OF ring(1), of buf "length buf", unfolded live c] obtain ring' where
    d: "ring_drain (sg_audit_buffer g1) buf (length buf) = (?h @ drop (length ?h) buf, ring', length ?h)"
      "length (ar_entries ring') = 256" "ring_rep ring' []"
    using ring(2) by auto
  have "\<forall>e \<in> set (all_pushed (map (\<lambda>e. AccPush e now) ?h)). entry_wf e"
    unfolding all_pushed_pushes using gate_entry_wf by auto
  from acc_run_inv [OF log this] obtain log' where
    "mfold acc_exec (map (\<lambda>e. AccPush e now) ?h) log = Some log'" "acc_inv (es @ ?h) 255 log'"
    unfolding all_pushed_pushes by blast
  moreover have "gate_inv types [] (g1\<lparr>sg_audit_buffer := ring'\<rparr>)"
    using g1(2) d(2,3) by (simp add: gate_inv_def GATE_AUDIT_CAPACITY_def)
  ultimately show ?thesis using g1(1,3) d(1) by (simp add: audit_round_def)
qed

lemma audit_rounds_spec:
  assumes "gate_inv types [] g" "registry_inv types" "\<forall>rd \<in> set rds. length (fst rd) \<le> 256" "length buf = 256" "acc_inv es 255 log"
  shows "\<exists>vs g' log'. audit_rounds cap_reg types buf rds (g, log) = Some (vs, g', log') \<and>
    length vs = length (concat (map fst rds)) \<and>
    acc_inv (es @ map2 gate_entry (concat (map fst rds)) vs) 255 log'"
  using assms(1,3,5)
proof (induction rds arbitrary: g log es)
  case Nil
  then show ?case by simp
next
  case (Cons rd rds)
  obtain xs now where rd: "rd = (xs, now)" by (cases rd)
  from audit_round_spec [OF Cons.prems(1) assms(2) _ assms(4) Cons.prems(3), of xs cap_reg now] Cons.prems(2) obtain vs g1 log1 where
    r: "audit_round cap_reg types buf (xs, now) (g, log) = Some (vs, g1, log1)" "length vs = length xs"
      "gate_inv types [] g1" "acc_inv (es @ map2 gate_entry xs vs) 255 log1" by (auto simp: rd)
  from Cons.IH [OF r(3) _ r(4)] Cons.prems(2) obtain vs' g2 log2 where
    "audit_rounds cap_reg types buf rds (g1, log1) = Some (vs', g2, log2)" "length vs' = length (concat (map fst rds))"
    "acc_inv ((es @ map2 gate_entry xs vs) @ map2 gate_entry (concat (map fst rds)) vs') 255 log2" by auto
  then show ?case using r(1,2) by (simp add: rd)
qed



end
